(* ===== verification/Prelude.thy ===== *)
theory Prelude
  imports Main "HOL-Library.Word" "HOL-Library.Signed_Division"
begin

text \<open>
  Shared vocabulary of the development: the machine-integer types of \<^verbatim>\<open>kernel/types.h\<close>, the
  result type in which a kernel \<^verbatim>\<open>panic\<close> is a value, and the generic facts about results,
  words, lists and function updates that the component theories rest on.
\<close>

unbundle bit_operations_syntax

type_synonym u8 = "8 word"
type_synonym u16 = "16 word"
type_synonym u32 = "32 word"
type_synonym u64 = "64 word"

text \<open>A physical memory, or any byte-addressed address space.\<close>

type_synonym mem = "u64 \<Rightarrow> u8"

text \<open>
  \<^verbatim>\<open>panic(s)\<close> prints a message and stops the machine.  A kernel function that may panic
  returns \<open>Panic s\<close>; otherwise \<open>Ok\<close> of its result (and of the state it leaves).
\<close>

datatype 'a res = Ok 'a | Panic string

primrec bind_res :: "'a res \<Rightarrow> ('a \<Rightarrow> 'b res) \<Rightarrow> 'b res" where
  "bind_res (Ok x) f = f x"
| "bind_res (Panic s) f = Panic s"

definition is_ok :: "'a res \<Rightarrow> bool" where
  "is_ok r = (case r of Ok _ \<Rightarrow> True | Panic _ \<Rightarrow> False)"

named_theorems res_simps "inversion of results"
named_theorems inv_intros "preservation of component invariants"
named_theorems mem_simps "reading a memory after an update"

lemma bind_res_cong [fundef_cong]:
  "m = m' \<Longrightarrow> (\<And>x. m' = Ok x \<Longrightarrow> f x = f' x) \<Longrightarrow> bind_res m f = bind_res m' f'"
  by (cases m') auto

lemma bind_res_eq_Ok [res_simps]:
  "bind_res m f = Ok y \<longleftrightarrow> (\<exists>x. m = Ok x \<and> f x = Ok y)"
  by (cases m) auto

lemma bind_res_eq_Panic [res_simps]:
  "bind_res m f = Panic e \<longleftrightarrow> m = Panic e \<or> (\<exists>x. m = Ok x \<and> f x = Panic e)"
  by (cases m) auto

lemma bind_res_assoc: "bind_res (bind_res m f) g = bind_res m (\<lambda>x. bind_res (f x) g)"
  by (cases m) auto

lemma is_ok_simps [simp]: "is_ok (Ok x)" "\<not> is_ok (Panic e)"
  by (simp_all add: is_ok_def)

lemma is_ok_iff: "is_ok r \<longleftrightarrow> (\<exists>x. r = Ok x)"
  by (cases r) auto

subsection \<open>Signed 32-bit arithmetic without overflow\<close>

lemma sint_u32_bound: "sint (n::u32) < 2 ^ 31" "- (2 ^ 31) \<le> sint n"
  using sint_lt [of n] sint_ge [of n] by simp_all

lemma sint_word_of_int32:
  "- (2 ^ 31) \<le> k \<Longrightarrow> k < 2 ^ 31 \<Longrightarrow> sint (word_of_int k :: u32) = k"
  by (simp add: sint_sbintrunc' signed_take_bit_int_eq_self)

lemma sint_add32:
  assumes "- (2 ^ 31) \<le> sint a + sint b" "sint a + sint b < 2 ^ 31"
  shows "sint (a + b :: u32) = sint a + sint b"
proof -
  have "a + b = word_of_int (sint a + sint b)" by simp
  then show ?thesis using sint_word_of_int32 [OF assms] by simp
qed

lemma sint_sub32:
  assumes "- (2 ^ 31) \<le> sint a - sint b" "sint a - sint b < 2 ^ 31"
  shows "sint (a - b :: u32) = sint a - sint b"
proof -
  have "a - b = word_of_int (sint a - sint b)" by simp
  then show ?thesis using sint_word_of_int32 [OF assms] by simp
qed

lemma nat_sint_nonneg:
  assumes "0 \<le> sint (n :: u32)" shows "nat (sint n) = unat n"
proof -
  have "uint n = uint (word_of_int (sint n) :: u32)" by simp
  also have "\<dots> = sint n mod 2 ^ 32" by (simp only: uint_word_of_int) simp
  also have "\<dots> = sint n" using assms sint_u32_bound(1) [of n] by (intro mod_pos_pos_trivial) simp_all
  finally show ?thesis by (simp add: unat_eq_nat_uint)
qed

subsection \<open>Bounded quantifiers over small ranges\<close>

lemma all_le_Suc: "(\<forall>i \<le> Suc n. P i) \<longleftrightarrow> P 0 \<and> (\<forall>i \<le> n. P (Suc i))"
  by (metis Suc_le_mono le_zero_eq not0_implies_Suc zero_le)

lemma all_less_Suc: "(\<forall>i < Suc n. P i) \<longleftrightarrow> P 0 \<and> (\<forall>i < n. P (Suc i))"
  by (metis Suc_less_eq less_Suc_eq_0_disj)

end
