(* ===== verification/Spinlock.thy ===== *)
theory Spinlock
  imports Prelude
begin

text \<open>
  Spin locks and interrupt nesting, \<^verbatim>\<open>kernel/spinlock.c\<close>.  Several CPUs run \<open>acquire\<close> and \<open>release\<close>
  on several locks, interleaved at the level of single shared-memory accesses: the two reads
  of \<open>holding\<close>, the atomic swap of the spin loop, the writes of \<open>lk->cpu\<close> and of \<open>lk->locked\<close>
  are separate steps.  The mutual exclusion proved here is why the other theories treat a
  critical section as one step.
\<close>

section \<open>Model\<close>

text \<open>
  A lock's \<open>cpu\<close> field holds a CPU number, \<open>None\<close> for the null pointer.  \<open>ien\<close> is the
  supervisor interrupt-enable bit of the CPU.  \<open>noff\<close> counts at most one level per held lock,
  far below the range of \<open>int\<close>.
\<close>

record spinlock =
  locked :: u32
  lname :: string
  lcpu :: "nat option"

record cpu =
  noff :: int
  intena :: bool
  ien :: bool

definition initlock :: "spinlock \<Rightarrow> string \<Rightarrow> spinlock" where
  "initlock lk name = lk\<lparr>lname := name, locked := 0, lcpu := None\<rparr>"

definition holding :: "spinlock \<Rightarrow> nat \<Rightarrow> bool" where
  "holding lk me \<longleftrightarrow> locked lk \<noteq> 0 \<and> lcpu lk = Some me"

definition push_off :: "cpu \<Rightarrow> cpu" where
  "push_off c =
     (let old = ien c; c1 = c\<lparr>ien := False\<rparr>;
          c2 = (if noff c1 = 0 then c1\<lparr>intena := old\<rparr> else c1)
      in c2\<lparr>noff := noff c2 + 1\<rparr>)"

definition pop_off :: "cpu \<Rightarrow> cpu res" where
  "pop_off c =
     (if ien c then Panic ''pop_off - interruptible''
      else if noff c < 1 then Panic ''pop_off''
      else let c1 = c\<lparr>noff := noff c - 1\<rparr>
           in Ok (if noff c1 = 0 \<and> intena c1 then c1\<lparr>ien := True\<rparr> else c1))"

text \<open>
  Where a CPU is inside \<open>acquire\<close> or \<open>release\<close>; \<open>AcqRd2\<close> and \<open>RelRd2\<close> keep the value of
  \<open>lk->locked\<close> that \<open>holding\<close> has read.
\<close>

datatype pc =
    Idle
  | AcqPush nat | AcqRd1 nat | AcqRd2 nat u32 | AcqSpin nat | AcqCpu nat
  | RelRd1 nat | RelRd2 nat u32 | RelClr nat | RelUnl nat | RelPop nat
  | Dead string

text \<open>
  \<open>held c\<close> is the set of locks whose swap CPU \<open>c\<close> has won and not undone; the code has no
  such variable, it is what the lock's fields stand for.
\<close>

record lsys =
  lks :: "nat \<Rightarrow> spinlock"
  cps :: "nat \<Rightarrow> cpu"
  pcs :: "nat \<Rightarrow> pc"
  held :: "nat \<Rightarrow> nat set"

definition goto :: "nat \<Rightarrow> pc \<Rightarrow> lsys \<Rightarrow> lsys" where
  "goto c q s = s\<lparr>pcs := (pcs s)(c := q)\<rparr>"

definition set_lk :: "nat \<Rightarrow> spinlock \<Rightarrow> lsys \<Rightarrow> lsys" where
  "set_lk l k s = s\<lparr>lks := (lks s)(l := k)\<rparr>"

definition set_cpu :: "nat \<Rightarrow> cpu \<Rightarrow> lsys \<Rightarrow> lsys" where
  "set_cpu c k s = s\<lparr>cps := (cps s)(c := k)\<rparr>"

definition set_held :: "nat \<Rightarrow> nat set \<Rightarrow> lsys \<Rightarrow> lsys" where
  "set_held c h s = s\<lparr>held := (held s)(c := h)\<rparr>"

lemmas lsys_defs = goto_def set_lk_def set_cpu_def set_held_def

text \<open>One step of \<open>acquire\<close> by CPU \<open>c\<close>.\<close>

fun acquire_step :: "nat \<Rightarrow> pc \<Rightarrow> lsys \<Rightarrow> lsys" where
  "acquire_step c (AcqPush l) s = goto c (AcqRd1 l) (set_cpu c (push_off (cps s c)) s)"
| "acquire_step c (AcqRd1 l) s = goto c (AcqRd2 l (locked (lks s l))) s"
| "acquire_step c (AcqRd2 l v) s =
     (if v \<noteq> 0 \<and> lcpu (lks s l) = Some c then goto c (Dead ''acquire'') s
      else goto c (AcqSpin l) s)"
| "acquire_step c (AcqSpin l) s =
     (let old = locked (lks s l); s1 = set_lk l ((lks s l)\<lparr>locked := 1\<rparr>) s
      in if old \<noteq> 0 then s1 else goto c (AcqCpu l) (set_held c (insert l (held s c)) s1))"
| "acquire_step c (AcqCpu l) s = goto c Idle (set_lk l ((lks s l)\<lparr>lcpu := Some c\<rparr>) s)"
| "acquire_step c _ s = s"

text \<open>One step of \<open>release\<close>.\<close>

fun release_step :: "nat \<Rightarrow> pc \<Rightarrow> lsys \<Rightarrow> lsys" where
  "release_step c (RelRd1 l) s = goto c (RelRd2 l (locked (lks s l))) s"
| "release_step c (RelRd2 l v) s =
     (if \<not> (v \<noteq> 0 \<and> lcpu (lks s l) = Some c) then goto c (Dead ''release'') s
      else goto c (RelClr l) s)"
| "release_step c (RelClr l) s = goto c (RelUnl l) (set_lk l ((lks s l)\<lparr>lcpu := None\<rparr>) s)"
| "release_step c (RelUnl l) s =
     goto c (RelPop l) (set_held c (held s c - {l}) (set_lk l ((lks s l)\<lparr>locked := 0\<rparr>) s))"
| "release_step c (RelPop l) s =
     (case pop_off (cps s c) of
        Ok k \<Rightarrow> goto c Idle (set_cpu c k s)
      | Panic msg \<Rightarrow> goto c (Dead msg) s)"
| "release_step c _ s = s"

text \<open>
  A CPU outside the two functions may call either one on any lock, and may switch interrupts
  on or off while it is under no \<open>push_off\<close>.
\<close>

inductive lstep :: "lsys \<Rightarrow> lsys \<Rightarrow> bool" where
  ls_acquire: "pcs s c = Idle \<Longrightarrow> lstep s (goto c (AcqPush l) s)"
| ls_release: "pcs s c = Idle \<Longrightarrow> lstep s (goto c (RelRd1 l) s)"
| ls_intr: "pcs s c = Idle \<Longrightarrow> noff (cps s c) = 0 \<Longrightarrow> lstep s (set_cpu c ((cps s c)\<lparr>ien := b\<rparr>) s)"
| ls_acq: "lstep s (acquire_step c (pcs s c) s)"
| ls_rel: "lstep s (release_step c (pcs s c) s)"

definition lsys_init :: "lsys \<Rightarrow> bool" where
  "lsys_init s \<longleftrightarrow> (\<forall>l. locked (lks s l) = 0 \<and> lcpu (lks s l) = None)
     \<and> (\<forall>c. noff (cps s c) = 0 \<and> pcs s c = Idle \<and> held s c = {})"

inductive lreach :: "lsys \<Rightarrow> bool" where
  lr_init: "lsys_init s \<Longrightarrow> lreach s"
| lr_step: "lreach s \<Longrightarrow> lstep s s' \<Longrightarrow> lreach s'"

section \<open>The invariant\<close>

text \<open>The levels of \<open>push_off\<close> a CPU is under besides those of its held locks.\<close>

fun extra :: "pc \<Rightarrow> int" where
  "extra (AcqRd1 _) = 1" | "extra (AcqRd2 _ _) = 1" | "extra (AcqSpin _) = 1"
| "extra (RelPop _) = 1" | "extra _ = 0"

text \<open>What a CPU's place in the code says about the locks it holds.\<close>

fun pc_ok :: "pc \<Rightarrow> nat set \<Rightarrow> bool" where
  "pc_ok (AcqRd2 l v) h \<longleftrightarrow> (v = 0 \<longrightarrow> l \<notin> h)"
| "pc_ok (AcqSpin l) h \<longleftrightarrow> l \<notin> h"
| "pc_ok (AcqCpu l) h \<longleftrightarrow> l \<in> h"
| "pc_ok (RelClr l) h \<longleftrightarrow> l \<in> h"
| "pc_ok (RelUnl l) h \<longleftrightarrow> l \<in> h"
| "pc_ok _ h \<longleftrightarrow> True"

fun dead :: "pc \<Rightarrow> bool" where
  "dead (Dead _) \<longleftrightarrow> True" | "dead _ \<longleftrightarrow> False"

definition lock_inv :: "lsys \<Rightarrow> bool" where
  "lock_inv s \<longleftrightarrow>
     (\<forall>l. locked (lks s l) \<noteq> 0 \<longleftrightarrow> (\<exists>c. l \<in> held s c))
   \<and> (\<forall>l c d. l \<in> held s c \<longrightarrow> l \<in> held s d \<longrightarrow> c = d)
   \<and> (\<forall>l c. lcpu (lks s l) = Some c \<longleftrightarrow> l \<in> held s c \<and> pcs s c \<noteq> AcqCpu l \<and> pcs s c \<noteq> RelUnl l)
   \<and> (\<forall>c. pc_ok (pcs s c) (held s c))"

definition noff_inv :: "lsys \<Rightarrow> bool" where
  "noff_inv s \<longleftrightarrow> (\<forall>c. finite (held s c)
     \<and> (\<not> dead (pcs s c) \<longrightarrow> noff (cps s c) = int (card (held s c)) + extra (pcs s c))
     \<and> (0 < noff (cps s c) \<longrightarrow> \<not> ien (cps s c)) \<and> 0 \<le> noff (cps s c)
     \<and> int (card (held s c)) \<le> noff (cps s c))"

lemma acquire_step_lock_inv:
  assumes "lock_inv s" shows "lock_inv (acquire_step c (pcs s c) s)"
  using assms by (cases "pcs s c")
    (auto simp: lock_inv_def lsys_defs Let_def split: if_splits; (metis pc.simps pc_ok.simps)?)+

lemma release_step_lock_inv:
  assumes "lock_inv s" shows "lock_inv (release_step c (pcs s c) s)"
  using assms by (cases "pcs s c")
    (auto simp: lock_inv_def lsys_defs Let_def split: if_splits res.splits; (metis pc.simps pc_ok.simps)?)+

lemma lstep_lock_inv: "lstep s s' \<Longrightarrow> lock_inv s \<Longrightarrow> lock_inv s'"
proof (induction rule: lstep.induct)
  case (ls_acquire s c l)
  then show ?case by (auto simp: lock_inv_def lsys_defs; metis pc.simps)
next
  case (ls_release s c l)
  then show ?case by (auto simp: lock_inv_def lsys_defs; metis pc.simps)
qed (auto simp: acquire_step_lock_inv release_step_lock_inv, auto simp: lock_inv_def lsys_defs)

lemma acquire_step_noff_inv:
  assumes "noff_inv s" "lock_inv s" shows "noff_inv (acquire_step c (pcs s c) s)"
proof -
  have c: "finite (held s c)" "\<not> dead (pcs s c) \<longrightarrow> noff (cps s c) = int (card (held s c)) + extra (pcs s c)"
    "0 < noff (cps s c) \<longrightarrow> \<not> ien (cps s c)" "0 \<le> noff (cps s c)" "int (card (held s c)) \<le> noff (cps s c)"
    and ok: "pc_ok (pcs s c) (held s c)"
    using assms by (auto simp: noff_inv_def lock_inv_def)
  show ?thesis
    using assms(1) c ok by (cases "pcs s c") (auto simp: noff_inv_def lsys_defs Let_def push_off_def)
qed

lemma release_step_noff_inv:
  assumes "noff_inv s" "lock_inv s" shows "noff_inv (release_step c (pcs s c) s)"
proof -
  have c: "finite (held s c)" "\<not> dead (pcs s c) \<longrightarrow> noff (cps s c) = int (card (held s c)) + extra (pcs s c)"
    "0 < noff (cps s c) \<longrightarrow> \<not> ien (cps s c)" "0 \<le> noff (cps s c)" "int (card (held s c)) \<le> noff (cps s c)"
    and ok: "pc_ok (pcs s c) (held s c)"
    using assms by (auto simp: noff_inv_def lock_inv_def)
  show ?thesis
  proof (cases "pcs s c")
    case (RelUnl l)
    then have "l \<in> held s c" using ok by simp
    then have "0 < card (held s c)" using c(1) by (auto simp: card_gt_0_iff)
    then show ?thesis using assms(1) c RelUnl \<open>l \<in> held s c\<close>
      by (auto simp: noff_inv_def lsys_defs card_Diff_singleton)
  qed (use assms(1) c ok in \<open>auto simp: noff_inv_def lsys_defs Let_def pop_off_def\<close>)
qed

lemma lstep_noff_inv: "lstep s s' \<Longrightarrow> noff_inv s \<Longrightarrow> lock_inv s \<Longrightarrow> noff_inv s'"
proof (induction rule: lstep.induct)
  case (ls_acquire s c l)
  then have "noff (cps s c) = int (card (held s c))" by (simp add: noff_inv_def)
  then show ?case using ls_acquire by (auto simp: noff_inv_def lsys_defs)
next
  case (ls_release s c l)
  then have "noff (cps s c) = int (card (held s c))" by (simp add: noff_inv_def)
  then show ?case using ls_release by (auto simp: noff_inv_def lsys_defs)
next
  case (ls_intr s c b)
  then show ?case by (auto simp: noff_inv_def lsys_defs)
qed (simp_all add: acquire_step_noff_inv release_step_noff_inv)

lemma lreach_inv: "lreach s \<Longrightarrow> lock_inv s \<and> noff_inv s"
proof (induction rule: lreach.induct)
  case (lr_init s)
  then show ?case by (auto simp: lsys_init_def lock_inv_def noff_inv_def)
qed (auto intro: lstep_lock_inv lstep_noff_inv)

section \<open>Properties\<close>

text \<open>
  C6: mutual exclusion, for any number of CPUs and locks and any interleaving.  At most one
  CPU holds a lock; \<open>lk->locked\<close> is nonzero exactly while one does; outside \<open>acquire\<close> and
  \<open>release\<close> the racy reads of \<open>holding\<close> give the right answer; no CPU ever spins on a lock it
  holds itself, and only the holder reaches the two writes of \<open>release\<close>.
\<close>

theorem spinlock_mutual_exclusion:
  assumes "lreach s"
  shows "(\<forall>c d. l \<in> held s c \<and> l \<in> held s d \<longrightarrow> c = d)
    \<and> (locked (lks s l) \<noteq> 0 \<longleftrightarrow> (\<exists>c. l \<in> held s c))
    \<and> (\<forall>c. pcs s c = Idle \<longrightarrow> (holding (lks s l) c \<longleftrightarrow> l \<in> held s c))
    \<and> (\<forall>c. pcs s c = AcqSpin l \<longrightarrow> l \<notin> held s c)
    \<and> (\<forall>c. pcs s c = RelClr l \<or> pcs s c = RelUnl l \<longrightarrow> l \<in> held s c)"
proof -
  have inv: "lock_inv s" using lreach_inv [OF assms] by simp
  then have ok: "pc_ok (pcs s c) (held s c)" for c by (simp add: lock_inv_def)
  have "pcs s c = AcqSpin l \<Longrightarrow> l \<notin> held s c" "pcs s c = RelClr l \<or> pcs s c = RelUnl l \<Longrightarrow> l \<in> held s c" for c
    using ok [of c] by auto
  moreover have "pcs s c = Idle \<Longrightarrow> holding (lks s l) c \<longleftrightarrow> l \<in> held s c" for c
    using inv by (auto simp: lock_inv_def holding_def)
  ultimately show ?thesis using inv unfolding lock_inv_def by blast
qed

definition two_cpus :: lsys where
  "two_cpus = \<lparr>lks = (\<lambda>_. initlock \<lparr>locked = 7, lname = [], lcpu = Some 3\<rparr> ''kmem''),
     cps = (\<lambda>_. \<lparr>noff = 0, intena = False, ien = True\<rparr>), pcs = (\<lambda>_. Idle), held = (\<lambda>_. {})\<rparr>"

text \<open>CPU \<open>c\<close> calls \<open>acquire\<close> on lock \<open>l\<close> and runs \<open>n\<close> of its steps.\<close>

primrec acq_n :: "nat \<Rightarrow> nat \<Rightarrow> lsys \<Rightarrow> lsys" where
  "acq_n 0 c s = s"
| "acq_n (Suc n) c s = acq_n n c (acquire_step c (pcs s c) s)"

definition call_acquire :: "nat \<Rightarrow> nat \<Rightarrow> nat \<Rightarrow> lsys \<Rightarrow> lsys" where
  "call_acquire n c l s = acq_n n c (goto c (AcqPush l) s)"

lemma lreach_acq_n: "lreach s \<Longrightarrow> lreach (acq_n n c s)"
  by (induction n arbitrary: s) (auto intro: lr_step ls_acq)

lemma lreach_call_acquire: "lreach s \<Longrightarrow> pcs s c = Idle \<Longrightarrow> lreach (call_acquire n c l s)"
  unfolding call_acquire_def by (blast intro: lreach_acq_n lr_step ls_acquire)

definition contended :: lsys where
  "contended = call_acquire 6 1 0 (call_acquire 5 0 0 two_cpus)"

lemma lreach_two_cpus: "lreach two_cpus"
  by (rule lr_init) (simp add: lsys_init_def two_cpus_def initlock_def)

lemmas lock_run_simps = contended_def call_acquire_def two_cpus_def initlock_def goto_def set_lk_def
  set_cpu_def set_held_def push_off_def Let_def numeral_eq_Suc

lemma lreach_contended: "lreach contended"
proof -
  have "pcs (call_acquire 5 0 0 two_cpus) 1 = Idle" by (simp add: lock_run_simps)
  then show ?thesis unfolding contended_def
    by (intro lreach_call_acquire lreach_two_cpus) (simp_all add: two_cpus_def)
qed

theorem spinlock_mutual_exclusion_witness:
  "lreach contended \<and> pcs contended 1 = AcqSpin 0 \<and> 0 \<in> held contended 0 \<and> 0 \<notin> held contended 1
     \<and> holding (lks contended 0) 0"
proof -
  have "pcs contended 0 = Idle" "pcs contended 1 = AcqSpin 0" "0 \<in> held contended 0"
    by (simp_all add: lock_run_simps)
  then show ?thesis using spinlock_mutual_exclusion [OF lreach_contended, of 0] lreach_contended by blast
qed

text \<open>
  C7: a CPU that holds a lock, or spins for one, runs with interrupts off, and \<open>release\<close>
  never reaches one of the panics of \<open>pop_off\<close>.
\<close>

theorem spinlock_interrupts_off:
  assumes "lreach s" "l \<in> held s c \<or> pcs s c = AcqSpin l \<or> pcs s c = RelPop l"
  shows "\<not> ien (cps s c) \<and> (pcs s c = RelPop l \<longrightarrow> is_ok (pop_off (cps s c)))"
proof -
  have I: "finite (held s c)" "\<not> dead (pcs s c) \<longrightarrow> noff (cps s c) = int (card (held s c)) + extra (pcs s c)"
    "0 < noff (cps s c) \<longrightarrow> \<not> ien (cps s c)" "int (card (held s c)) \<le> noff (cps s c)"
    using lreach_inv [OF assms(1)] by (auto simp: noff_inv_def)
  have "l \<in> held s c \<Longrightarrow> 0 < card (held s c)" using I(1) by (auto simp: card_gt_0_iff)
  then have pos: "0 < noff (cps s c)" using I assms(2) by auto
  with I(3) show ?thesis by (simp add: pop_off_def Let_def)
qed

theorem spinlock_interrupts_off_witness:
  "lreach contended \<and> ien (cps two_cpus 1) \<and> \<not> ien (cps contended 0) \<and> \<not> ien (cps contended 1)"
proof -
  have "pcs contended 1 = AcqSpin 0" "0 \<in> held contended 0" by (simp_all add: lock_run_simps)
  then show ?thesis using spinlock_interrupts_off [OF lreach_contended, of 0 0]
      spinlock_interrupts_off [OF lreach_contended, of 0 1] lreach_contended
    by (simp add: two_cpus_def)
qed

primrec push_n :: "nat \<Rightarrow> cpu \<Rightarrow> cpu" where
  "push_n 0 c = c"
| "push_n (Suc n) c = push_n n (push_off c)"

primrec pop_n :: "nat \<Rightarrow> cpu \<Rightarrow> cpu res" where
  "pop_n 0 c = Ok c"
| "pop_n (Suc n) c = bind_res (pop_off c) (pop_n n)"

lemma push_n_fields:
  "0 \<le> noff c \<Longrightarrow> noff (push_n n c) = noff c + int n \<and> (ien (push_n n c) \<longleftrightarrow> ien c \<and> n = 0)
    \<and> intena (push_n n c) = (if noff c = 0 \<and> 0 < n then ien c else intena c)"
  by (induction n arbitrary: c) (auto simp: push_off_def Let_def)

lemma pop_n_fields:
  assumes "int n \<le> noff c" "0 < n" "\<not> ien c"
  shows "\<exists>c'. pop_n n c = Ok c' \<and> noff c' = noff c - int n
     \<and> (ien c' \<longleftrightarrow> noff c = int n \<and> intena c)"
  using assms
proof (induction n arbitrary: c)
  case (Suc n)
  show ?case
  proof (cases n)
    case 0
    then show ?thesis using Suc.prems by (auto simp: pop_off_def Let_def)
  next
    case (Suc k)
    let ?c = "c\<lparr>noff := noff c - 1\<rparr>"
    have "pop_off c = Ok ?c" using Suc.prems Suc by (simp add: pop_off_def Let_def)
    moreover have "\<exists>c'. pop_n n ?c = Ok c' \<and> noff c' = noff ?c - int n \<and> (ien c' \<longleftrightarrow> noff ?c = int n \<and> intena ?c)"
      using Suc.prems Suc by (intro Suc.IH) auto
    ultimately show ?thesis by auto
  qed
qed simp



end
