(* ===== verification/Riscv.thy ===== *)
theory Riscv
  imports Prelude
begin

text \<open>
  The paging macros of \<^verbatim>\<open>kernel/riscv.h\<close> and the address-space layout of
  \<^verbatim>\<open>kernel/memlayout.h\<close>, on 64-bit words.  The lemmas say that the encodings are
  inverse to each other, that rounding brackets its argument, that the three page-table
  indices and the page offset determine a virtual address, and that the kernel stacks are
  disjoint and separated by guard pages.
\<close>

section \<open>Pages and page-table entries\<close>

definition PGSIZE :: u64 where "PGSIZE = 4096"
definition PGSHIFT :: nat where "PGSHIFT = 12"

definition PGROUNDUP :: "u64 \<Rightarrow> u64" where
  "PGROUNDUP sz = (sz + PGSIZE - 1) AND NOT (PGSIZE - 1)"

definition PGROUNDDOWN :: "u64 \<Rightarrow> u64" where
  "PGROUNDDOWN a = a AND NOT (PGSIZE - 1)"

definition PTE_V :: u64 where "PTE_V = push_bit 0 1"
definition PTE_R :: u64 where "PTE_R = push_bit 1 1"
definition PTE_W :: u64 where "PTE_W = push_bit 2 1"
definition PTE_X :: u64 where "PTE_X = push_bit 3 1"
definition PTE_U :: u64 where "PTE_U = push_bit 4 1"
definition PTE_COW :: u64 where "PTE_COW = push_bit 8 1"

definition PA2PTE :: "u64 \<Rightarrow> u64" where "PA2PTE pa = push_bit 10 (drop_bit 12 pa)"
definition PTE2PA :: "u64 \<Rightarrow> u64" where "PTE2PA pte = push_bit 12 (drop_bit 10 pte)"
definition PTE_FLAGS :: "u64 \<Rightarrow> u64" where "PTE_FLAGS pte = pte AND 0x3FF"

definition PXMASK :: u64 where "PXMASK = 0x1FF"
definition PXSHIFT :: "nat \<Rightarrow> nat" where "PXSHIFT level = PGSHIFT + 9 * level"
definition PX :: "nat \<Rightarrow> u64 \<Rightarrow> u64" where
  "PX level va = drop_bit (PXSHIFT level) va AND PXMASK"

definition MAXVA :: u64 where "MAXVA = push_bit (9 + 9 + 9 + 12 - 1) 1"

section \<open>Memory layout\<close>

definition KERNBASE :: u64 where "KERNBASE = 0x80000000"
definition PHYSTOP :: u64 where "PHYSTOP = KERNBASE + 128 * 1024 * 1024"
definition UART0 :: u64 where "UART0 = 0x10000000"
definition VIRTIO0 :: u64 where "VIRTIO0 = 0x10001000"
definition PLIC :: u64 where "PLIC = 0x0c000000"
definition TRAMPOLINE :: u64 where "TRAMPOLINE = MAXVA - PGSIZE"
definition TRAPFRAME :: u64 where "TRAPFRAME = TRAMPOLINE - PGSIZE"
definition KSTACK :: "u64 \<Rightarrow> u64" where "KSTACK p = TRAMPOLINE - (p + 1) * 2 * PGSIZE"

lemmas pte_bit_defs = PTE_V_def PTE_R_def PTE_W_def PTE_X_def PTE_U_def PTE_COW_def

text \<open>A word is page-aligned when its low twelve bits are clear.\<close>

definition pg_aligned :: "u64 \<Rightarrow> bool" where "pg_aligned a \<longleftrightarrow> a mod PGSIZE = 0"


section \<open>Facts\<close>

lemma PGSIZE_mask: "PGSIZE - 1 = mask 12"
  by (simp add: PGSIZE_def mask_eq_exp_minus_1)

lemma NOT_mask_eq: "a AND NOT (mask n) = push_bit n (drop_bit n (a::'a::len word))"
  by (rule bit_word_eqI) (auto simp: bit_simps)

lemma PGROUNDDOWN_bits: "PGROUNDDOWN a = push_bit 12 (drop_bit 12 a)"
  by (simp add: PGROUNDDOWN_def PGSIZE_mask NOT_mask_eq)

lemma PGROUNDDOWN_div: "PGROUNDDOWN a = a div 4096 * 4096"
  by (simp add: PGROUNDDOWN_bits push_bit_eq_mult drop_bit_eq_div)

lemma unat_u64: "unat (a::u64) < 2 ^ 64"
  using unsigned_less [of a] by simp

lemma unat_u32: "unat (a::u32) < 2 ^ 32"
  using unsigned_less [of a] by simp

lemma unat_PGROUNDDOWN: "unat (PGROUNDDOWN a) = unat a div 4096 * 4096"
proof -
  have "unat a div 4096 * 4096 < 2 ^ 64"
    using unat_u64 [of a] div_times_less_eq_dividend [of "unat a" 4096] by simp
  then show ?thesis
    by (simp add: PGROUNDDOWN_div unat_word_ariths unat_div)
qed

lemma pg_aligned_unat: "pg_aligned a \<longleftrightarrow> unat a mod 4096 = 0"
proof -
  have "a mod 4096 = 0 \<longleftrightarrow> unat (a mod 4096) = 0" by (simp only: unat_eq_0)
  then show ?thesis by (simp add: pg_aligned_def PGSIZE_def unat_mod)
qed

lemma pg_aligned_bits: "pg_aligned a \<longleftrightarrow> take_bit 12 a = 0"
  by (simp add: pg_aligned_def PGSIZE_def take_bit_eq_mod)

lemma pg_aligned_PGROUNDDOWN [simp]: "pg_aligned (PGROUNDDOWN a)"
  by (simp add: pg_aligned_unat unat_PGROUNDDOWN)

lemma PGROUNDDOWN_le: "PGROUNDDOWN a \<le> a"
  by (simp add: word_le_nat_alt unat_PGROUNDDOWN)

lemma PGROUNDDOWN_aligned: "pg_aligned a \<Longrightarrow> PGROUNDDOWN a = a"
  by (rule word_unat_eq_iff [THEN iffD2]) (auto simp: unat_PGROUNDDOWN pg_aligned_unat)

lemma PGROUNDUP_down: "PGROUNDUP a = PGROUNDDOWN (a + 4095)"
  by (simp add: PGROUNDUP_def PGROUNDDOWN_def PGSIZE_def add.commute)

lemma unat_PGROUNDUP:
  "unat a + 4095 < 2 ^ 64 \<Longrightarrow> unat (PGROUNDUP a) = (unat a + 4095) div 4096 * 4096"
  by (simp add: PGROUNDUP_down unat_PGROUNDDOWN unat_word_ariths)

lemma pg_aligned_PGROUNDUP [simp]: "pg_aligned (PGROUNDUP a)"
  by (simp add: PGROUNDUP_down)

lemma PGROUNDUP_aligned:
  assumes "pg_aligned a" shows "PGROUNDUP a = a"
proof -
  obtain k where k: "unat a = 4096 * k"
    using assms by (auto simp: pg_aligned_unat)
  moreover have "unat a < 2 ^ 64" by (rule unat_u64)
  ultimately have "unat a + 4095 < 2 ^ 64" by simp
  then have "unat (PGROUNDUP a) = unat a"
    by (simp add: unat_PGROUNDUP k)
  then show ?thesis by (simp add: word_unat_eq_iff)
qed

lemma PTE2PA_PA2PTE:
  "pg_aligned pa \<Longrightarrow> drop_bit 56 pa = 0 \<Longrightarrow> drop_bit 10 fl = 0 \<Longrightarrow>
   PTE2PA (PA2PTE pa OR fl) = pa"
proof (rule bit_word_eqI)
  fix n assume al: "pg_aligned pa" and hi: "drop_bit 56 pa = 0" and fl: "drop_bit 10 fl = 0"
    and n: "n < LENGTH(64)"
  have low: "\<not> bit pa n" if "n < 12"
    using al that by (auto simp: pg_aligned_bits bit_eq_iff bit_simps dest: spec [of _ n])
  have high: "\<not> bit pa (56 + k)" for k
    using arg_cong [OF hi, of "\<lambda>w. bit w k"] by (simp add: bit_drop_bit_eq)
  have flh: "\<not> bit fl (10 + k)" for k
    using arg_cong [OF fl, of "\<lambda>w. bit w k"] by (simp add: bit_drop_bit_eq)
  show "bit (PTE2PA (PA2PTE pa OR fl)) n = bit pa n"
  proof (cases "n < 12")
    case True
    with low show ?thesis by (simp add: PTE2PA_def bit_simps)
  next
    case False
    then have "n = 12 + (n - 12)" by simp
    with False high [of "n - 56"] flh [of "n - 12"] n show ?thesis
      by (auto simp: PTE2PA_def PA2PTE_def bit_simps)
  qed
qed

lemma PTE_FLAGS_PA2PTE: "PTE_FLAGS (PA2PTE pa OR fl) = fl AND 0x3FF"
proof -
  have m: "(0x3FF::u64) = mask 10" by (simp add: mask_eq_exp_minus_1)
  show ?thesis unfolding PTE_FLAGS_def m
    by (rule bit_word_eqI) (auto simp: PA2PTE_def bit_simps)
qed

lemma PX_mask: "PX level va = take_bit 9 (drop_bit (12 + 9 * level) va)"
proof -
  have m: "(0x1FF::u64) = mask 9" by (simp add: mask_eq_exp_minus_1)
  show ?thesis by (simp add: PX_def PXMASK_def PXSHIFT_def PGSHIFT_def m take_bit_eq_mask)
qed

lemma PX_less: "unat (PX level va) < 512"
  using take_bit_nat_less_exp [of 9] by (simp add: PX_mask unsigned_take_bit_eq)

lemma PGROUNDDOWN_PX: "PX level (PGROUNDDOWN va) = PX level va"
  by (simp add: PX_mask PGROUNDDOWN_bits) (rule bit_word_eqI, auto simp: bit_simps ac_simps dest: bit_imp_le_length)

lemma MAXVA_eq: "MAXVA = 2 ^ 38" "MAXVA = 274877906944"
  by (simp_all add: MAXVA_def push_bit_eq_mult)

text \<open>
  The three indices of a page-aligned virtual address below \<^verbatim>\<open>MAXVA\<close> determine it, so
  two different pages never share a leaf entry.
\<close>

lemma va_bit: "va < MAXVA \<Longrightarrow> bit va n \<Longrightarrow> n < 38"
proof (rule ccontr)
  assume va: "va < MAXVA" and b: "bit va n" and n: "\<not> n < 38"
  have "take_bit 38 va = va"
    using va by (simp add: word_unat_eq_iff unsigned_take_bit_eq take_bit_nat_eq_self
        word_less_nat_alt MAXVA_eq(2))
  with b n show False by (metis bit_take_bit_iff)
qed

lemma va_indices_eq:
  assumes "va < MAXVA" "vb < MAXVA" "pg_aligned va" "pg_aligned vb"
    and "PX 0 va = PX 0 vb" "PX 1 va = PX 1 vb" "PX 2 va = PX 2 vb"
  shows "va = vb"
proof (rule bit_word_eqI)
  fix n assume n: "n < LENGTH(64)"
  have low: "\<not> bit v n" if "pg_aligned v" "n < 12" for v
    using arg_cong [OF that(1) [unfolded pg_aligned_bits], of "\<lambda>w. bit w n"] that(2)
    by (simp add: bit_take_bit_iff)
  have px: "bit va (k + 12 + 9 * l) = bit vb (k + 12 + 9 * l)"
    if "PX l va = PX l vb" "k < 9" for k l
    using arg_cong [OF that(1), of "\<lambda>w. bit w k"] that(2)
    by (simp add: PX_mask bit_take_bit_iff bit_drop_bit_eq ac_simps)
  consider "n < 12" | "12 \<le> n" "n < 21" | "21 \<le> n" "n < 30" | "30 \<le> n" "n < 39" | "39 \<le> n"
    by linarith
  then show "bit va n = bit vb n"
  proof cases
    case 1 then show ?thesis using low assms by blast
  next
    case 2 then show ?thesis using px [OF assms(5), of "n - 12"] by simp
  next
    case 3 then show ?thesis using px [OF assms(6), of "n - 21"] by simp
  next
    case 4 then show ?thesis using px [OF assms(7), of "n - 30"] by simp
  next
    case 5 then show ?thesis using va_bit assms(1,2) by fastforce
  qed
qed

lemma unat_KSTACK:
  assumes "unat p < 64"
  shows "unat (KSTACK p) = 274877902848 - (unat p + 1) * 8192"
proof -
  have m: "unat ((p + 1) * 2 * PGSIZE) = (unat p + 1) * 8192"
    using assms by (simp add: PGSIZE_def unat_word_ariths)
  have t: "unat TRAMPOLINE = 274877902848"
    by (simp add: TRAMPOLINE_def MAXVA_eq(2) PGSIZE_def)
  have "(p + 1) * 2 * PGSIZE \<le> TRAMPOLINE"
    unfolding word_le_nat_alt m t using assms by simp
  from unat_sub [OF this] show ?thesis unfolding KSTACK_def m t .
qed

lemma kstacks_guarded:
  assumes "unat p < 64" "unat q < 64" "p \<noteq> q"
  shows "unat (KSTACK p) + 2 * 4096 \<le> unat (KSTACK q) \<or> unat (KSTACK q) + 2 * 4096 \<le> unat (KSTACK p)"
proof -
  have "unat p \<noteq> unat q" using assms(3) by (simp add: word_unat_eq_iff)
  then show ?thesis using assms(1,2) by (auto simp: unat_KSTACK)
qed

end
