(* ===== verification/Cstring.thy ===== *)
theory Cstring
  imports Riscv
begin

text \<open>
  Byte memory and the routines of \<^verbatim>\<open>kernel/string.c\<close> on it.  A memory is a function from
  64-bit addresses to bytes; a 64-bit load or store touches eight consecutive bytes, least
  significant first.  The loops are kept as the source has them (in particular the two
  directions of \<^verbatim>\<open>memmove\<close>), and each is shown equal to a closed reference definition.
\<close>

section \<open>64-bit accesses\<close>

fun load_le :: "mem \<Rightarrow> u64 \<Rightarrow> nat \<Rightarrow> 'a::len word" where
  "load_le m a 0 = 0"
| "load_le m a (Suc k) = push_bit 8 (load_le m (a + 1) k) OR ucast (m a)"

definition store_le :: "mem \<Rightarrow> u64 \<Rightarrow> 'a::len word \<Rightarrow> nat \<Rightarrow> mem" where
  "store_le m a v k = (\<lambda>x. if unat (x - a) < k then ucast (drop_bit (8 * unat (x - a)) v) else m x)"

definition load64 :: "mem \<Rightarrow> u64 \<Rightarrow> u64" where "load64 m a = load_le m a 8"
definition store64 :: "mem \<Rightarrow> u64 \<Rightarrow> u64 \<Rightarrow> mem" where "store64 m a v = store_le m a v 8"

section \<open>kernel/string.c\<close>

function memset_loop :: "mem \<Rightarrow> u64 \<Rightarrow> u8 \<Rightarrow> nat \<Rightarrow> nat \<Rightarrow> mem" where
  "memset_loop m cdst c i n =
     (if i < n then memset_loop (m(cdst + of_nat i := c)) cdst c (Suc i) n else m)"
  by pat_completeness auto
termination
  by (relation "measure (\<lambda>(m, cdst, c, i, n). n - i)") auto

declare memset_loop.simps [simp del]

definition memset :: "mem \<Rightarrow> u64 \<Rightarrow> u32 \<Rightarrow> u32 \<Rightarrow> mem" where
  "memset m dst c n = memset_loop m dst (ucast c) 0 (unat n)"

fun memcmp_loop :: "mem \<Rightarrow> u64 \<Rightarrow> u64 \<Rightarrow> nat \<Rightarrow> int" where
  "memcmp_loop m s1 s2 0 = 0"
| "memcmp_loop m s1 s2 (Suc n) =
     (if m s1 \<noteq> m s2 then uint (m s1) - uint (m s2) else memcmp_loop m (s1 + 1) (s2 + 1) n)"

definition memcmp :: "mem \<Rightarrow> u64 \<Rightarrow> u64 \<Rightarrow> u32 \<Rightarrow> int" where
  "memcmp m v1 v2 n = memcmp_loop m v1 v2 (unat n)"

fun move_up :: "mem \<Rightarrow> u64 \<Rightarrow> u64 \<Rightarrow> nat \<Rightarrow> mem" where
  "move_up m d s 0 = m"
| "move_up m d s (Suc n) = move_up (m(d := m s)) (d + 1) (s + 1) n"

fun move_down :: "mem \<Rightarrow> u64 \<Rightarrow> u64 \<Rightarrow> nat \<Rightarrow> mem" where
  "move_down m d s 0 = m"
| "move_down m d s (Suc n) = move_down (m(d - 1 := m (s - 1))) (d - 1) (s - 1) n"

definition memmove :: "mem \<Rightarrow> u64 \<Rightarrow> u64 \<Rightarrow> u32 \<Rightarrow> mem" where
  "memmove m dst src n =
     (if n = 0 then m
      else if src < dst \<and> src + ucast n > dst
        then move_down m (dst + ucast n) (src + ucast n) (unat n)
        else move_up m dst src (unat n))"

definition memcpy :: "mem \<Rightarrow> u64 \<Rightarrow> u64 \<Rightarrow> u32 \<Rightarrow> mem" where
  "memcpy m dst src n = memmove m dst src n"

fun strncmp_loop :: "mem \<Rightarrow> u64 \<Rightarrow> u64 \<Rightarrow> nat \<Rightarrow> int" where
  "strncmp_loop m p q 0 = 0"
| "strncmp_loop m p q (Suc n) =
     (if m p \<noteq> 0 \<and> m p = m q then strncmp_loop m (p + 1) (q + 1) n
      else uint (m p) - uint (m q))"

definition strncmp :: "mem \<Rightarrow> u64 \<Rightarrow> u64 \<Rightarrow> u32 \<Rightarrow> int" where
  "strncmp m p q n = strncmp_loop m p q (unat n)"

fun strncpy_pad :: "mem \<Rightarrow> u64 \<Rightarrow> nat \<Rightarrow> mem" where
  "strncpy_pad m s 0 = m"
| "strncpy_pad m s (Suc n) = strncpy_pad (m(s := 0)) (s + 1) n"

fun strncpy_copy :: "mem \<Rightarrow> u64 \<Rightarrow> u64 \<Rightarrow> nat \<Rightarrow> mem" where
  "strncpy_copy m s t 0 = m"
| "strncpy_copy m s t (Suc n) =
     (let c = m t; m' = m(s := c)
      in if c \<noteq> 0 then strncpy_copy m' (s + 1) (t + 1) n else strncpy_pad m' (s + 1) n)"

definition strncpy :: "mem \<Rightarrow> u64 \<Rightarrow> u64 \<Rightarrow> u32 \<Rightarrow> mem" where
  "strncpy m s t n = strncpy_copy m s t (nat (sint n))"

fun safestrcpy_loop :: "mem \<Rightarrow> u64 \<Rightarrow> u64 \<Rightarrow> nat \<Rightarrow> mem" where
  "safestrcpy_loop m s t 0 = m(s := 0)"
| "safestrcpy_loop m s t (Suc n) =
     (let c = m t; m' = m(s := c)
      in if c \<noteq> 0 then safestrcpy_loop m' (s + 1) (t + 1) n else m'(s + 1 := 0))"

definition safestrcpy :: "mem \<Rightarrow> u64 \<Rightarrow> u64 \<Rightarrow> u32 \<Rightarrow> mem" where
  "safestrcpy m s t n = (if sint n \<le> 0 then m else safestrcpy_loop m s t (nat (sint n) - 1))"

text \<open>The scan of \<^verbatim>\<open>strlen\<close> does not stop in a memory without a zero byte, hence the option.\<close>

partial_function (option) strlen_loop :: "mem \<Rightarrow> u64 \<Rightarrow> nat \<Rightarrow> nat option" where
  "strlen_loop m s n = (if m (s + of_nat n) \<noteq> 0 then strlen_loop m s (Suc n) else Some n)"

definition strlen :: "mem \<Rightarrow> u64 \<Rightarrow> nat option" where
  "strlen m s = strlen_loop m s 0"

section \<open>Reference definitions\<close>

text \<open>\<open>copied m dst src n\<close>: the \<open>n\<close> bytes at \<open>dst\<close> are what \<open>m\<close> had at \<open>src\<close>.\<close>

definition copied :: "mem \<Rightarrow> u64 \<Rightarrow> u64 \<Rightarrow> nat \<Rightarrow> mem" where
  "copied m dst src n = (\<lambda>a. if unat (a - dst) < n then m (src + (a - dst)) else m a)"

text \<open>\<open>cstr_at m a bs\<close>: the NUL-terminated string at \<open>a\<close> consists of the bytes \<open>bs\<close>.\<close>

definition cstr_at :: "mem \<Rightarrow> u64 \<Rightarrow> u8 list \<Rightarrow> bool" where
  "cstr_at m a bs \<longleftrightarrow> (\<forall>i < length bs. m (a + of_nat i) = bs ! i \<and> bs ! i \<noteq> 0)
     \<and> m (a + of_nat (length bs)) = 0"

section \<open>Facts\<close>

subsection \<open>Loads and stores\<close>

lemma bit_load_le:
  "bit (load_le m a k :: 'a::len word) n \<longleftrightarrow>
     n < LENGTH('a) \<and> n < 8 * k \<and> bit (m (a + of_nat (n div 8))) (n mod 8)"
proof (induction k arbitrary: a n)
  case 0
  show ?case by simp
next
  case (Suc k)
  show ?case
  proof (cases "n < 8")
    case True
    then show ?thesis
      by (auto simp: bit_simps dest: bit_imp_le_length)
  next
    case False
    then obtain j where j: "n = 8 + j" by (metis le_Suc_ex not_less)
    have "\<not> bit (m a) n" using False by (auto dest: bit_imp_le_length)
    moreover have "n div 8 = Suc (j div 8)" "n mod 8 = j mod 8" by (simp_all add: j)
    ultimately show ?thesis
      by (auto simp: bit_simps Suc.IH j ac_simps)
  qed
qed

lemma bit_load64:
  "bit (load64 m a) n \<longleftrightarrow> n < 64 \<and> bit (m (a + of_nat (n div 8))) (n mod 8)"
  by (auto simp: load64_def bit_load_le)

lemma load64_cong:
  "(\<And>i. i < 8 \<Longrightarrow> m (a + of_nat i) = m' (b + of_nat i)) \<Longrightarrow> load64 m a = load64 m' b"
  by (rule bit_word_eqI) (simp add: bit_load64 less_mult_imp_div_less)

lemma store64_apply:
  "store64 m a v x = (if unat (x - a) < 8 then ucast (drop_bit (8 * unat (x - a)) v) else m x)"
  by (simp add: store64_def store_le_def)

lemma load64_store64_same [mem_simps]: "load64 (store64 m a v) a = v"
proof (rule bit_word_eqI)
  fix n assume "n < LENGTH(64)"
  then have "unat (of_nat (n div 8) :: u64) = n div 8" and "n div 8 < 8"
    by (auto simp: unat_of_nat take_bit_nat_eq_self)
  then show "bit (load64 (store64 m a v) a) n = bit v n"
    using \<open>n < LENGTH(64)\<close>
    by (simp add: bit_load64 store64_apply bit_simps)
qed

text \<open>Two eight-byte cells are separate when neither address lies in the other's cell.\<close>

definition sep8 :: "u64 \<Rightarrow> u64 \<Rightarrow> bool" where
  "sep8 a b \<longleftrightarrow> 8 \<le> unat (a - b) \<and> 8 \<le> unat (b - a)"

lemma unat_add_small:
  assumes "unat (x::u64) + i < 2 ^ 64" shows "unat (x + of_nat i) = unat x + i"
  using assms by (simp add: unat_word_ariths unat_of_nat)

lemma load64_store64_other [mem_simps]:
  assumes "sep8 a b" shows "load64 (store64 m a v) b = load64 m b"
proof (rule load64_cong)
  fix i :: nat assume i: "i < 8"
  have "8 \<le> unat (b + of_nat i - a)"
  proof (rule ccontr)
    assume "\<not> 8 \<le> unat (b + of_nat i - a)"
    moreover define j where "j = unat (b + of_nat i - a)"
    ultimately have j: "j < 8" "b + of_nat i - a = of_nat j" by simp_all
    have e: "b - a = of_nat j - of_nat i" using j(2) by (simp add: algebra_simps)
    show False
    proof (cases "i \<le> j")
      case True
      then have "b - a = of_nat (j - i)" using e by (simp add: of_nat_diff)
      then have "unat (b - a) < 8" using j by (simp add: unat_of_nat take_bit_nat_eq_self)
      then show ?thesis using assms by (simp add: sep8_def)
    next
      case False
      then have "a - b = of_nat (i - j)" using e by (simp add: of_nat_diff algebra_simps)
      then have "unat (a - b) < 8" using i by (simp add: unat_of_nat take_bit_nat_eq_self)
      then show ?thesis using assms by (simp add: sep8_def)
    qed
  qed
  then show "store64 m a v (b + of_nat i) = m (b + of_nat i)"
    by (simp add: store64_apply)
qed


lemma sep8_aligned:
  assumes "unat a mod 8 = 0" "unat b mod 8 = 0" "a \<noteq> b" shows "sep8 a b"
proof -
  have *: "8 \<le> unat (x - y)" if xy: "unat x mod 8 = 0" "unat y mod 8 = 0" "x \<noteq> y" for x y :: u64
  proof -
    have "unat (x - y) mod 8 = 0"
    proof (cases "y \<le> x")
      case True
      then show ?thesis using xy by (simp add: unat_sub word_le_nat_alt mod_eq_0_iff_dvd dvd_diff_nat)
    next
      case False
      then have "unat (x - y) = 2 ^ 64 + unat x - unat y" by (simp add: unat_sub_if_size size_word.rep_eq word_le_nat_alt)
      moreover have "(8::nat) dvd 2 ^ 64 + unat x"
        using xy by (intro dvd_add) (auto simp: mod_eq_0_iff_dvd)
      ultimately show ?thesis using xy by (simp add: mod_eq_0_iff_dvd dvd_diff_nat)
    qed
    moreover have "unat (x - y) \<noteq> 0" using xy(3) by (simp add: unat_eq_zero)
    ultimately show ?thesis by presburger
  qed
  show ?thesis unfolding sep8_def using * assms by metis
qed

subsection \<open>memset\<close>

lemma memset_loop_apply:
  assumes "n \<le> 2 ^ 64"
  shows "memset_loop m d c i n a = (if i \<le> unat (a - d) \<and> unat (a - d) < n then c else m a)"
  using assms
proof (induction m d c i n rule: memset_loop.induct)
  case (1 m d c i n)
  show ?case
  proof (cases "i < n")
    case True
    then have "unat (of_nat i :: u64) = i"
      using "1.prems" by (simp add: unat_of_nat take_bit_nat_eq_self)
    then have "a = d + of_nat i \<longleftrightarrow> unat (a - d) = i"
      by (metis add_diff_cancel_left' diff_add_cancel add.commute word_unat_eq_iff)
    then have "(if Suc i \<le> unat (a - d) \<and> unat (a - d) < n then c else (m(d + of_nat i := c)) a)
        = (if i \<le> unat (a - d) \<and> unat (a - d) < n then c else m a)"
      using True by (cases "a = d + of_nat i") (auto simp: not_less_eq_eq [symmetric])
    then show ?thesis
      using True "1.IH" [OF True "1.prems"] by (simp only: memset_loop.simps [of m d c i n] if_True)
  next
    case False
    then show ?thesis by (auto simp: memset_loop.simps [of m d c i n])
  qed
qed

lemma memset_apply [mem_simps]:
  "memset m d c n a = (if unat (a - d) < unat n then ucast c else m a)"
proof -
  have "unat n \<le> 2 ^ 64" using unat_u32 [of n] by simp
  then show ?thesis by (simp add: memset_def memset_loop_apply)
qed

subsection \<open>memmove copies as if in parallel\<close>

lemma copied_apply: "copied m d s n a = (if unat (a - d) < n then m (s + (a - d)) else m a)"
  by (simp add: copied_def)

lemma move_up_copied:
  assumes "n \<le> 2 ^ 64" and "\<And>i j. i < j \<Longrightarrow> j < n \<Longrightarrow> s + of_nat j \<noteq> d + of_nat i"
  shows "move_up m d s n = copied m d s n"
  using assms
proof (induction m d s n rule: move_up.induct)
  case (1 m d s)
  show ?case by (simp add: copied_def)
next
  case (2 m d s n)
  have IH: "move_up (m(d := m s)) (d + 1) (s + 1) n = copied (m(d := m s)) (d + 1) (s + 1) n"
  proof (rule "2.IH")
    show "n \<le> 2 ^ 64" using "2.prems"(1) by simp
    show "s + 1 + of_nat j \<noteq> d + 1 + of_nat i" if "i < j" "j < n" for i j
      using "2.prems"(2) [of "Suc i" "Suc j"] that by (simp add: ac_simps)
  qed
  show ?case
  proof
    fix a
    show "move_up m d s (Suc n) a = copied m d s (Suc n) a"
    proof (cases "a = d")
      case True
      have "unat (- 1 :: u64) \<ge> n"
        using "2.prems"(1) by (simp add: unsigned_minus_1_eq_mask mask_eq_exp_minus_1)
      with True show ?thesis by (simp add: IH copied_apply)
    next
      case False
      then have x: "a - d \<noteq> 0" "0 < unat (a - d)" by (simp_all add: unat_gt_0)
      have "unat (a - (d + 1)) = unat (a - d) - 1" using unat_minus_one [OF x(1)] by (simp add: diff_diff_eq)
      with x(2) have e: "unat (a - (d + 1)) < n \<longleftrightarrow> unat (a - d) < Suc n" by linarith
      have e': "s + 1 + (a - (d + 1)) = s + (a - d)" by simp
      have "s + (a - d) \<noteq> d" if "unat (a - d) < Suc n"
        using "2.prems"(2) [of 0 "unat (a - d)"] that x(2) by simp
      then show ?thesis
        using False by (simp only: move_up.simps IH copied_apply e e') simp
    qed
  qed
qed

lemma move_down_copied:
  assumes "n \<le> 2 ^ 64" and "\<And>i j. i < j \<Longrightarrow> j < n \<Longrightarrow> s + of_nat i \<noteq> d + of_nat j"
  shows "move_down m (d + of_nat n) (s + of_nat n) n = copied m d s n"
  using assms
proof (induction n arbitrary: m)
  case 0
  show ?case by (simp add: copied_def)
next
  case (Suc n)
  let ?m = "m(d + of_nat n := m (s + of_nat n))"
  have n: "unat (of_nat n :: u64) = n"
    using Suc.prems(1) by (simp add: unat_of_nat take_bit_nat_eq_self)
  have "move_down m (d + of_nat (Suc n)) (s + of_nat (Suc n)) (Suc n)
      = move_down ?m (d + of_nat n) (s + of_nat n) n"
    by (simp add: add.assoc [symmetric] diff_add_eq [symmetric] add_diff_eq)
  also have "\<dots> = copied ?m d s n"
    using Suc.prems by (intro Suc.IH) auto
  also have "\<dots> = copied m d s (Suc n)"
  proof
    fix a
    have "a = d + of_nat n \<longleftrightarrow> unat (a - d) = n"
      using n by (metis add_diff_cancel_left' diff_add_cancel word_unat_eq_iff add.commute)
    moreover have "s + (a - d) \<noteq> d + of_nat n" if "unat (a - d) < n"
      using Suc.prems(2) [of "unat (a - d)" n] that by simp
    ultimately show "copied ?m d s n a = copied m d s (Suc n) a"
      by (auto simp: copied_apply less_Suc_eq)
  qed
  finally show ?case .
qed

lemma unat_ucast_u32 [simp]: "unat (ucast (n::u32) :: u64) = unat n"
  using unat_u32 [of n] by (simp add: unsigned_ucast_eq take_bit_nat_eq_self)

lemma memmove_copied:
  assumes "unat src + unat n < 2 ^ 64" and "unat dst + unat n \<le> 2 ^ 64"
  shows "memmove m dst src n = copied m dst src (unat n)"
proof -
  have n: "unat n \<le> 2 ^ 64" using unat_u32 [of n] by simp
  have ov: "src + ucast n > dst \<longleftrightarrow> unat dst < unat src + unat n"
    using unat_add_small [OF assms(1)] by (simp add: word_less_nat_alt)
  have as: "unat (src + of_nat i) = unat src + i" if "i < unat n" for i
    using that assms(1) by (intro unat_add_small) simp
  have ad: "unat (dst + of_nat i) = unat dst + i" if "i < unat n" for i
    using that assms(2) by (intro unat_add_small) simp
  consider "n = 0" | "n \<noteq> 0" "src < dst" "unat dst < unat src + unat n"
    | "n \<noteq> 0" "unat dst \<le> unat src \<or> unat src + unat n \<le> unat dst"
    by (metis not_less word_le_nat_alt)
  then show ?thesis
  proof cases
    case 1
    then show ?thesis by (simp add: memmove_def copied_def)
  next
    case 2
    have "src + of_nat i \<noteq> dst + of_nat j" if "i < j" "j < unat n" for i j
      using that 2(2) as [of i] ad [of j] by (auto simp: word_unat_eq_iff word_less_nat_alt)
    from move_down_copied [OF n this] 2 ov show ?thesis
      by (simp add: memmove_def)
  next
    case 3
    have "src + of_nat j \<noteq> dst + of_nat i" if "i < j" "j < unat n" for i j
      using that 3(2) as [of j] ad [of i] by (auto simp: word_unat_eq_iff)
    from move_up_copied [OF n this] 3 ov show ?thesis
      by (auto simp: memmove_def word_less_nat_alt)
  qed
qed

subsection \<open>Strings\<close>

lemma strlen_loop_cstr:
  assumes "cstr_at m a bs" "n \<le> length bs"
  shows "strlen_loop m a n = Some (length bs)"
  using assms(2)
proof (induction "length bs - n" arbitrary: n)
  case 0
  then show ?case using assms(1) by (simp add: strlen_loop.simps [of m a n] cstr_at_def)
next
  case (Suc k)
  then have "n < length bs" by simp
  then have "m (a + of_nat n) \<noteq> 0" using assms(1) by (simp add: cstr_at_def)
  then show ?case using Suc by (simp add: strlen_loop.simps [of m a n])
qed

lemma strlen_cstr: "cstr_at m a bs \<Longrightarrow> strlen m a = Some (length bs)"
  by (simp add: strlen_def strlen_loop_cstr)

text \<open>\<open>away m a k b\<close>: the \<open>k\<close> bytes at \<open>a\<close> do not include the address \<open>b\<close>.\<close>

definition away :: "u64 \<Rightarrow> nat \<Rightarrow> u64 \<Rightarrow> bool" where
  "away a k b \<longleftrightarrow> k \<le> unat (b - a)"

lemma away_Suc: "away a (Suc k) b \<Longrightarrow> b \<noteq> a \<and> away (a + 1) k b"
proof -
  assume h: "away a (Suc k) b"
  then have "b - a \<noteq> 0" by (auto simp: away_def)
  then show ?thesis
    using h unat_minus_one [of "b - a"] by (auto simp: away_def diff_diff_eq)
qed

lemma strncpy_pad_away: "away s n b \<Longrightarrow> strncpy_pad m s n b = m b"
  by (induction n arbitrary: m s) (auto dest: away_Suc)

lemma strncpy_pad_in:
  "n \<le> 2 ^ 64 \<Longrightarrow> i < n \<Longrightarrow> strncpy_pad m s n (s + of_nat i) = 0"
proof (induction n arbitrary: m s i)
  case (Suc n)
  show ?case
  proof (cases i)
    case 0
    have "away (s + 1) n s"
      using Suc.prems(1) by (simp add: away_def unsigned_minus_1_eq_mask mask_eq_exp_minus_1)
    with 0 show ?thesis by (simp add: strncpy_pad_away)
  next
    case (Suc k)
    then show ?thesis using Suc.IH [of k "m(s := 0)" "s + 1"] Suc.prems
      by (simp add: add.assoc del: fun_upd_apply)
  qed
qed simp

lemma strncpy_copy_away: "away s n b \<Longrightarrow> strncpy_copy m s t n b = m b"
  by (induction n arbitrary: m s t) (auto simp: Let_def strncpy_pad_away dest: away_Suc)

lemma safestrcpy_loop_away: "away s (Suc n) b \<Longrightarrow> safestrcpy_loop m s t n b = m b"
proof (induction n arbitrary: m s t)
  case 0
  then show ?case using away_Suc by fastforce
next
  case (Suc n)
  then have "b \<noteq> s" "away (s + 1) (Suc n) b" using away_Suc by blast+
  moreover from this(2) have "b \<noteq> s + 1" using away_Suc by blast
  ultimately show ?case using Suc.IH by (simp add: Let_def)
qed

lemma safestrcpy_loop_nul:
  "\<exists>i \<le> n. safestrcpy_loop m s t n (s + of_nat i) = 0"
proof (induction n arbitrary: m s t)
  case 0
  show ?case by simp
next
  case (Suc n)
  show ?case
  proof (cases "m t = 0")
    case True
    then show ?thesis by (intro exI [of _ 1]) (simp add: Let_def)
  next
    case False
    obtain i where "i \<le> n"
      "safestrcpy_loop (m(s := m t)) (s + 1) (t + 1) n (s + 1 + of_nat i) = 0" using Suc.IH by blast
    with False show ?thesis
      by (intro exI [of _ "Suc i"]) (simp add: Let_def add.assoc)
  qed
qed

lemma away_neq: "away a k b \<Longrightarrow> i < k \<Longrightarrow> b \<noteq> a + of_nat i"
proof
  assume h: "away a k b" "i < k" "b = a + of_nat i"
  then have "unat (of_nat i :: u64) \<ge> k" by (simp add: away_def)
  moreover have "unat (of_nat i :: u64) \<le> i" by (simp add: unat_of_nat)
  ultimately show False using h(2) by simp
qed

text \<open>
  Copying between separate buffers: the destination receives the string cut to its size,
  padded with zeros (\<^verbatim>\<open>strncpy\<close>) or terminated (\<^verbatim>\<open>safestrcpy\<close>).
\<close>

lemma strncpy_copy_bytes:
  assumes "n \<le> 2 ^ 64" "cstr_at m t bs" "\<And>i. i \<le> length bs \<Longrightarrow> away s n (t + of_nat i)" "k < n"
  shows "strncpy_copy m s t n (s + of_nat k) = (if k < length bs then bs ! k else 0)"
  using assms
proof (induction n arbitrary: m s t bs k)
  case (Suc n)
  have ts: "t \<noteq> s" using Suc.prems(3) [of 0] away_Suc by force
  have sa: "away (s + 1) n s"
    using Suc.prems(1) by (simp add: away_def unsigned_minus_1_eq_mask mask_eq_exp_minus_1)
  show ?case
  proof (cases bs)
    case Nil
    then have "m t = 0" using Suc.prems(2) by (simp add: cstr_at_def)
    moreover have "strncpy_pad (m(s := 0)) (s + 1) n (s + of_nat k) = 0"
    proof (cases k)
      case 0 then show ?thesis by (simp add: strncpy_pad_away sa)
    next
      case (Suc j) then show ?thesis
        using strncpy_pad_in [of n j "m(s := 0)" "s + 1"] Suc.prems by (simp add: add.assoc)
    qed
    ultimately show ?thesis using Nil by (simp add: Let_def)
  next
    case (Cons c cs)
    have c: "m t = c" "c \<noteq> 0" using Suc.prems(2) by (auto simp: cstr_at_def Cons dest: spec [of _ 0])
    have away': "away (s + 1) n (t + 1 + of_nat i)" "t + 1 + of_nat i \<noteq> s" if "i \<le> length cs" for i
      using Suc.prems(3) [of "Suc i"] that away_Suc [of s n "t + 1 + of_nat i"]
      by (auto simp: Cons add.assoc)
    have "cstr_at (m(s := c)) (t + 1) cs"
      using Suc.prems(2) away'(2) unfolding cstr_at_def Cons
      by (auto simp: add.assoc dest!: spec [of _ "Suc _"])
    then have IH: "strncpy_copy (m(s := c)) (s + 1) (t + 1) n (s + 1 + of_nat j)
        = (if j < length cs then cs ! j else 0)" if "j < n" for j
      using Suc.IH [of "m(s := c)" "t + 1" cs "s + 1" j] Suc.prems(1) that away'(1)
      by (simp del: fun_upd_apply)
    show ?thesis
    proof (cases k)
      case 0
      then show ?thesis using c by (simp add: Let_def Cons strncpy_copy_away sa)
    next
      case (Suc j)
      then show ?thesis using IH [of j] c Suc.prems(4) by (simp add: Let_def Cons add.assoc)
    qed
  qed
qed simp

lemma safestrcpy_loop_bytes:
  assumes "n < 2 ^ 64" "cstr_at m t bs" "\<And>i. i \<le> length bs \<Longrightarrow> away s (Suc n) (t + of_nat i)"
    and "k \<le> min n (length bs)"
  shows "safestrcpy_loop m s t n (s + of_nat k) = (if k < min n (length bs) then bs ! k else 0)"
  using assms
proof (induction n arbitrary: m s t bs k)
  case (Suc n)
  have sa: "away (s + 1) (Suc n) s"
    using Suc.prems(1) by (simp add: away_def unsigned_minus_1_eq_mask mask_eq_exp_minus_1)
  show ?case
  proof (cases bs)
    case Nil
    then have "m t = 0" using Suc.prems(2) by (simp add: cstr_at_def)
    then show ?thesis using Nil Suc.prems(4) by (simp add: Let_def)
  next
    case (Cons c cs)
    have c: "m t = c" "c \<noteq> 0" using Suc.prems(2) by (auto simp: cstr_at_def Cons dest: spec [of _ 0])
    have away': "away (s + 1) (Suc n) (t + 1 + of_nat i)" "t + 1 + of_nat i \<noteq> s"
      if "i \<le> length cs" for i
      using Suc.prems(3) [of "Suc i"] that away_Suc [of s "Suc n" "t + 1 + of_nat i"]
      by (auto simp: Cons add.assoc)
    have "cstr_at (m(s := c)) (t + 1) cs"
      using Suc.prems(2) away'(2) unfolding cstr_at_def Cons
      by (auto simp: add.assoc dest!: spec [of _ "Suc _"])
    then have IH: "safestrcpy_loop (m(s := c)) (s + 1) (t + 1) n (s + 1 + of_nat j)
        = (if j < min n (length cs) then cs ! j else 0)" if "j \<le> min n (length cs)" for j
      using Suc.IH [of "m(s := c)" "t + 1" cs "s + 1" j] Suc.prems(1) that away'(1)
      by (simp del: fun_upd_apply)
    show ?thesis
    proof (cases k)
      case 0
      then show ?thesis using c by (simp add: Let_def Cons safestrcpy_loop_away sa)
    next
      case (Suc j)
      then show ?thesis using IH [of j] c Suc.prems(4) by (simp add: Let_def Cons add.assoc)
    qed
  qed
qed simp

section \<open>Properties\<close>

text \<open>
  C9: \<^verbatim>\<open>memmove\<close> is a parallel copy for overlapping buffers in either direction: every byte
  of the destination gets the byte the source held before the call, and no other byte
  changes.  (Neither range may wrap around the address space.)
\<close>

theorem memmove_parallel_copy:
  assumes "unat src + unat n < 2 ^ 64" and "unat dst + unat n \<le> 2 ^ 64"
  shows "memmove m dst src n a = (if unat (a - dst) < unat n then m (src + (a - dst)) else m a)"
  by (simp add: memmove_copied [OF assms] copied_apply)

theorem memmove_parallel_copy_witness:
  "memmove (\<lambda>a. ucast a) 1001 1000 3 1002 = (\<lambda>a. ucast a) (1001 :: u64)"
  using memmove_parallel_copy [of 1000 3 1001 "\<lambda>a. ucast a" 1002] by simp

text \<open>
  C10: \<^verbatim>\<open>safestrcpy\<close> into a separate buffer of \<open>n > 0\<close> bytes leaves there the source string
  cut to \<open>n - 1\<close> characters, NUL-terminated, and writes nothing outside the buffer.
\<close>

theorem safestrcpy_terminated_copy:
  assumes "0 < sint n" and "cstr_at m t bs"
    and "\<forall>i \<le> length bs. away s (nat (sint n)) (t + of_nat i)"
  shows "cstr_at (safestrcpy m s t n) s (take (nat (sint n) - 1) bs)
     \<and> (\<forall>b. away s (nat (sint n)) b \<longrightarrow> safestrcpy m s t n b = m b)"
proof -
  define k where "k = nat (sint n) - 1"
  have n: "nat (sint n) = Suc k" using assms(1) by (simp add: k_def)
  have eq: "safestrcpy m s t n = safestrcpy_loop m s t k"
    using assms(1) by (simp add: safestrcpy_def k_def)
  have k: "k < 2 ^ 64" using sint_u32_bound(1) [of n] by (simp add: k_def)
  have bytes: "safestrcpy_loop m s t k (s + of_nat j) = (if j < min k (length bs) then bs ! j else 0)"
    if "j \<le> min k (length bs)" for j
    using safestrcpy_loop_bytes [OF k assms(2) _ that] assms(3) by (simp add: n)
  have nz: "bs ! j \<noteq> 0" if "j < length bs" for j
    using assms(2) that by (auto simp: cstr_at_def)
  have "cstr_at (safestrcpy m s t n) s (take (nat (sint n) - 1) bs)"
    using bytes nz by (auto simp: cstr_at_def eq n min_def)
  moreover have "safestrcpy m s t n b = m b" if "away s (nat (sint n)) b" for b
    using that by (simp add: eq n safestrcpy_loop_away)
  ultimately show ?thesis by blast
qed

theorem safestrcpy_terminated_copy_witness:
  "cstr_at (safestrcpy ((\<lambda>_. 0)(100 := 65, 101 := 66, 102 := 67)) 200 100 3) 200 [65, 66]"
proof -
  let ?m = "(\<lambda>_. 0)(100 := 65, 101 := 66, 102 := 67) :: mem"
  have c: "cstr_at ?m 100 [65, 66, 67]"
    by (simp add: cstr_at_def all_less_Suc)
  have a: "\<forall>i \<le> length [65, 66, 67 :: u8]. away 200 (nat (sint (3::u32))) (100 + of_nat i)"
    by (simp add: away_def all_le_Suc)
  show ?thesis
    using safestrcpy_terminated_copy [OF _ c a] by simp
qed

end
