(* ===== verification/Kalloc.thy ===== *)
theory Kalloc
  imports Cstring
begin

text \<open>
  The physical page allocator of \<^verbatim>\<open>kernel/kalloc.c\<close>: a free list threaded through the free
  pages themselves and, for copy-on-write, a reference count per physical page.  The state
  holds the physical memory, \<^verbatim>\<open>kmem.freelist\<close>, \<^verbatim>\<open>refs[]\<close> and the linker symbol \<^verbatim>\<open>end\<close>.
  Each function is one critical section of \<^verbatim>\<open>kmem.lock\<close>, so it is one step of the model.
\<close>

section \<open>Model\<close>

record kst =
  pm :: mem
  freelist :: u64
  refs :: "nat \<Rightarrow> u32"
  kend :: u64

definition pg_int :: "u64 \<Rightarrow> int" where
  \<comment> \<open>\<^verbatim>\<open>int idx = (uint64)pa / PGSIZE\<close>\<close>
  "pg_int pa = sint (ucast (pa div PGSIZE) :: u32)"

definition incRef :: "u64 \<Rightarrow> 'a kst_scheme \<Rightarrow> 'a kst_scheme res" where
  "incRef pa s =
     (let toInc = pg_int pa
      in if toInc < 0 \<or> toInc \<ge> int (unat (PHYSTOP div PGSIZE)) then Panic ''incRef: invalid pa''
         else Ok (s\<lparr>refs := (refs s)(nat toInc := refs s (nat toInc) + 1)\<rparr>))"

definition kfree :: "u64 \<Rightarrow> 'a kst_scheme \<Rightarrow> 'a kst_scheme res" where
  "kfree pa s =
     (if pa mod PGSIZE \<noteq> 0 \<or> pa < kend s \<or> pa \<ge> PHYSTOP then Panic ''kfree''
      else let idx = nat (pg_int pa)
           in if sint (refs s idx) \<le> 0 then Panic ''kfree: ref count is 0''
              else let s1 = s\<lparr>refs := (refs s)(idx := refs s idx - 1)\<rparr>
                   in if refs s1 idx = 0
                      then let m = memset (pm s1) pa 1 (ucast PGSIZE)
                           in Ok (s1\<lparr>pm := store64 m pa (freelist s1), freelist := pa\<rparr>)
                      else Ok s1)"

definition kalloc :: "'a kst_scheme \<Rightarrow> (u64 \<times> 'a kst_scheme) res" where
  "kalloc s =
     (let r = freelist s
      in if r \<noteq> 0
         then let s1 = s\<lparr>freelist := load64 (pm s) r\<rparr>; idx = nat (pg_int r)
              in if refs s1 idx \<noteq> 0 then Panic ''Allocating a page that is already allocated''
                 else let s2 = s1\<lparr>refs := (refs s1)(idx := 1)\<rparr>
                      in Ok (r, s2\<lparr>pm := memset (pm s2) r 5 (ucast PGSIZE)\<rparr>)
         else Ok (r, s))"

lemma kfree_Ok_bound: "kfree p s = Ok s' \<Longrightarrow> p < PHYSTOP"
  by (auto simp: kfree_def split: if_splits)

function freerange_loop :: "u64 \<Rightarrow> u64 \<Rightarrow> 'a kst_scheme \<Rightarrow> 'a kst_scheme res" where
  "freerange_loop p pa_end s =
     (if p + PGSIZE \<le> pa_end
      then let i = unat (p div PGSIZE); s1 = s\<lparr>refs := (refs s)(i := refs s i + 1)\<rparr>
           in bind_res (kfree p s1) (\<lambda>s2. freerange_loop (p + PGSIZE) pa_end s2)
      else Ok s)"
  by pat_completeness auto
termination
proof (relation "measure (\<lambda>(p, pa_end, s). unat PHYSTOP - unat p)", goal_cases)
  case (2 p pa_end s i s1 s2)
  then have "p < PHYSTOP" by (simp add: kfree_Ok_bound)
  then have "unat p < 2281701376"
    by (simp add: PHYSTOP_def KERNBASE_def word_less_nat_alt)
  moreover from this have "unat (p + PGSIZE) = unat p + 4096"
    by (simp add: PGSIZE_def unat_word_ariths)
  ultimately show ?case by (simp add: PHYSTOP_def KERNBASE_def)
qed simp

declare freerange_loop.simps [simp del]

definition freerange :: "u64 \<Rightarrow> u64 \<Rightarrow> 'a kst_scheme \<Rightarrow> 'a kst_scheme res" where
  "freerange pa_start pa_end s = freerange_loop (PGROUNDUP pa_start) pa_end s"

definition kinit :: "'a kst_scheme \<Rightarrow> 'a kst_scheme res" where
  "kinit s = freerange (kend s) PHYSTOP s"

section \<open>The invariant\<close>

text \<open>A page the allocator may hand out.\<close>

definition page_ok :: "'a kst_scheme \<Rightarrow> u64 \<Rightarrow> bool" where
  "page_ok s p \<longleftrightarrow> pg_aligned p \<and> kend s \<le> p \<and> p < PHYSTOP"

definition pgidx :: "u64 \<Rightarrow> nat" where "pgidx p = unat p div 4096"

text \<open>The list of pages reached from \<open>x\<close> through the link stored in each page's first word.\<close>

primrec chain :: "mem \<Rightarrow> u64 \<Rightarrow> u64 list \<Rightarrow> bool" where
  "chain m x [] \<longleftrightarrow> x = 0"
| "chain m x (p # ps) \<longleftrightarrow> x = p \<and> p \<noteq> 0 \<and> chain m (load64 m p) ps"

text \<open>
  \<open>kmem_inv D s fl\<close>: the free list is \<open>fl\<close>, without repetition, and of the pages in \<open>D\<close> exactly
  those on it have reference count 0.
\<close>

definition kmem_inv :: "u64 set \<Rightarrow> 'a kst_scheme \<Rightarrow> u64 list \<Rightarrow> bool" where
  "kmem_inv D s fl \<longleftrightarrow>
     0 < kend s \<and> chain (pm s) (freelist s) fl \<and> distinct fl \<and> set fl \<subseteq> D
     \<and> (\<forall>p \<in> D. page_ok s p \<and> 0 \<le> sint (refs s (pgidx p)) \<and> (refs s (pgidx p) = 0 \<longleftrightarrow> p \<in> set fl))"

section \<open>Facts\<close>

lemma PHYSTOP_nat: "unat PHYSTOP = 2281701376"
  by (simp add: PHYSTOP_def KERNBASE_def)

lemma pg_int_pgidx: "p < PHYSTOP \<Longrightarrow> pg_int p = int (pgidx p)"
proof -
  assume "p < PHYSTOP"
  then have "unat p < 2281701376" by (simp add: word_less_nat_alt PHYSTOP_nat)
  then have l: "unat p div 4096 < 557056" by simp
  have "unat (ucast (p div PGSIZE) :: u32) = unat p div 4096"
    using l by (simp add: unsigned_ucast_eq PGSIZE_def unat_div take_bit_nat_eq_self)
  then have "uint (ucast (p div PGSIZE) :: u32) = int (unat p div 4096)"
    by (metis uint_nat)
  then show ?thesis
    using l by (simp add: pg_int_def pgidx_def sint_uint signed_take_bit_int_eq_self)
qed

lemma pgidx_inj: "pg_aligned p \<Longrightarrow> pg_aligned q \<Longrightarrow> pgidx p = pgidx q \<longleftrightarrow> p = q"
  unfolding pg_aligned_unat pgidx_def word_unat_eq_iff by (metis div_mult_mod_eq)

lemma page_sep:
  assumes "pg_aligned p" "pg_aligned q" "p \<noteq> q" "i < 4096"
  shows "4096 \<le> unat (q + of_nat i - p)"
proof -
  obtain j k where j: "unat p = 4096 * j" and k: "unat q = 4096 * k"
    using assms(1,2) by (auto simp: pg_aligned_unat elim!: dvdE)
  have jk: "j \<noteq> k" using assms(3) j k by (auto simp: word_unat_eq_iff)
  have b: "4096 * j < 2 ^ 64" "4096 * k < 2 ^ 64" using unat_u64 [of p] unat_u64 [of q] j k by simp_all
  have qi: "unat (q + of_nat i) = 4096 * k + i"
    using b assms(4) k by (subst unat_add_small) auto
  show ?thesis
  proof (cases "j \<le> k")
    case True
    then have "p \<le> q + of_nat i" by (simp add: word_le_nat_alt qi j)
    then have "unat (q + of_nat i - p) = 4096 * k + i - 4096 * j" by (simp add: unat_sub qi j)
    then show ?thesis using True jk by (simp add: le_less) linarith
  next
    case False
    then have "\<not> unat p \<le> unat (q + of_nat i)" using assms(4) by (simp add: qi j)
    then have "unat (q + of_nat i - p) = 2 ^ 64 + (4096 * k + i) - 4096 * j"
      by (simp add: unat_sub_if_size size_word.rep_eq qi j)
    then show ?thesis using b by simp
  qed
qed

lemma load64_memset_other:
  assumes "pg_aligned p" "pg_aligned q" "p \<noteq> q"
  shows "load64 (memset m p c (ucast PGSIZE)) q = load64 m q"
proof (rule load64_cong)
  fix i :: nat assume "i < 8"
  then have "4096 \<le> unat (q + of_nat i - p)" using page_sep [OF assms, of i] by simp
  then show "memset m p c (ucast PGSIZE) (q + of_nat i) = m (q + of_nat i)"
    by (simp add: memset_apply PGSIZE_def)
qed

lemma chain_cong:
  "(\<And>q. q \<in> set ps \<Longrightarrow> load64 m q = load64 m' q) \<Longrightarrow> chain m x ps = chain m' x ps"
  by (induction ps arbitrary: x) auto

lemma pg_aligned_mod8: "pg_aligned p \<Longrightarrow> unat p mod 8 = 0"
  using mod_mod_cancel [of 8 4096 "unat p"] by (simp add: pg_aligned_unat)

lemma load64_freed_page:
  assumes "pg_aligned p" "pg_aligned q" "p \<noteq> q"
  shows "load64 (store64 (memset m p c (ucast PGSIZE)) p v) q = load64 m q"
  using assms by (simp add: load64_store64_other sep8_aligned pg_aligned_mod8 load64_memset_other)

lemma kmem_invD:
  assumes "kmem_inv D s fl" "p \<in> D"
  shows "pg_aligned p" "kend s \<le> p" "p < PHYSTOP" "p \<noteq> 0" "nat (pg_int p) = pgidx p"
    and "0 \<le> sint (refs s (pgidx p))" "refs s (pgidx p) = 0 \<longleftrightarrow> p \<in> set fl"
  using assms by (auto simp: kmem_inv_def page_ok_def pg_int_pgidx)

text \<open>\<open>kalloc\<close> takes the head of the free list, or reports that it is empty.\<close>

definition alloc_st :: "u64 \<Rightarrow> 'a kst_scheme \<Rightarrow> 'a kst_scheme" where
  "alloc_st p s = s\<lparr>freelist := load64 (pm s) p, refs := (refs s)(pgidx p := 1),
     pm := memset (pm s) p 5 (ucast PGSIZE)\<rparr>"

lemma kalloc_Nil: "kmem_inv D s [] \<Longrightarrow> kalloc s = Ok (0, s)"
  by (simp add: kmem_inv_def kalloc_def)

lemma kalloc_Cons:
  assumes inv: "kmem_inv D s (p # ps)"
  shows "kalloc s = Ok (p, alloc_st p s)" and "kmem_inv D (alloc_st p s) ps"
proof -
  have pD: "p \<in> D" and psD: "set ps \<subseteq> D" and ch: "freelist s = p" "chain (pm s) (load64 (pm s) p) ps"
    and d: "p \<notin> set ps" "distinct ps"
    using inv by (auto simp: kmem_inv_def)
  note P = kmem_invD [OF inv pD]
  show "kalloc s = Ok (p, alloc_st p s)"
    using P ch by (simp add: kalloc_def Let_def alloc_st_def)
  have "load64 (pm s) q = load64 (memset (pm s) p 5 (ucast PGSIZE)) q" if "q \<in> set ps" for q
    using that psD d P(1) kmem_invD(1) [OF inv, of q]
    by (subst load64_memset_other) auto
  then have "chain (memset (pm s) p 5 (ucast PGSIZE)) (load64 (pm s) p) ps"
    using ch(2) chain_cong [of ps "pm s"] by blast
  moreover have "0 \<le> sint (refs (alloc_st p s) (pgidx q)) \<and> (refs (alloc_st p s) (pgidx q) = 0 \<longleftrightarrow> q \<in> set ps)"
    if "q \<in> D" for q
    using that d kmem_invD [OF inv that] pgidx_inj [of q p] P(1)
    by (auto simp: alloc_st_def)
  ultimately show "kmem_inv D (alloc_st p s) ps"
    using inv psD d by (auto simp: kmem_inv_def alloc_st_def page_ok_def)
qed

text \<open>\<open>kfree\<close> drops one reference; the last one puts the page on the free list.\<close>

definition free_st :: "u64 \<Rightarrow> 'a kst_scheme \<Rightarrow> 'a kst_scheme" where
  "free_st p s =
     (let s1 = s\<lparr>refs := (refs s)(pgidx p := refs s (pgidx p) - 1)\<rparr>
      in if refs s (pgidx p) = 1
         then s1\<lparr>pm := store64 (memset (pm s) p 1 (ucast PGSIZE)) p (freelist s), freelist := p\<rparr>
         else s1)"

lemma sint_minus_1: "0 < sint (w::u32) \<Longrightarrow> sint (w - 1) = sint w - 1"
  using sint_u32_bound [of w] sint_sub32 [of w 1] by simp

lemma kfree_shared:
  assumes inv: "kmem_inv D s fl" and pD: "p \<in> D" and r: "p \<notin> set fl"
  shows "kfree p s = Ok (free_st p s)"
    and "kmem_inv D (free_st p s) (if refs s (pgidx p) = 1 then p # fl else fl)"
proof -
  note P = kmem_invD [OF inv pD]
  have nz: "refs s (pgidx p) \<noteq> 0" and pos: "0 < sint (refs s (pgidx p))"
    using P r by (auto simp: order.strict_iff_order signed_eq_0_iff)
  show "kfree p s = Ok (free_st p s)"
    using P pos pg_aligned_def [of p] by (auto simp: kfree_def free_st_def Let_def)
  have "0 \<le> sint (refs (free_st p s) (pgidx q)) \<and>
      (refs (free_st p s) (pgidx q) = 0 \<longleftrightarrow> q \<in> set (if refs s (pgidx p) = 1 then p # fl else fl))"
    if "q \<in> D" for q
    using that kmem_invD [OF inv that] pgidx_inj [of q p] P(1) pos r sint_minus_1 [OF pos]
    by (auto simp: free_st_def Let_def)
  moreover have "chain (store64 (memset (pm s) p 1 (ucast PGSIZE)) p (freelist s)) (freelist s) fl"
  proof -
    have "load64 (pm s) q = load64 (store64 (memset (pm s) p 1 (ucast PGSIZE)) p (freelist s)) q"
      if "q \<in> set fl" for q
      using that r P(1) inv kmem_invD(1) [OF inv, of q]
      by (subst load64_freed_page) (auto simp: kmem_inv_def)
    then show ?thesis using inv chain_cong [of fl "pm s"] by (simp add: kmem_inv_def)
  qed
  ultimately show "kmem_inv D (free_st p s) (if refs s (pgidx p) = 1 then p # fl else fl)"
    using inv pD r P by (auto simp: kmem_inv_def free_st_def Let_def page_ok_def load64_store64_same)
qed

lemma kfree_free_panics:
  "kmem_inv D s fl \<Longrightarrow> p \<in> set fl \<Longrightarrow> kfree p s = Panic ''kfree: ref count is 0''"
proof -
  assume inv: "kmem_inv D s fl" and p: "p \<in> set fl"
  then have "p \<in> D" by (auto simp: kmem_inv_def)
  from kmem_invD [OF inv this] p show ?thesis
    using pg_aligned_def [of p] by (auto simp: kfree_def)
qed

text \<open>\<open>incRef\<close> adds a reference to a page in use.\<close>

definition share_st :: "u64 \<Rightarrow> 'a kst_scheme \<Rightarrow> 'a kst_scheme" where
  "share_st p s = s\<lparr>refs := (refs s)(pgidx p := refs s (pgidx p) + 1)\<rparr>"

lemma incRef_page:
  assumes "p < PHYSTOP" shows "incRef p s = Ok (share_st p s)"
proof -
  have "unat p < 2281701376" using assms by (simp add: word_less_nat_alt PHYSTOP_nat)
  then have "pgidx p < 557056" by (simp add: pgidx_def)
  moreover have "unat (PHYSTOP div PGSIZE) = 557056"
    by (simp add: unat_div PHYSTOP_nat PGSIZE_def)
  ultimately show ?thesis
    by (simp add: incRef_def Let_def pg_int_pgidx [OF assms] share_st_def)
qed

lemma incRef_shared:
  assumes inv: "kmem_inv D s fl" and pD: "p \<in> D" and r: "p \<notin> set fl"
    and b: "sint (refs s (pgidx p)) < 2 ^ 31 - 1"
  shows "incRef p s = Ok (share_st p s)" and "kmem_inv D (share_st p s) fl"
proof -
  note P = kmem_invD [OF inv pD]
  show "incRef p s = Ok (share_st p s)" by (rule incRef_page [OF P(3)])
  have s1: "sint (refs s (pgidx p) + 1) = sint (refs s (pgidx p)) + 1"
    using P(6) b by (subst sint_add32) auto
  have "0 \<le> sint (refs (share_st p s) (pgidx q)) \<and> (refs (share_st p s) (pgidx q) = 0 \<longleftrightarrow> q \<in> set fl)"
    if "q \<in> D" for q
  proof (cases "q = p")
    case True
    have "sint (refs s (pgidx p) + 1) \<noteq> 0" using s1 P(6) by simp
    with True r s1 P(6) show ?thesis by (auto simp: share_st_def)
  next
    case False
    then show ?thesis using kmem_invD [OF inv that] pgidx_inj [of q p] P(1) by (auto simp: share_st_def)
  qed
  then show "kmem_inv D (share_st p s) fl"
    using inv by (auto simp: kmem_inv_def share_st_def page_ok_def)
qed

subsection \<open>Initialisation\<close>

lemma page_ok_multiple: "page_ok s q \<Longrightarrow> \<exists>j. unat q = 4096 * j"
  using mult_div_mod_eq [of 4096 "unat q"] by (auto simp: page_ok_def pg_aligned_unat intro!: exI [of _ "unat q div 4096"])

lemma freerange_loop_ok:
  assumes "kmem_inv {q. page_ok s q \<and> q < p} s fl" "set fl = {q. page_ok s q \<and> q < p}"
    and "\<And>q. page_ok s q \<Longrightarrow> p \<le> q \<Longrightarrow> refs s (pgidx q) = 0"
    and "pg_aligned p" "kend s \<le> p" "p \<le> PHYSTOP" "0 < kend s"
  shows "\<exists>s' fl'. freerange_loop p PHYSTOP s = Ok s' \<and> kend s' = kend s
     \<and> kmem_inv {q. page_ok s q} s' fl' \<and> set fl' = {q. page_ok s q}"
  using assms
proof (induction "unat PHYSTOP - unat p" arbitrary: p s fl rule: less_induct)
  case less
  show ?case
  proof (cases "p = PHYSTOP")
    case True
    then have "page_ok s q \<and> q < p \<longleftrightarrow> page_ok s q" for q by (auto simp: page_ok_def)
    moreover have "freerange_loop PHYSTOP PHYSTOP s = Ok s"
      by (subst freerange_loop.simps) (simp add: PHYSTOP_def KERNBASE_def PGSIZE_def)
    ultimately show ?thesis using less.prems(1,2) True by (metis (no_types, lifting) Collect_cong)
  next
    case False
    obtain k where k: "unat p = 4096 * k" using less.prems(4) by (auto simp: pg_aligned_unat elim!: dvdE)
    have lt: "unat p < 2281701376"
      using less.prems(6) False by (simp add: word_le_nat_alt word_unat_eq_iff PHYSTOP_nat)
    have up: "unat (p + PGSIZE) = unat p + 4096"
      using lt by (simp add: PGSIZE_def unat_word_ariths)
    have p1: "p + PGSIZE \<le> PHYSTOP" using lt k by (simp add: word_le_nat_alt up PHYSTOP_nat)
    have pl: "p < PHYSTOP" using lt by (simp add: word_less_nat_alt PHYSTOP_nat)
    have idx: "unat (p div PGSIZE) = pgidx p" by (simp add: unat_div PGSIZE_def pgidx_def)
    have pok: "page_ok s p" using less.prems pl by (simp add: page_ok_def)
    have r0: "refs s (pgidx p) = 0" by (rule less.prems(3) [OF pok]) simp
    define s1 where "s1 = s\<lparr>refs := (refs s)(pgidx p := refs s (pgidx p) + 1)\<rparr>"
    let ?D = "{q. page_ok s q \<and> q < p + PGSIZE}"
    have D: "?D = insert p {q. page_ok s q \<and> q < p}"
    proof -
      have "q < p + PGSIZE \<longleftrightarrow> q = p \<or> q < p" if "page_ok s q" for q
      proof -
        obtain j where j: "unat q = 4096 * j" using page_ok_multiple [OF \<open>page_ok s q\<close>] by blast
        show ?thesis by (auto simp: word_less_nat_alt word_unat_eq_iff up j k)
      qed
      then show ?thesis using pok by auto
    qed
    have inv1: "kmem_inv ?D s1 fl"
    proof -
      have "0 \<le> sint (refs s1 (pgidx q)) \<and> (refs s1 (pgidx q) = 0 \<longleftrightarrow> q \<in> set fl)" if "q \<in> ?D" for q
      proof (cases "q = p")
        case True then show ?thesis using less.prems(2) by (simp add: s1_def r0)
      next
        case False
        then have qd: "q \<in> {q. page_ok s q \<and> q < p}" using that D by blast
        show ?thesis using False kmem_invD [OF less.prems(1) qd] pgidx_inj [of q p] less.prems(4)
          by (auto simp: s1_def)
      qed
      moreover have "page_ok s1 q" if "q \<in> ?D" for q using that by (simp add: s1_def page_ok_def)
      moreover have "set fl \<subseteq> ?D" using less.prems(2) D by blast
      moreover have "0 < kend s1" "chain (pm s1) (freelist s1) fl" "distinct fl"
        using less.prems(1) by (simp_all add: kmem_inv_def s1_def)
      ultimately show ?thesis unfolding kmem_inv_def by blast
    qed
    have pfl: "p \<notin> set fl" using less.prems(2) by simp
    have one: "refs s1 (pgidx p) = 1" by (simp add: s1_def r0)
    define s2 where "s2 = free_st p s1"
    have pD: "p \<in> ?D" using D by blast
    have fr: "kfree p s1 = Ok s2" and inv2: "kmem_inv ?D s2 (p # fl)"
      using kfree_shared [OF inv1 pD pfl] by (simp_all add: one s2_def)
    have k2: "kend s2 = kend s" by (simp add: s2_def s1_def free_st_def Let_def)
    then have ok2: "page_ok s2 q = page_ok s q" for q by (simp add: page_ok_def)
    have "\<exists>s' fl'. freerange_loop (p + PGSIZE) PHYSTOP s2 = Ok s' \<and> kend s' = kend s2
       \<and> kmem_inv {q. page_ok s2 q} s' fl' \<and> set fl' = {q. page_ok s2 q}"
    proof (rule less.hyps)
      show "unat PHYSTOP - unat (p + PGSIZE) < unat PHYSTOP - unat p" using lt by (simp add: up PHYSTOP_nat)
      show "kmem_inv {q. page_ok s2 q \<and> q < p + PGSIZE} s2 (p # fl)" using inv2 by (simp add: ok2)
      show "set (p # fl) = {q. page_ok s2 q \<and> q < p + PGSIZE}" using less.prems(2) D by (simp add: ok2)
      show "refs s2 (pgidx q) = 0" if "page_ok s2 q" "p + PGSIZE \<le> q" for q
      proof -
        have "p \<le> q" "q \<noteq> p" using that(2) by (auto simp: word_le_nat_alt up)
        moreover have "page_ok s q" using that(1) by (simp only: ok2)
        moreover from this have "pg_aligned q" by (simp add: page_ok_def)
        ultimately show ?thesis
          using less.prems(3) [of q] pgidx_inj [of q p] less.prems(4)
          by (auto simp: s2_def s1_def free_st_def Let_def)
      qed
      show "pg_aligned (p + PGSIZE)" using k by (simp add: pg_aligned_unat up)
      show "kend s2 \<le> p + PGSIZE" using less.prems(5) by (simp add: k2 word_le_nat_alt up)
      show "p + PGSIZE \<le> PHYSTOP" by (rule p1)
      show "0 < kend s2" using less.prems(7) by (simp add: k2)
    qed
    then show ?thesis
      by (simp add: freerange_loop.simps [of p] p1 idx Let_def fr ok2 k2 flip: s1_def)
  qed
qed

lemma kinit_ok:
  assumes "0 < kend s" "kend s \<le> PHYSTOP" "freelist s = 0" "\<And>i. refs s i = 0"
  shows "\<exists>s' fl. kinit s = Ok s' \<and> kend s' = kend s
     \<and> kmem_inv {q. page_ok s q} s' fl \<and> set fl = {q. page_ok s q}"
proof -
  let ?p = "PGROUNDUP (kend s)"
  have k: "unat (kend s) \<le> 2281701376" using assms(2) by (simp add: word_le_nat_alt PHYSTOP_nat)
  then have up: "unat ?p = (unat (kend s) + 4095) div 4096 * 4096" by (simp add: unat_PGROUNDUP)
  have low: "?p \<le> q" if "page_ok s q" for q
  proof -
    obtain j where j: "unat q = 4096 * j" using page_ok_multiple [OF \<open>page_ok s q\<close>] by blast
    have "unat (kend s) \<le> 4096 * j" using that j by (simp add: page_ok_def word_le_nat_alt)
    then show ?thesis by (simp add: word_le_nat_alt up j) 
  qed
  then have empty: "{q. page_ok s q \<and> q < ?p} = {}" by (auto simp: not_less)
  have "\<exists>s' fl'. freerange_loop ?p PHYSTOP s = Ok s' \<and> kend s' = kend s
     \<and> kmem_inv {q. page_ok s q} s' fl' \<and> set fl' = {q. page_ok s q}"
  proof (rule freerange_loop_ok)
    show "kmem_inv {q. page_ok s q \<and> q < ?p} s []" using assms by (simp add: kmem_inv_def empty)
    show "set [] = {q. page_ok s q \<and> q < ?p}" by (simp add: empty)
    show "kend s \<le> ?p" by (simp add: word_le_nat_alt up)
    show "?p \<le> PHYSTOP" using k by (simp add: word_le_nat_alt up PHYSTOP_nat)
  qed (use assms in simp_all)
  then show ?thesis by (simp add: kinit_def freerange_def)
qed

section \<open>The allocator's contract\<close>

text \<open>
  What the rest of the kernel relies on: a reference count per page, an allocation that hands
  out a page nobody refers to, and operations that leave the bytes of every other page alone.
\<close>

locale page_allocator =
  fixes alloc :: "'s \<Rightarrow> (u64 \<times> 's) res"
    and free :: "u64 \<Rightarrow> 's \<Rightarrow> 's res"
    and share :: "u64 \<Rightarrow> 's \<Rightarrow> 's res"
    and invar :: "'s \<Rightarrow> bool"
    and pages :: "'s \<Rightarrow> u64 set"
    and cnt :: "'s \<Rightarrow> u64 \<Rightarrow> nat"
    and bytes :: "'s \<Rightarrow> mem"
  assumes zero_not_page: "invar s \<Longrightarrow> 0 \<notin> pages s"
    and alloc_none: "invar s \<Longrightarrow> (\<And>p. p \<in> pages s \<Longrightarrow> 0 < cnt s p) \<Longrightarrow> alloc s = Ok (0, s)"
    and alloc_some: "invar s \<Longrightarrow> q \<in> pages s \<Longrightarrow> cnt s q = 0 \<Longrightarrow>
      \<exists>p s'. alloc s = Ok (p, s') \<and> p \<in> pages s \<and> cnt s p = 0 \<and> invar s' \<and> pages s' = pages s
        \<and> cnt s' = (cnt s)(p := 1) \<and> (\<forall>a. PGROUNDDOWN a \<noteq> p \<longrightarrow> bytes s' a = bytes s a)
        \<and> (\<forall>a. PGROUNDDOWN a = p \<longrightarrow> bytes s' a = 5)"
    and free_used: "invar s \<Longrightarrow> p \<in> pages s \<Longrightarrow> 0 < cnt s p \<Longrightarrow>
      \<exists>s'. free p s = Ok s' \<and> invar s' \<and> pages s' = pages s \<and> cnt s' = (cnt s)(p := cnt s p - 1)
        \<and> (\<forall>a. PGROUNDDOWN a \<noteq> p \<or> 1 < cnt s p \<longrightarrow> bytes s' a = bytes s a)"
    and free_unused: "invar s \<Longrightarrow> p \<in> pages s \<Longrightarrow> cnt s p = 0 \<Longrightarrow> \<exists>msg. free p s = Panic msg"
    and share_used: "invar s \<Longrightarrow> p \<in> pages s \<Longrightarrow> 0 < cnt s p \<Longrightarrow> cnt s p < 2 ^ 31 - 1 \<Longrightarrow>
      \<exists>s'. share p s = Ok s' \<and> invar s' \<and> pages s' = pages s \<and> cnt s' = (cnt s)(p := cnt s p + 1)
        \<and> bytes s' = bytes s"
begin

lemma alloc_total: "invar s \<Longrightarrow> \<exists>p s'. alloc s = Ok (p, s') \<and> invar s'"
  using alloc_none [of s] alloc_some [of s] by (metis gr0I)

lemma alloc_zero_iff:
  assumes "invar s" "alloc s = Ok (p, s')"
  shows "p = 0 \<longleftrightarrow> (\<forall>q \<in> pages s. 0 < cnt s q)"
proof
  assume "p = 0"
  then show "\<forall>q \<in> pages s. 0 < cnt s q"
    using alloc_some [OF assms(1)] zero_not_page [OF assms(1)] assms(2) by (metis fst_conv gr0I res.inject(1))
next
  assume "\<forall>q \<in> pages s. 0 < cnt s q"
  then show "p = 0" using alloc_none [OF assms(1)] assms(2) by simp
qed

lemma alloc_page:
  assumes "invar s" "alloc s = Ok (p, s')" "p \<noteq> 0"
  shows "p \<in> pages s" "cnt s p = 0" "invar s'" "pages s' = pages s" "cnt s' = (cnt s)(p := 1)"
    and "PGROUNDDOWN a \<noteq> p \<Longrightarrow> bytes s' a = bytes s a" "PGROUNDDOWN a = p \<Longrightarrow> bytes s' a = 5"
proof -
  obtain q where "q \<in> pages s" "cnt s q = 0" using alloc_zero_iff [OF assms(1,2)] assms(3) by auto
  from alloc_some [OF assms(1) this] assms(2)
  show "p \<in> pages s" "cnt s p = 0" "invar s'" "pages s' = pages s" "cnt s' = (cnt s)(p := 1)"
    "PGROUNDDOWN a \<noteq> p \<Longrightarrow> bytes s' a = bytes s a" "PGROUNDDOWN a = p \<Longrightarrow> bytes s' a = 5" by auto
qed

lemma alloc_fail: "invar s \<Longrightarrow> alloc s = Ok (0, s') \<Longrightarrow> s' = s"
  using alloc_zero_iff [of s 0 s'] alloc_none [of s] by auto

lemma alloc_alloc_distinct:
  "invar s \<Longrightarrow> alloc s = Ok (p, s1) \<Longrightarrow> alloc s1 = Ok (q, s2) \<Longrightarrow> p \<noteq> 0 \<Longrightarrow> q \<noteq> p"
  using alloc_page [of s p s1] alloc_page [of s1 q s2] by auto

lemma alloc_free_restores:
  assumes "invar s" "alloc s = Ok (p, s1)" "p \<noteq> 0"
  shows "\<exists>s2. free p s1 = Ok s2 \<and> invar s2 \<and> cnt s2 = cnt s \<and> (\<exists>msg. free p s2 = Panic msg)"
proof -
  note A = alloc_page [OF assms]
  obtain s2 where s2: "free p s1 = Ok s2" "invar s2" "pages s2 = pages s1" "cnt s2 = (cnt s1)(p := cnt s1 p - 1)"
    using free_used [of s1 p] A by auto
  then have "cnt s2 = cnt s" using A by auto
  moreover have "\<exists>msg. free p s2 = Panic msg" using free_unused [of s2 p] s2 A by auto
  ultimately show ?thesis using s2 by blast
qed

lemma share_free_restores:
  assumes "invar s" "p \<in> pages s" "0 < cnt s p" "cnt s p < 2 ^ 31 - 1"
  shows "\<exists>s1 s2. share p s = Ok s1 \<and> free p s1 = Ok s2 \<and> invar s2 \<and> cnt s2 = cnt s \<and> bytes s2 = bytes s"
proof -
  obtain s1 where s1: "share p s = Ok s1" "invar s1" "pages s1 = pages s" "cnt s1 = (cnt s)(p := cnt s p + 1)"
    "bytes s1 = bytes s" using share_used [OF assms] by auto
  obtain s2 where s2: "free p s1 = Ok s2" "invar s2" "cnt s2 = (cnt s1)(p := cnt s1 p - 1)"
    "\<forall>a. PGROUNDDOWN a \<noteq> p \<or> 1 < cnt s1 p \<longrightarrow> bytes s2 a = bytes s1 a"
    using free_used [of s1 p] s1 assms by auto
  have "cnt s2 = cnt s" using s1(4) s2(3) by auto
  moreover have "bytes s2 = bytes s" using s1 s2(4) assms(3) by (auto simp: fun_eq_iff)
  ultimately show ?thesis using s1(1) s2(1,2) by blast
qed

end

definition kpages :: "'a kst_scheme \<Rightarrow> u64 set" where
  "kpages s = {p. page_ok s p}"

definition kcnt :: "'a kst_scheme \<Rightarrow> u64 \<Rightarrow> nat" where
  "kcnt s p = (if page_ok s p then nat (sint (refs s (pgidx p))) else 0)"

definition kinv :: "'a kst_scheme \<Rightarrow> bool" where
  "kinv s \<longleftrightarrow> (\<exists>fl. kmem_inv (kpages s) s fl)"

lemma page_bytes:
  assumes "pg_aligned p"
  shows "unat (a - p) < 4096 \<longleftrightarrow> PGROUNDDOWN a = p"
proof -
  obtain j where j: "unat p = 4096 * j" using assms mult_div_mod_eq [of 4096 "unat p"]
    by (auto simp: pg_aligned_unat intro: that [of "unat p div 4096"])
  have pl: "unat p < 2 ^ 64" "unat a < 2 ^ 64" by (rule unat_u64)+
  show ?thesis
  proof (cases "p \<le> a")
    case True
    then have "unat (a - p) = unat a - 4096 * j" by (simp add: unat_sub j)
    moreover have "4096 * j \<le> unat a" using True by (simp add: word_le_nat_alt j)
    ultimately show ?thesis
      by (auto simp: word_unat_eq_iff unat_PGROUNDDOWN j)
  next
    case False
    then have lt: "unat a < 4096 * j" by (simp add: word_le_nat_alt j)
    have "unat (a - p) = 2 ^ 64 + unat a - 4096 * j"
      using lt by (simp add: unat_sub_if_size size_word.rep_eq j)
    moreover have "4096 * j \<le> 2 ^ 64 - 4096"
    proof -
      have "4096 * j < 4096 * 2 ^ 52" using pl(1) j by simp
      then have "j \<le> 2 ^ 52 - 1" by simp
      then show ?thesis by simp
    qed
    ultimately have "\<not> unat (a - p) < 4096" by simp
    moreover have "PGROUNDDOWN a \<noteq> p" using lt by (auto simp: word_unat_eq_iff unat_PGROUNDDOWN j)
    ultimately show ?thesis by simp
  qed
qed

lemma memset_page_apply:
  "pg_aligned p \<Longrightarrow> memset m p c (ucast PGSIZE) a = (if PGROUNDDOWN a = p then ucast c else m a)"
  using page_bytes [of p a] by (simp add: memset_apply PGSIZE_def)

lemma store64_page_other:
  "pg_aligned p \<Longrightarrow> PGROUNDDOWN a \<noteq> p \<Longrightarrow> store64 m p v a = m a"
  using page_bytes [of p a] by (simp add: store64_apply)

lemma kend_alloc_st [simp]: "kend (alloc_st p s) = kend s" by (simp add: alloc_st_def)
lemma kend_free_st [simp]: "kend (free_st p s) = kend s" by (simp add: free_st_def Let_def)
lemma kend_share_st [simp]: "kend (share_st p s) = kend s" by (simp add: share_st_def)

lemma page_ok_kend: "kend s' = kend s \<Longrightarrow> page_ok s' = page_ok s"
  by (simp add: page_ok_def fun_eq_iff)

lemma kpages_kend: "kend s' = kend s \<Longrightarrow> kpages s' = kpages s"
  using page_ok_kend [of s' s] by (simp add: kpages_def)

lemma kcnt_upd:
  assumes "page_ok s p" "kend s' = kend s" "refs s' = (refs s)(pgidx p := v)" "nat (sint v) = n"
  shows "kcnt s' = (kcnt s)(p := n)"
proof
  fix q
  have "page_ok s q \<Longrightarrow> pgidx q = pgidx p \<longleftrightarrow> q = p" using assms(1) pgidx_inj by (auto simp: page_ok_def)
  then show "kcnt s' q = ((kcnt s)(p := n)) q"
    using assms by (auto simp: kcnt_def page_ok_kend [OF assms(2)])
qed

lemma kcnt_zero: "kmem_inv (kpages s) s fl \<Longrightarrow> p \<in> kpages s \<Longrightarrow> kcnt s p = 0 \<longleftrightarrow> p \<in> set fl"
  using kmem_invD(6,7) [of "kpages s" s fl p] by (auto simp: kcnt_def kpages_def signed_eq_0_iff)

lemma kmem_alloc_none:
  assumes "kinv s" "\<And>p. p \<in> kpages s \<Longrightarrow> 0 < kcnt s p" shows "kalloc s = Ok (0, s)"
proof -
  obtain fl where fl: "kmem_inv (kpages s) s fl" using assms(1) by (auto simp: kinv_def)
  then have "fl = []" using assms(2) kcnt_zero [OF fl]
    by (cases fl) (fastforce simp: kmem_inv_def)+
  then show ?thesis using fl kalloc_Nil by blast
qed

lemma kmem_alloc_some:
  assumes "kinv s" "q \<in> kpages s" "kcnt s q = 0"
  shows "\<exists>p s'. kalloc s = Ok (p, s') \<and> p \<in> kpages s \<and> kcnt s p = 0 \<and> kinv s' \<and> kpages s' = kpages s
    \<and> kcnt s' = (kcnt s)(p := 1) \<and> (\<forall>a. PGROUNDDOWN a \<noteq> p \<longrightarrow> pm s' a = pm s a)
    \<and> (\<forall>a. PGROUNDDOWN a = p \<longrightarrow> pm s' a = 5)"
proof -
  obtain fl where fl: "kmem_inv (kpages s) s fl" using assms(1) by (auto simp: kinv_def)
  have "q \<in> set fl" using kcnt_zero [OF fl assms(2)] assms(3) by simp
  then obtain p ps where ps: "fl = p # ps" by (cases fl) auto
  have p: "p \<in> kpages s" using fl ps by (auto simp: kmem_inv_def)
  note K = kalloc_Cons [OF fl [unfolded ps]]
  have pk: "kpages (alloc_st p s) = kpages s" by (rule kpages_kend) simp
  have "kinv (alloc_st p s)" using K(2) pk by (auto simp: kinv_def)
  moreover have "kcnt (alloc_st p s) = (kcnt s)(p := 1)"
    using p by (intro kcnt_upd [where v = 1]) (auto simp: kpages_def alloc_st_def)
  moreover have "pg_aligned p" using p by (simp add: kpages_def page_ok_def)
  moreover have "kcnt s p = 0" using kcnt_zero [OF fl p] ps by simp
  ultimately show ?thesis using K(1) pk p
    by (intro exI [of _ p] exI [of _ "alloc_st p s"]) (simp add: alloc_st_def memset_page_apply)
qed

lemma kmem_free_used:
  assumes "kinv s" "p \<in> kpages s" "0 < kcnt s p"
  shows "\<exists>s'. kfree p s = Ok s' \<and> kinv s' \<and> kpages s' = kpages s \<and> kcnt s' = (kcnt s)(p := kcnt s p - 1)
    \<and> (\<forall>a. PGROUNDDOWN a \<noteq> p \<or> 1 < kcnt s p \<longrightarrow> pm s' a = pm s a)"
proof -
  obtain fl where fl: "kmem_inv (kpages s) s fl" using assms(1) by (auto simp: kinv_def)
  have nf: "p \<notin> set fl" using kcnt_zero [OF fl assms(2)] assms(3) by simp
  note K = kfree_shared [OF fl assms(2) nf]
  have pk: "kpages (free_st p s) = kpages s" by (rule kpages_kend) simp
  have pok: "page_ok s p" using assms(2) by (simp add: kpages_def)
  have pos: "0 < sint (refs s (pgidx p))" using assms(3) pok by (simp add: kcnt_def)
  have "kinv (free_st p s)" using K(2) pk by (auto simp: kinv_def)
  moreover have "kcnt (free_st p s) = (kcnt s)(p := kcnt s p - 1)"
    using pok sint_minus_1 [OF pos]
    by (intro kcnt_upd [where v = "refs s (pgidx p) - 1"]) (auto simp: free_st_def Let_def kcnt_def nat_diff_distrib)
  moreover have "pg_aligned p" using pok by (simp add: page_ok_def)
  moreover have "1 < kcnt s p \<Longrightarrow> refs s (pgidx p) \<noteq> 1" using pok by (auto simp: kcnt_def)
  ultimately show ?thesis using K(1) pk
    by (intro exI [of _ "free_st p s"]) (auto simp: free_st_def Let_def memset_page_apply store64_page_other)
qed

lemma kmem_share_used:
  assumes "kinv s" "p \<in> kpages s" "0 < kcnt s p" "kcnt s p < 2 ^ 31 - 1"
  shows "\<exists>s'. incRef p s = Ok s' \<and> kinv s' \<and> kpages s' = kpages s \<and> kcnt s' = (kcnt s)(p := kcnt s p + 1)
    \<and> pm s' = pm s"
proof -
  obtain fl where fl: "kmem_inv (kpages s) s fl" using assms(1) by (auto simp: kinv_def)
  have nf: "p \<notin> set fl" using kcnt_zero [OF fl assms(2)] assms(3) by simp
  have pok: "page_ok s p" using assms(2) by (simp add: kpages_def)
  have b: "0 < sint (refs s (pgidx p))" "sint (refs s (pgidx p)) < 2 ^ 31 - 1"
    using assms(3,4) pok by (simp_all add: kcnt_def)
  note K = incRef_shared [OF fl assms(2) nf b(2)]
  have pk: "kpages (share_st p s) = kpages s" by (rule kpages_kend) simp
  have "sint (refs s (pgidx p) + 1) = sint (refs s (pgidx p)) + 1" using b by (subst sint_add32) auto
  then have "kcnt (share_st p s) = (kcnt s)(p := kcnt s p + 1)"
    using pok b(1) by (intro kcnt_upd [where v = "refs s (pgidx p) + 1"]) (auto simp: share_st_def kcnt_def)
  moreover have "kinv (share_st p s)" using K(2) pk by (auto simp: kinv_def)
  ultimately show ?thesis using K(1) pk by (simp add: share_st_def)
qed

interpretation kmem: page_allocator kalloc kfree incRef kinv kpages kcnt pm
proof (unfold_locales, goal_cases)
  case (1 s) then show ?case using kmem_invD(4) by (fastforce simp: kinv_def)
next
  case (2 s) then show ?case by (rule kmem_alloc_none)
next
  case (3 s q) then show ?case by (rule kmem_alloc_some)
next
  case (4 s p) then show ?case by (rule kmem_free_used)
next
  case (5 s p) then show ?case unfolding kinv_def using kcnt_zero kfree_free_panics by blast
next
  case (6 s p) then show ?case by (rule kmem_share_used)
qed

section \<open>Runs of the allocator\<close>

text \<open>
  The states the allocator goes through after \<open>kinit\<close> when its callers free and share only
  pages they hold a reference to, and share a page less often than an \<open>int\<close> can count.
\<close>

inductive kreach :: "'a kst_scheme \<Rightarrow> 'a kst_scheme \<Rightarrow> bool" for s0 where
  kr_init: "kinit s0 = Ok s \<Longrightarrow> kreach s0 s"
| kr_alloc: "kreach s0 s \<Longrightarrow> kalloc s = Ok (p, s') \<Longrightarrow> kreach s0 s'"
| kr_free: "kreach s0 s \<Longrightarrow> p \<in> kpages s \<Longrightarrow> 0 < kcnt s p \<Longrightarrow> kfree p s = Ok s' \<Longrightarrow> kreach s0 s'"
| kr_share: "kreach s0 s \<Longrightarrow> p \<in> kpages s \<Longrightarrow> 0 < kcnt s p \<Longrightarrow> kcnt s p < 2 ^ 31 - 1 \<Longrightarrow>
    incRef p s = Ok s' \<Longrightarrow> kreach s0 s'"

definition boot_ok :: "'a kst_scheme \<Rightarrow> bool" where
  "boot_ok s \<longleftrightarrow> 0 < kend s \<and> kend s \<le> PHYSTOP \<and> freelist s = 0 \<and> refs s = (\<lambda>_. 0)"

lemma kinit_kinv:
  assumes "boot_ok s"
  shows "\<exists>s'. kinit s = Ok s' \<and> kend s' = kend s \<and> kinv s' \<and> (\<forall>p. kcnt s' p = 0)"
proof -
  obtain s' fl where K: "kinit s = Ok s'" "kend s' = kend s"
    "kmem_inv {q. page_ok s q} s' fl" "set fl = {q. page_ok s q}"
    using kinit_ok [of s] assms by (auto simp: boot_ok_def)
  have pk: "kpages s' = {q. page_ok s q}" using kpages_kend [OF K(2)] by (simp add: kpages_def)
  have "kcnt s' p = 0" for p
  proof (cases "p \<in> kpages s'")
    case True then show ?thesis using kcnt_zero [of s' fl p] K(3,4) pk by simp
  next
    case False then show ?thesis by (simp add: kcnt_def kpages_def)
  qed
  moreover have "kinv s'" using K(3) pk by (auto simp: kinv_def)
  ultimately show ?thesis using K by blast
qed

lemma kreach_inv:
  assumes "kreach s0 s" "boot_ok s0"
  shows "kinv s \<and> kpages s = kpages s0"
  using assms
proof (induction rule: kreach.induct)
  case (kr_init s)
  then show ?case using kinit_kinv [of s0] kpages_kend [of s s0] by auto
next
  case (kr_alloc s p s')
  then show ?case
    using kmem.alloc_page [of s p s'] kmem.alloc_fail [of s s'] by (cases "p = 0") auto
next
  case (kr_free s p s')
  then show ?case using kmem.free_used [of s p] by auto
next
  case (kr_share s p s')
  then show ?case using kmem.share_used [of s p] by auto
qed

section \<open>Properties\<close>

text \<open>
  C5: \<open>kinit\<close> never panics: it puts every page between \<open>end\<close> and \<open>PHYSTOP\<close> on the free list,
  each once, with a reference count of 0.
\<close>

theorem kinit_frees_all_pages:
  assumes "boot_ok s"
  shows "\<exists>s' fl. kinit s = Ok s' \<and> chain (pm s') (freelist s') fl \<and> distinct fl
     \<and> set fl = {p. page_ok s p} \<and> (\<forall>p. page_ok s p \<longrightarrow> refs s' (pgidx p) = 0)"
proof -
  obtain s' fl where K: "kinit s = Ok s'" "kmem_inv {q. page_ok s q} s' fl" "set fl = {q. page_ok s q}"
    using kinit_ok [of s] assms by (auto simp: boot_ok_def)
  then have "\<forall>p. page_ok s p \<longrightarrow> refs s' (pgidx p) = 0" using kmem_invD(7) [OF K(2)] by blast
  with K show ?thesis unfolding kmem_inv_def by blast
qed

text \<open>A machine whose last page is the only one left by the kernel image.\<close>

definition one_page_boot :: kst where
  "one_page_boot = \<lparr>pm = (\<lambda>_. 0), freelist = 0, refs = (\<lambda>_. 0), kend = 0x87FFE123\<rparr>"

lemma one_page_boot_ok: "boot_ok one_page_boot"
  by (simp add: boot_ok_def one_page_boot_def PHYSTOP_def KERNBASE_def)

lemma one_page_pages: "page_ok one_page_boot p \<longleftrightarrow> p = 0x87FFF000"
proof -
  have "unat p = 2281697280" if p: "page_ok one_page_boot p"
  proof -
    obtain j where j: "unat p = 4096 * j" using page_ok_multiple [OF p] by blast
    have "2281693475 \<le> 4096 * j" "4096 * j < 2281701376"
      using p by (simp_all add: page_ok_def one_page_boot_def word_le_nat_alt word_less_nat_alt PHYSTOP_nat j)
    then have "j = 557055" by linarith
    then show ?thesis by (simp add: j)
  qed
  then show ?thesis
    by (auto simp: word_unat_eq_iff page_ok_def one_page_boot_def pg_aligned_unat word_le_nat_alt
        word_less_nat_alt PHYSTOP_nat)
qed

lemma distinct_set_singleton:
  assumes "set xs = {x}" "distinct xs" shows "xs = [x]"
proof (cases xs)
  case (Cons y ys)
  then have "set ys \<subseteq> {x}" "y = x" "x \<notin> set ys" using assms by auto
  then have "ys = []" by (cases ys) auto
  then show ?thesis using Cons \<open>y = x\<close> by simp
qed (use assms in simp)

theorem kinit_frees_all_pages_witness:
  "boot_ok one_page_boot \<and> (\<exists>s'. kinit one_page_boot = Ok s' \<and> freelist s' = 0x87FFF000
     \<and> load64 (pm s') 0x87FFF000 = 0)"
proof -
  obtain s' fl where K: "kinit one_page_boot = Ok s'" "chain (pm s') (freelist s') fl" "distinct fl"
    "set fl = {p. page_ok one_page_boot p}" using kinit_frees_all_pages [OF one_page_boot_ok] by blast
  have "set fl = {0x87FFF000}" using K(4) by (simp add: one_page_pages)
  then have "fl = [0x87FFF000]" using K(3) by (rule distinct_set_singleton)
  then show ?thesis using K(1,2) one_page_boot_ok by auto
qed

text \<open>
  C3: in every state reached after \<open>kinit\<close>, \<open>kalloc\<close> does not panic.  It returns 0 exactly when
  every page is referenced, and leaves the state alone then; otherwise it returns a page of
  the pool that has no reference, gives it one reference and changes no byte of another page.
\<close>

theorem kalloc_returns_unused_page:
  assumes "boot_ok s0" "kreach s0 s"
  shows "\<exists>p s'. kalloc s = Ok (p, s') \<and> (p = 0 \<longleftrightarrow> (\<forall>q \<in> kpages s. 0 < kcnt s q))
     \<and> (p = 0 \<longrightarrow> s' = s)
     \<and> (p \<noteq> 0 \<longrightarrow> page_ok s0 p \<and> kcnt s p = 0 \<and> kcnt s' = (kcnt s)(p := 1)
          \<and> (\<forall>a. PGROUNDDOWN a \<noteq> p \<longrightarrow> pm s' a = pm s a))"
proof -
  have inv: "kinv s" and pg: "kpages s = kpages s0" using kreach_inv [OF assms(2,1)] by auto
  obtain p s' where A: "kalloc s = Ok (p, s')" using kmem.alloc_total [OF inv] by blast
  show ?thesis
    using kmem.alloc_zero_iff [OF inv A] kmem.alloc_fail [OF inv] kmem.alloc_page [OF inv A] A pg
    by (intro exI [of _ p] exI [of _ s']) (auto simp: kpages_def)
qed

theorem kalloc_returns_unused_page_witness:
  "\<exists>s1 s2. kinit one_page_boot = Ok s1 \<and> kalloc s1 = Ok (0x87FFF000, s2) \<and> kalloc s2 = Ok (0, s2)"
proof -
  obtain s1 where s1: "kinit one_page_boot = Ok s1" "kend s1 = kend one_page_boot" "kinv s1"
    "\<forall>p. kcnt s1 p = 0" using kinit_kinv [OF one_page_boot_ok] by blast
  have r1: "kreach one_page_boot s1" using s1(1) by (rule kr_init)
  have pg: "kpages s1 = {0x87FFF000}"
    using kreach_inv [OF r1 one_page_boot_ok] by (simp add: kpages_def one_page_pages)
  obtain p s2 where A: "kalloc s1 = Ok (p, s2)" "p \<noteq> 0" "page_ok one_page_boot p" "kcnt s2 = (kcnt s1)(p := 1)"
    using kalloc_returns_unused_page [OF one_page_boot_ok r1] s1(4) pg by auto
  have p: "p = 0x87FFF000" using A(3) by (simp add: one_page_pages)
  have r2: "kreach one_page_boot s2" using r1 A(1) by (rule kr_alloc)
  have "kpages s2 = {0x87FFF000}"
    using kreach_inv [OF r2 one_page_boot_ok] by (simp add: kpages_def one_page_pages)
  then have "kalloc s2 = Ok (0, s2)"
    using kalloc_returns_unused_page [OF one_page_boot_ok r2] A(4) p by auto
  then show ?thesis using s1(1) A(1) p by blast
qed

primrec share_n :: "nat \<Rightarrow> u64 \<Rightarrow> 'a kst_scheme \<Rightarrow> 'a kst_scheme res" where
  "share_n 0 p s = Ok s"
| "share_n (Suc n) p s = bind_res (incRef p s) (share_n n p)"

primrec free_n :: "nat \<Rightarrow> u64 \<Rightarrow> 'a kst_scheme \<Rightarrow> 'a kst_scheme res" where
  "free_n 0 p s = Ok s"
| "free_n (Suc n) p s = bind_res (kfree p s) (free_n n p)"

lemma share_n_ok:
  "kinv s \<Longrightarrow> p \<in> kpages s \<Longrightarrow> 0 < kcnt s p \<Longrightarrow> kcnt s p + n < 2 ^ 31 \<Longrightarrow>
   \<exists>s'. share_n n p s = Ok s' \<and> kinv s' \<and> kpages s' = kpages s \<and> kcnt s' = (kcnt s)(p := kcnt s p + n)
     \<and> pm s' = pm s"
proof (induction n arbitrary: s)
  case (Suc n)
  obtain s1 where "incRef p s = Ok s1" "kinv s1" "kpages s1 = kpages s" "kcnt s1 = (kcnt s)(p := kcnt s p + 1)"
    "pm s1 = pm s" using kmem.share_used [of s p] Suc.prems by auto
  with Suc.IH [of s1] Suc.prems show ?case by (auto simp: fun_eq_iff)
qed simp

lemma free_n_ok:
  "kinv s \<Longrightarrow> p \<in> kpages s \<Longrightarrow> n < kcnt s p \<Longrightarrow>
   \<exists>s'. free_n n p s = Ok s' \<and> kinv s' \<and> kpages s' = kpages s \<and> kcnt s' = (kcnt s)(p := kcnt s p - n)
     \<and> pm s' = pm s"
proof (induction n arbitrary: s)
  case (Suc n)
  obtain s1 where s1: "kfree p s = Ok s1" "kinv s1" "kpages s1 = kpages s" "kcnt s1 = (kcnt s)(p := kcnt s p - 1)"
    "pm s1 = pm s" using kmem.free_used [of s p] Suc.prems by (auto simp: fun_eq_iff)
  have "n < kcnt s1 p" "p \<in> kpages s1" using s1 Suc.prems by auto
  then obtain s' where "free_n n p s1 = Ok s'" "kinv s'" "kpages s' = kpages s1"
    "kcnt s' = (kcnt s1)(p := kcnt s1 p - n)" "pm s' = pm s1"
    using Suc.IH [OF s1(2)] by blast
  with s1 show ?case by (auto simp: fun_eq_iff)
qed simp



end
