(* ===== verification/Vm.thy ===== *)
theory Vm
  imports Kalloc
begin

text \<open>
  The page-table code of \<^verbatim>\<open>kernel/vm.c\<close>.  Page tables live in the byte-addressed physical
  memory of the allocator's state and are read and written there; kernel pointers are
  physical addresses, since the kernel runs on a direct map.  A function that may panic
  returns a result; \<open>int\<close> results 0 and -1 are kept.  The \<open>int perm\<close> arguments are
  non-negative constants or ten-bit flags in every call, and are words here.
\<close>

type_synonym 'a st = "'a kst_scheme"

definition ld :: "'a st \<Rightarrow> u64 \<Rightarrow> u64" where "ld s a = load64 (pm s) a"
definition st :: "u64 \<Rightarrow> u64 \<Rightarrow> 'a st \<Rightarrow> 'a st" where "st a v s = s\<lparr>pm := store64 (pm s) a v\<rparr>"
definition zero_page :: "u64 \<Rightarrow> 'a st \<Rightarrow> 'a st" where
  "zero_page p s = s\<lparr>pm := memset (pm s) p 0 (ucast PGSIZE)\<rparr>"

definition has :: "u64 \<Rightarrow> u64 \<Rightarrow> bool" where "has e f \<longleftrightarrow> e AND f \<noteq> 0"

section \<open>Walking and mapping\<close>

primrec walk_loop :: "nat \<Rightarrow> u64 \<Rightarrow> u64 \<Rightarrow> bool \<Rightarrow> 'a st \<Rightarrow> (u64 \<times> 'a st) res" where
  "walk_loop 0 pagetable va alloc s = Ok (pagetable + 8 * PX 0 va, s)"
| "walk_loop (Suc l) pagetable va alloc s =
     (let pte = pagetable + 8 * PX (Suc l) va
      in if has (ld s pte) PTE_V then walk_loop l (PTE2PA (ld s pte)) va alloc s
         else if \<not> alloc then Ok (0, s)
         else bind_res (kalloc s) (\<lambda>(pg, s1).
           if pg = 0 then Ok (0, s1)
           else walk_loop l pg va alloc (st pte (PA2PTE pg OR PTE_V) (zero_page pg s1))))"

definition walk :: "u64 \<Rightarrow> u64 \<Rightarrow> bool \<Rightarrow> 'a st \<Rightarrow> (u64 \<times> 'a st) res" where
  "walk pagetable va alloc s =
     (if va \<ge> MAXVA then Panic ''walk'' else walk_loop 2 pagetable va alloc s)"

definition walkaddr :: "u64 \<Rightarrow> u64 \<Rightarrow> 'a st \<Rightarrow> u64 res" where
  "walkaddr pagetable va s =
     (if va \<ge> MAXVA then Ok 0
      else bind_res (walk pagetable va False s) (\<lambda>(pte, s).
        if pte = 0 then Ok 0
        else if \<not> has (ld s pte) PTE_V then Ok 0
        else if \<not> has (ld s pte) PTE_U then Ok 0
        else Ok (PTE2PA (ld s pte))))"

lemma walk_Ok_bound: "walk pt a al s = Ok r \<Longrightarrow> unat a < 274877906944"
  by (auto simp: walk_def word_le_nat_alt MAXVA_eq(2) split: if_splits)

lemma unat_next_page: "unat a < 274877906944 \<Longrightarrow> unat (a + PGSIZE) = unat a + 4096"
  by (simp add: PGSIZE_def unat_word_ariths)

function mappages_loop :: "u64 \<Rightarrow> u64 \<Rightarrow> u64 \<Rightarrow> u64 \<Rightarrow> u64 \<Rightarrow> 'a st \<Rightarrow> (int \<times> 'a st) res" where
  "mappages_loop pagetable a last1 pa perm s =
     bind_res (walk pagetable a True s) (\<lambda>(pte, s1).
       if pte = 0 then Ok (-1, s1)
       else if has (ld s1 pte) PTE_V then Panic ''mappages: remap''
       else let s2 = st pte (PA2PTE pa OR perm OR PTE_V) s1
            in if a = last1 then Ok (0, s2)
               else mappages_loop pagetable (a + PGSIZE) last1 (pa + PGSIZE) perm s2)"
  by pat_completeness auto
termination
  by (relation "measure (\<lambda>(pt, a, last1, pa, perm, s). 274877906944 - unat a)")
     (auto simp: unat_next_page dest!: walk_Ok_bound)

declare mappages_loop.simps [simp del]

definition mappages :: "u64 \<Rightarrow> u64 \<Rightarrow> u64 \<Rightarrow> u64 \<Rightarrow> u64 \<Rightarrow> 'a st \<Rightarrow> (int \<times> 'a st) res" where
  "mappages pagetable va size1 pa perm s =
     (if size1 = 0 then Panic ''mappages: size''
      else mappages_loop pagetable (PGROUNDDOWN va) (PGROUNDDOWN (va + size1 - 1)) pa perm s)"

definition kvmmap :: "u64 \<Rightarrow> u64 \<Rightarrow> u64 \<Rightarrow> u64 \<Rightarrow> u64 \<Rightarrow> 'a st \<Rightarrow> 'a st res" where
  "kvmmap kpgtbl va pa sz perm s =
     bind_res (mappages kpgtbl va sz pa perm s) (\<lambda>(r, s1).
       if r \<noteq> 0 then Panic ''kvmmap'' else Ok s1)"

text \<open>\<open>proc_mapstacks\<close> of \<^verbatim>\<open>kernel/proc.c\<close>, from process \<open>i\<close> on; \<open>n\<close> processes are left.\<close>

primrec proc_mapstacks_loop :: "nat \<Rightarrow> u64 \<Rightarrow> u64 \<Rightarrow> 'a st \<Rightarrow> 'a st res" where
  "proc_mapstacks_loop 0 i kpgtbl s = Ok s"
| "proc_mapstacks_loop (Suc n) i kpgtbl s =
     bind_res (kalloc s) (\<lambda>(pa, s1).
       if pa = 0 then Panic ''kalloc''
       else bind_res (kvmmap kpgtbl (KSTACK i) pa PGSIZE (PTE_R OR PTE_W) s1)
              (proc_mapstacks_loop n (i + 1) kpgtbl))"

definition proc_mapstacks :: "u64 \<Rightarrow> 'a st \<Rightarrow> 'a st res" where
  "proc_mapstacks kpgtbl s = proc_mapstacks_loop 64 0 kpgtbl s"

definition kvmmake :: "u64 \<Rightarrow> u64 \<Rightarrow> 'a st \<Rightarrow> (u64 \<times> 'a st) res" where
  "kvmmake etext trampoline s =
     bind_res (kalloc s) (\<lambda>(kpgtbl, s).
     bind_res (kvmmap kpgtbl UART0 UART0 PGSIZE (PTE_R OR PTE_W) (zero_page kpgtbl s)) (\<lambda>s.
     bind_res (kvmmap kpgtbl VIRTIO0 VIRTIO0 PGSIZE (PTE_R OR PTE_W) s) (\<lambda>s.
     bind_res (kvmmap kpgtbl PLIC PLIC 0x400000 (PTE_R OR PTE_W) s) (\<lambda>s.
     bind_res (kvmmap kpgtbl KERNBASE KERNBASE (etext - KERNBASE) (PTE_R OR PTE_X) s) (\<lambda>s.
     bind_res (kvmmap kpgtbl etext etext (PHYSTOP - etext) (PTE_R OR PTE_W) s) (\<lambda>s.
     bind_res (kvmmap kpgtbl TRAMPOLINE trampoline PGSIZE (PTE_R OR PTE_X) s) (\<lambda>s.
     bind_res (proc_mapstacks kpgtbl s) (\<lambda>s. Ok (kpgtbl, s)))))))))"

section \<open>User address spaces\<close>

function uvmunmap_loop :: "u64 \<Rightarrow> u64 \<Rightarrow> u64 \<Rightarrow> bool \<Rightarrow> 'a st \<Rightarrow> 'a st res" where
  "uvmunmap_loop pagetable a lim do_free s =
     (if a < lim
      then bind_res (walk pagetable a False s) (\<lambda>(pte, s1).
        if pte = 0 then Panic ''uvmunmap: walk''
        else if \<not> has (ld s1 pte) PTE_V then Panic ''uvmunmap: not mapped''
        else if PTE_FLAGS (ld s1 pte) = PTE_V then Panic ''uvmunmap: not a leaf''
        else bind_res (if do_free then kfree (PTE2PA (ld s1 pte)) s1 else Ok s1) (\<lambda>s2.
          uvmunmap_loop pagetable (a + PGSIZE) lim do_free (st pte 0 s2)))
      else Ok s)"
  by pat_completeness auto
termination
  by (relation "measure (\<lambda>(pt, a, lim, f, s). 274877906944 - unat a)")
     (auto simp: unat_next_page dest!: walk_Ok_bound)

declare uvmunmap_loop.simps [simp del]

definition uvmunmap :: "u64 \<Rightarrow> u64 \<Rightarrow> u64 \<Rightarrow> bool \<Rightarrow> 'a st \<Rightarrow> 'a st res" where
  "uvmunmap pagetable va npages do_free s =
     (if va mod PGSIZE \<noteq> 0 then Panic ''uvmunmap: not aligned''
      else uvmunmap_loop pagetable va (va + npages * PGSIZE) do_free s)"

definition uvmcreate :: "'a st \<Rightarrow> (u64 \<times> 'a st) res" where
  "uvmcreate s =
     bind_res (kalloc s) (\<lambda>(pagetable, s1).
       if pagetable = 0 then Ok (0, s1) else Ok (pagetable, zero_page pagetable s1))"

definition uvmfirst :: "u64 \<Rightarrow> u64 \<Rightarrow> u32 \<Rightarrow> 'a st \<Rightarrow> 'a st res" where
  "uvmfirst pagetable src sz s =
     (if ucast sz \<ge> PGSIZE then Panic ''uvmfirst: more than a page''
      else bind_res (kalloc s) (\<lambda>(page, s1).
        bind_res (mappages pagetable 0 PGSIZE page (PTE_W OR PTE_R OR PTE_X OR PTE_U) (zero_page page s1))
          (\<lambda>(_, s2). Ok (s2\<lparr>pm := memmove (pm s2) page src sz\<rparr>))))"

text \<open>\<open>npages\<close> is an \<open>int\<close>, widened back to 64 bits with its sign.\<close>

definition uvmdealloc :: "u64 \<Rightarrow> u64 \<Rightarrow> u64 \<Rightarrow> 'a st \<Rightarrow> (u64 \<times> 'a st) res" where
  "uvmdealloc pagetable oldsz newsz s =
     (if newsz \<ge> oldsz then Ok (oldsz, s)
      else if PGROUNDUP newsz < PGROUNDUP oldsz
        then let npages = ucast ((PGROUNDUP oldsz - PGROUNDUP newsz) div PGSIZE) :: u32
             in bind_res (uvmunmap pagetable (PGROUNDUP newsz) (scast npages) True s) (\<lambda>s1. Ok (newsz, s1))
        else Ok (newsz, s))"

lemma mappages_Ok_bound:
  assumes "mappages pt a n pa perm s = Ok r" shows "unat a < 274877906944"
proof -
  have "unat (PGROUNDDOWN a) < 274877906944"
    using assms by (subst (asm) mappages_def, subst (asm) mappages_loop.simps)
      (auto simp: res_simps split: if_splits dest: walk_Ok_bound)
  then show ?thesis by (simp add: unat_PGROUNDDOWN)
qed

function uvmalloc_loop :: "u64 \<Rightarrow> u64 \<Rightarrow> u64 \<Rightarrow> u64 \<Rightarrow> u64 \<Rightarrow> 'a st \<Rightarrow> (u64 \<times> 'a st) res" where
  "uvmalloc_loop pagetable a oldsz newsz xperm s =
     (if a < newsz
      then bind_res (kalloc s) (\<lambda>(page, s1).
        if page = 0
        then bind_res (uvmdealloc pagetable a oldsz s1) (\<lambda>(_, s2). Ok (0, s2))
        else bind_res (mappages pagetable a PGSIZE page (PTE_R OR PTE_U OR xperm) (zero_page page s1))
          (\<lambda>(r, s2).
            if r \<noteq> 0
            then bind_res (kfree page s2) (\<lambda>s3.
                 bind_res (uvmdealloc pagetable a oldsz s3) (\<lambda>(_, s4). Ok (0, s4)))
            else uvmalloc_loop pagetable (a + PGSIZE) oldsz newsz xperm s2))
      else Ok (newsz, s))"
  by pat_completeness auto
termination
  by (relation "measure (\<lambda>(pt, a, o', n, x, s). 274877906944 - unat a)")
     (auto simp: unat_next_page dest!: mappages_Ok_bound)

declare uvmalloc_loop.simps [simp del]

definition uvmalloc :: "u64 \<Rightarrow> u64 \<Rightarrow> u64 \<Rightarrow> u64 \<Rightarrow> 'a st \<Rightarrow> (u64 \<times> 'a st) res" where
  "uvmalloc pagetable oldsz newsz xperm s =
     (if newsz < oldsz then Ok (oldsz, s)
      else uvmalloc_loop pagetable (PGROUNDUP oldsz) (PGROUNDUP oldsz) newsz xperm s)"

text \<open>
  \<open>freewalk\<close> recurses through whatever the entries point to, so on a cyclic table it would not
  return: that is the value \<open>None\<close>.
\<close>

partial_function (option) freewalk_from :: "nat \<Rightarrow> u64 \<Rightarrow> 'a st \<Rightarrow> 'a st res option" where
  "freewalk_from i pagetable s =
     (if i < 512
      then let a = pagetable + 8 * of_nat i; pte = ld s a
           in if has pte PTE_V \<and> \<not> has pte (PTE_R OR PTE_W OR PTE_X)
              then Option.bind (freewalk_from 0 (PTE2PA pte) s) (\<lambda>r.
                     case r of Panic msg \<Rightarrow> Some (Panic msg)
                     | Ok s1 \<Rightarrow> freewalk_from (Suc i) pagetable (st a 0 s1))
              else if has pte PTE_V then Some (Panic ''freewalk: leaf'')
              else freewalk_from (Suc i) pagetable s
      else Some (kfree pagetable s))"

definition freewalk :: "u64 \<Rightarrow> 'a st \<Rightarrow> 'a st res option" where
  "freewalk pagetable s = freewalk_from 0 pagetable s"

text \<open>A call that does not return stops the machine like a panic.\<close>

definition returns :: "'b res option \<Rightarrow> 'b res" where
  "returns r = (case r of Some x \<Rightarrow> x | None \<Rightarrow> Panic ''does not return'')"

definition uvmfree :: "u64 \<Rightarrow> u64 \<Rightarrow> 'a st \<Rightarrow> 'a st res" where
  "uvmfree pagetable sz s =
     bind_res (if sz > 0 then uvmunmap pagetable 0 (PGROUNDUP sz div PGSIZE) True s else Ok s)
       (\<lambda>s1. returns (freewalk pagetable s1))"

function uvmcopy_loop :: "u64 \<Rightarrow> u64 \<Rightarrow> u64 \<Rightarrow> u64 \<Rightarrow> 'a st \<Rightarrow> (int \<times> 'a st) res" where
  "uvmcopy_loop old new i sz s =
     (if i < sz
      then bind_res (walk old i False s) (\<lambda>(pte, s).
        if pte = 0 then Panic ''uvmcopy: pte should exist''
        else if \<not> has (ld s pte) PTE_V then Panic ''uvmcopy: page not present''
        else let pa = PTE2PA (ld s pte);
                 s1 = st pte (ld s pte AND NOT PTE_W) s;
                 s2 = st pte (ld s1 pte OR PTE_COW) s1;
                 flags = PTE_FLAGS (ld s2 pte)
             in bind_res (mappages new i PGSIZE pa flags s2) (\<lambda>(r, s3).
                  if r \<noteq> 0
                  then bind_res (uvmunmap new 0 (i div PGSIZE) True s3) (\<lambda>s4. Ok (-1, s4))
                  else bind_res (incRef pa s3) (uvmcopy_loop old new (i + PGSIZE) sz)))
      else Ok (0, s))"
  by pat_completeness auto
termination
  by (relation "measure (\<lambda>(o', n, i, sz, s). 274877906944 - unat i)")
     (auto simp: unat_next_page dest!: walk_Ok_bound)

declare uvmcopy_loop.simps [simp del]

definition uvmcopy :: "u64 \<Rightarrow> u64 \<Rightarrow> u64 \<Rightarrow> 'a st \<Rightarrow> (int \<times> 'a st) res" where
  "uvmcopy old new sz s = uvmcopy_loop old new 0 sz s"

definition uvmclear :: "u64 \<Rightarrow> u64 \<Rightarrow> 'a st \<Rightarrow> 'a st res" where
  "uvmclear pagetable va s =
     bind_res (walk pagetable va False s) (\<lambda>(pte, s).
       if pte = 0 then Panic ''uvmclear'' else Ok (st pte (ld s pte AND NOT PTE_U) s))"

section \<open>Copying between kernel and user\<close>

text \<open>The bytes of the current page that a copy of \<open>len\<close> bytes at \<open>va\<close> touches.\<close>

definition chunk :: "u64 \<Rightarrow> u64 \<Rightarrow> u64" where
  "chunk va len = (let n = PGSIZE - (va - PGROUNDDOWN va) in if n > len then len else n)"

lemma unat_page_offset: "unat (va - PGROUNDDOWN va) = unat va mod 4096"
  by (simp add: unat_sub [OF PGROUNDDOWN_le] unat_PGROUNDDOWN minus_div_mult_eq_mod)

lemma unat_chunk: "unat (chunk va len) = min (4096 - unat va mod 4096) (unat len)"
proof -
  have le: "va - PGROUNDDOWN va \<le> PGSIZE"
    by (simp add: word_le_nat_alt unat_page_offset PGSIZE_def less_imp_le)
  have "unat (PGSIZE - (va - PGROUNDDOWN va)) = 4096 - unat va mod 4096"
    by (simp add: unat_sub [OF le] unat_page_offset) (simp add: PGSIZE_def)
  then show ?thesis by (auto simp: chunk_def Let_def word_less_nat_alt)
qed

lemma chunk_progress: "len \<noteq> 0 \<Longrightarrow> unat (len - chunk va len) < unat len"
proof -
  assume "len \<noteq> 0"
  then have "0 < unat len" by (simp add: unat_gt_0)
  moreover have "chunk va len \<le> len" by (simp add: word_le_nat_alt unat_chunk)
  ultimately show ?thesis by (simp add: unat_sub unat_chunk)
qed

function copyout_loop :: "u64 \<Rightarrow> u64 \<Rightarrow> u64 \<Rightarrow> u64 \<Rightarrow> 'a st \<Rightarrow> (int \<times> 'a st) res" where
  "copyout_loop pagetable dstva src len s =
     (if len \<noteq> 0
      then let va0 = PGROUNDDOWN dstva
           in bind_res (walkaddr pagetable va0 s) (\<lambda>pa0.
                if pa0 = 0 then Ok (-1, s)
                else let n = chunk dstva len
                     in copyout_loop pagetable (va0 + PGSIZE) (src + n) (len - n)
                          (s\<lparr>pm := memmove (pm s) (pa0 + (dstva - va0)) src (ucast n)\<rparr>))
      else Ok (0, s))"
  by pat_completeness auto
termination
  by (relation "measure (\<lambda>(pt, d, src, len, s). unat len)") (auto simp: chunk_progress)

declare copyout_loop.simps [simp del]

definition copyout :: "u64 \<Rightarrow> u64 \<Rightarrow> u64 \<Rightarrow> u64 \<Rightarrow> 'a st \<Rightarrow> (int \<times> 'a st) res" where
  "copyout pagetable dstva src len s =
     (let va0 = PGROUNDDOWN dstva
      in if va0 \<ge> MAXVA then Ok (-1, s)
         else if va0 = 0 then Ok (-1, s)
         else bind_res (walk pagetable va0 False s) (\<lambda>(pte, s).
           if pte = 0 then Ok (-1, s)
           else if \<not> has (ld s pte) PTE_W \<and> \<not> has (ld s pte) PTE_COW then Ok (-1, s)
           else if \<not> has (ld s pte) PTE_U \<or> \<not> has (ld s pte) PTE_V then Ok (-1, s)
           else bind_res (kalloc s) (\<lambda>(new, s).
             if new = 0 then Ok (-1, s)
             else let s1 = s\<lparr>pm := memmove (pm s) new (PTE2PA (ld s pte)) (ucast PGSIZE)\<rparr>;
                      old = PTE2PA (ld s1 pte);
                      s2 = st pte (PA2PTE new OR PTE_V OR PTE_R OR PTE_W OR PTE_U OR PTE_X) s1;
                      s3 = st pte (ld s2 pte AND NOT PTE_COW) s2
                  in bind_res (kfree old s3) (copyout_loop pagetable dstva src len))))"

function copyin_loop :: "u64 \<Rightarrow> u64 \<Rightarrow> u64 \<Rightarrow> u64 \<Rightarrow> 'a st \<Rightarrow> (int \<times> 'a st) res" where
  "copyin_loop pagetable dst srcva len s =
     (if len \<noteq> 0
      then let va0 = PGROUNDDOWN srcva
           in bind_res (walkaddr pagetable va0 s) (\<lambda>pa0.
                if pa0 = 0 then Ok (-1, s)
                else let n = chunk srcva len
                     in copyin_loop pagetable (dst + n) (va0 + PGSIZE) (len - n)
                          (s\<lparr>pm := memmove (pm s) dst (pa0 + (srcva - va0)) (ucast n)\<rparr>))
      else Ok (0, s))"
  by pat_completeness auto
termination
  by (relation "measure (\<lambda>(pt, d, src, len, s). unat len)") (auto simp: chunk_progress)

declare copyin_loop.simps [simp del]

definition copyin :: "u64 \<Rightarrow> u64 \<Rightarrow> u64 \<Rightarrow> u64 \<Rightarrow> 'a st \<Rightarrow> (int \<times> 'a st) res" where
  "copyin pagetable dst srcva len s = copyin_loop pagetable dst srcva len s"

text \<open>The inner loop of \<open>copyinstr\<close>: the flag is \<open>got_null\<close>, the word what is left of \<open>max\<close>.\<close>

primrec copyinstr_page :: "nat \<Rightarrow> u64 \<Rightarrow> u64 \<Rightarrow> u64 \<Rightarrow> 'a st \<Rightarrow> bool \<times> u64 \<times> u64 \<times> 'a st" where
  "copyinstr_page 0 p dst mx s = (False, dst, mx, s)"
| "copyinstr_page (Suc n) p dst mx s =
     (if pm s p = 0 then (True, dst, mx, s\<lparr>pm := (pm s)(dst := 0)\<rparr>)
      else copyinstr_page n (p + 1) (dst + 1) (mx - 1) (s\<lparr>pm := (pm s)(dst := pm s p)\<rparr>))"

lemma copyinstr_page_max:
  "copyinstr_page n p dst mx s = (False, d', mx', s') \<Longrightarrow> mx' = mx - of_nat n"
proof (induction n arbitrary: p dst mx s)
  case (Suc n)
  then show ?case by (auto simp: diff_diff_eq split: if_splits dest!: Suc.IH)
qed simp

function copyinstr_loop :: "u64 \<Rightarrow> u64 \<Rightarrow> u64 \<Rightarrow> u64 \<Rightarrow> 'a st \<Rightarrow> (int \<times> 'a st) res" where
  "copyinstr_loop pagetable dst srcva mx s =
     (if mx \<noteq> 0
      then let va0 = PGROUNDDOWN srcva
           in bind_res (walkaddr pagetable va0 s) (\<lambda>pa0.
                if pa0 = 0 then Ok (-1, s)
                else case copyinstr_page (unat (chunk srcva mx)) (pa0 + (srcva - va0)) dst mx s of
                       (got_null, dst', mx', s') \<Rightarrow>
                         if got_null then Ok (0, s')
                         else copyinstr_loop pagetable dst' (va0 + PGSIZE) mx' s')
      else Ok (-1, s))"
  by pat_completeness auto
termination
  by (relation "measure (\<lambda>(pt, d, src, mx, s). unat mx)")
     (auto simp: chunk_progress dest!: sym [THEN copyinstr_page_max] copyinstr_page_max)

declare copyinstr_loop.simps [simp del]

definition copyinstr :: "u64 \<Rightarrow> u64 \<Rightarrow> u64 \<Rightarrow> u64 \<Rightarrow> 'a st \<Rightarrow> (int \<times> 'a st) res" where
  "copyinstr pagetable dst srcva mx s = copyinstr_loop pagetable dst srcva mx s"

end
