(* ===== verification/Proc.thy ===== *)
theory Proc
  imports Vm
begin

text \<open>
  Processes: \<^verbatim>\<open>kernel/proc.h\<close> and the process-table operations of \<^verbatim>\<open>kernel/proc.c\<close>.  The kernel
  state extends the allocator's with the process table; a process is its index in the table.
  A critical section under \<open>p->lock\<close> or \<open>wait_lock\<close> is one step.  A call to \<open>sleep\<close> splits a
  function: the part up to the switch away and the part after the wakeup are separate steps.
  File, inode and log operations that \<open>fork\<close>, \<open>exit\<close> and \<open>userinit\<close> call belong to later theories
  and are arguments here.
\<close>

section \<open>Data\<close>

datatype procstate = UNUSED | USED | SLEEPING | RUNNABLE | RUNNING | ZOMBIE

text \<open>
  What a process sleeps on.  The code uses the address of a kernel object as the channel; here a
  channel names the object: a process (in \<open>wait\<close>), the clock, the sleep lock of a buffer or an inode, the log,
  either end of the pipe in a page, the console, the UART's output buffer, the disk's free
  descriptors, or a buffer being transferred.
\<close>

datatype chan = NoChan | ProcChan nat | TicksChan | BufLock nat | InodeLock nat | LogChan
  | PipeRead u64 | PipeWrite u64 | ConsChan | UartChan | DiskFree | BufIO nat

record kcontext =
  ra :: u64
  sp :: u64
  sregs :: "nat \<Rightarrow> u64"

record proc =
  pstate :: procstate
  chan :: chan
  killed_flag :: u32
  xstate :: u32
  pid :: u32
  createTime :: u32
  priority :: u32
  timesScheduled :: u32
  niceness :: u32
  tickets :: u32
  lastSlept :: u32
  lastScheduled :: u32
  timeSlept :: u32
  timeRun :: u32
  tracemask :: u32
  alarmFreq :: u32
  alarmHandler :: u64
  lastAlarm :: u32
  alarmRunning :: u32
  parent :: "nat option"
  kstack :: u64
  sz :: u64
  pagetable :: u64
  trapframe :: u64
  backupTrapFrame :: u64
  ctx :: kcontext
  ofile :: "nat \<Rightarrow> nat option"
  cwd :: "nat option"
  name :: "u8 list"
  rtime :: u32
  ctime :: u32
  etime :: u32
  queue :: u32
  entryTime :: u32
  timeRanInQueue :: u32

text \<open>
  The kernel's globals.  \<open>next\<close> is the state of \<open>rand\<close>; the last four are addresses fixed by
  the linker: the trampoline page, \<open>forkret\<close>, the initial program and the field \<open>xstate\<close> of each
  process, which \<open>wait\<close> copies out of kernel memory.
\<close>

record pst = kst +
  procs :: "nat \<Rightarrow> proc"
  initproc :: "nat option"
  nextpid :: u32
  ticks :: u32
  nxt :: u64
  trampoline :: u64
  forkret_addr :: u64
  initcode :: u64
  xstate_at :: "nat \<Rightarrow> u64"

type_synonym 'a ps = "'a pst_scheme"

definition NPROC :: nat where "NPROC = 64"
definition NOFILE :: nat where "NOFILE = 16"

definition pupd :: "nat \<Rightarrow> (proc \<Rightarrow> proc) \<Rightarrow> 'a ps \<Rightarrow> 'a ps" where
  "pupd p f s = s\<lparr>procs := (procs s)(p := f (procs s p))\<rparr>"

text \<open>Dereferencing a null pointer faults in the kernel, and \<open>kerneltrap\<close> panics.\<close>

definition null_deref :: "'b res" where
  "null_deref = Panic ''kerneltrap: Unknown interrupt''"

section \<open>Creation and destruction\<close>

definition procinit :: "'a ps \<Rightarrow> 'a ps" where
  "procinit s = s\<lparr>procs := (\<lambda>i. if i < NPROC then (procs s i)\<lparr>pstate := UNUSED, kstack := KSTACK (of_nat i)\<rparr>
                                else procs s i)\<rparr>"

definition allocpid :: "'a ps \<Rightarrow> u32 \<times> 'a ps" where
  "allocpid s = (nextpid s, s\<lparr>nextpid := nextpid s + 1\<rparr>)"

definition proc_pagetable :: "nat \<Rightarrow> 'a ps \<Rightarrow> (u64 \<times> 'a ps) res" where
  "proc_pagetable p s =
     bind_res (uvmcreate s) (\<lambda>(pt, s).
       if pt = 0 then Ok (0, s)
       else bind_res (mappages pt TRAMPOLINE PGSIZE (trampoline s) (PTE_R OR PTE_X) s) (\<lambda>(r, s).
         if r < 0 then bind_res (uvmfree pt 0 s) (\<lambda>s. Ok (0, s))
         else bind_res (mappages pt TRAPFRAME PGSIZE (trapframe (procs s p)) (PTE_R OR PTE_W) s) (\<lambda>(r, s).
           if r < 0 then bind_res (uvmunmap pt TRAMPOLINE 1 False s) (\<lambda>s.
                         bind_res (uvmfree pt 0 s) (\<lambda>s. Ok (0, s)))
           else Ok (pt, s))))"

definition proc_freepagetable :: "u64 \<Rightarrow> u64 \<Rightarrow> 'a ps \<Rightarrow> 'a ps res" where
  "proc_freepagetable pt size1 s =
     bind_res (uvmunmap pt TRAMPOLINE 1 False s) (\<lambda>s.
     bind_res (uvmunmap pt TRAPFRAME 1 False s) (uvmfree pt size1))"

definition freeproc :: "nat \<Rightarrow> 'a ps \<Rightarrow> 'a ps res" where
  "freeproc p s =
     bind_res (if trapframe (procs s p) \<noteq> 0 then kfree (trapframe (procs s p)) s else Ok s) (\<lambda>s.
     let s = pupd p (trapframe_update (\<lambda>_. 0)) s
     in bind_res (if pagetable (procs s p) \<noteq> 0
                  then proc_freepagetable (pagetable (procs s p)) (sz (procs s p)) s else Ok s) (\<lambda>s.
        Ok (pupd p (\<lambda>x. x\<lparr>pagetable := 0, sz := 0, pid := 0, parent := None, name := [], chan := NoChan,
                          killed_flag := 0, xstate := 0, pstate := UNUSED\<rparr>) s)))"

text \<open>The fields \<open>allocproc\<close> sets before and after the allocations.\<close>

definition proc_claim :: "u32 \<Rightarrow> u32 \<Rightarrow> proc \<Rightarrow> proc" where
  "proc_claim newpid now x = x\<lparr>pid := newpid, pstate := USED, createTime := now, priority := 60, timesScheduled := 0,
     tracemask := 0, tickets := 1, niceness := 5, lastSlept := -1, lastScheduled := 0, timeRun := 0,
     timeRanInQueue := 0, timeSlept := 0, alarmFreq := 0, lastAlarm := 0, alarmRunning := 0\<rparr>"

definition proc_ready :: "u64 \<Rightarrow> u32 \<Rightarrow> proc \<Rightarrow> proc" where
  "proc_ready fret now x = x\<lparr>ctx := \<lparr>ra = fret, sp = kstack x + PGSIZE, sregs = (\<lambda>_. 0)\<rparr>, rtime := 0, etime := 0,
     ctime := now, entryTime := now, queue := 0, timeRanInQueue := 0\<rparr>"

definition allocproc :: "'a ps \<Rightarrow> (nat option \<times> 'a ps) res" where
  "allocproc s =
     (case find (\<lambda>p. pstate (procs s p) = UNUSED) [0..<NPROC] of
        None \<Rightarrow> Ok (None, s)
      | Some p \<Rightarrow>
          let (newpid, s) = allocpid s; s = pupd p (proc_claim newpid (ticks s)) s
          in bind_res (kalloc s) (\<lambda>(tf, s).
             let s = pupd p (trapframe_update (\<lambda>_. tf)) s
             in if tf = 0 then bind_res (freeproc p s) (\<lambda>s. Ok (None, s))
                else bind_res (proc_pagetable p s) (\<lambda>(pt, s).
                  let s = pupd p (pagetable_update (\<lambda>_. pt)) s
                  in if pt = 0 then bind_res (freeproc p s) (\<lambda>s. Ok (None, s))
                     else Ok (Some p, pupd p (proc_ready (forkret_addr s) (ticks s)) s))))"

definition getProc :: "u32 \<Rightarrow> 'a ps \<Rightarrow> nat option" where
  "getProc wanted s = find (\<lambda>p. pid (procs s p) = wanted) [0..<NPROC]"

text \<open>Offsets in \<open>struct trapframe\<close>, and its size.\<close>

definition TF_EPC :: u64 where "TF_EPC = 24"
definition TF_SP :: u64 where "TF_SP = 48"
definition TF_A0 :: u64 where "TF_A0 = 112"
definition TF_SIZE :: u32 where "TF_SIZE = 288"

text \<open>\<open>safestrcpy\<close> between two kernel strings, given by their bytes.\<close>

definition name_copy :: "u8 list \<Rightarrow> u8 list" where "name_copy bs = take 15 bs"

definition userinit :: "('a ps \<Rightarrow> (nat option \<times> 'a ps) res) \<Rightarrow> 'a ps \<Rightarrow> 'a ps res" where
  "userinit namei_root s =
     bind_res (allocproc s) (\<lambda>(po, s).
     let s = s\<lparr>initproc := po\<rparr>
     in case po of None \<Rightarrow> null_deref
        | Some p \<Rightarrow>
            bind_res (uvmfirst (pagetable (procs s p)) (initcode s) 52 s) (\<lambda>s.
            let s = pupd p (sz_update (\<lambda>_. PGSIZE)) s;
                s = st (trapframe (procs s p) + TF_EPC) 0 s;
                s = st (trapframe (procs s p) + TF_SP) PGSIZE s;
                s = pupd p (name_update (\<lambda>_. map (\<lambda>c. of_nat (of_char c)) ''initcode'')) s
            in bind_res (namei_root s) (\<lambda>(ip, s).
               Ok (pupd p (\<lambda>x. x\<lparr>cwd := ip, pstate := RUNNABLE\<rparr>) s))))"

text \<open>\<open>n\<close> is an \<open>int\<close>, widened with its sign in \<open>sz + n\<close>.\<close>

definition growproc :: "nat \<Rightarrow> u32 \<Rightarrow> 'a ps \<Rightarrow> (int \<times> 'a ps) res" where
  "growproc me n s =
     (let p = procs s me
      in if sint n > 0
         then bind_res (uvmalloc (pagetable p) (sz p) (sz p + scast n) PTE_W s) (\<lambda>(size1, s).
              if size1 = 0 then Ok (-1, s) else Ok (0, pupd me (sz_update (\<lambda>_. size1)) s))
         else if sint n < 0
         then bind_res (uvmdealloc (pagetable p) (sz p) (sz p + scast n) s) (\<lambda>(size1, s).
              Ok (0, pupd me (sz_update (\<lambda>_. size1)) s))
         else Ok (0, pupd me (sz_update (\<lambda>_. sz p)) s))"

section \<open>fork\<close>

text \<open>
  The file loop copies every open descriptor \<open>i\<close> with \<open>filedup\<close>; it changes the child's table
  only where the parent's has a file.
\<close>

primrec fork_files :: "(nat \<Rightarrow> 'a ps \<Rightarrow> 'a ps res) \<Rightarrow> nat \<Rightarrow> nat \<Rightarrow> nat list \<Rightarrow> 'a ps \<Rightarrow> 'a ps res" where
  "fork_files filedup me np [] s = Ok s"
| "fork_files filedup me np (i # is) s =
     (case ofile (procs s me) i of
        None \<Rightarrow> fork_files filedup me np is s
      | Some f \<Rightarrow> bind_res (filedup f s) (\<lambda>s.
          fork_files filedup me np is (pupd np (\<lambda>x. x\<lparr>ofile := (ofile x)(i := Some f)\<rparr>) s)))"

definition fork :: "(nat \<Rightarrow> 'a ps \<Rightarrow> 'a ps res) \<Rightarrow> (nat option \<Rightarrow> 'a ps \<Rightarrow> (nat option \<times> 'a ps) res)
    \<Rightarrow> nat \<Rightarrow> 'a ps \<Rightarrow> (u32 \<times> 'a ps) res" where
  "fork filedup idup me s =
     bind_res (allocproc s) (\<lambda>(npo, s).
     case npo of None \<Rightarrow> Ok (-1, s)
     | Some np \<Rightarrow>
         bind_res (uvmcopy (pagetable (procs s me)) (pagetable (procs s np)) (sz (procs s me)) s) (\<lambda>(r, s).
         if r < 0 then bind_res (freeproc np s) (\<lambda>s. Ok (-1, s))
         else
           let s = pupd np (sz_update (\<lambda>_. sz (procs s me))) s;
               s = s\<lparr>pm := memmove (pm s) (trapframe (procs s np)) (trapframe (procs s me)) TF_SIZE\<rparr>;
               s = st (trapframe (procs s np) + TF_A0) 0 s
           in bind_res (fork_files filedup me np [0..<NOFILE] s) (\<lambda>s.
              bind_res (idup (cwd (procs s me)) s) (\<lambda>(ip, s).
              let s = pupd np (\<lambda>x. x\<lparr>cwd := ip, name := name_copy (name (procs s me))\<rparr>) s;
                  newpid = pid (procs s np);
                  s = pupd np (\<lambda>x. x\<lparr>parent := Some me, tracemask := tracemask (procs s me),
                                    tickets := tickets (procs s me)\<rparr>) s
              in Ok (newpid, pupd np (pstate_update (\<lambda>_. RUNNABLE)) s)))))"

section \<open>Sleeping and waking\<close>

text \<open>C division of \<open>int\<close>s.\<close>

definition c_div :: "u32 \<Rightarrow> u32 \<Rightarrow> u32" where
  "c_div a b = word_of_int (sint a sdiv sint b)"

definition new_niceness :: "proc \<Rightarrow> u32" where
  "new_niceness x =
     (if timeSlept x + timeRun x \<noteq> 0
      then c_div (10 * timeSlept x) (timeSlept x + timeRun x) else niceness x)"

definition wake :: "u32 \<Rightarrow> proc \<Rightarrow> proc" where
  "wake now x =
     (let x = x\<lparr>pstate := RUNNABLE, timeSlept := timeSlept x + (now - lastSlept x)\<rparr>
      in x\<lparr>niceness := new_niceness x, lastSlept := -1\<rparr>)"

definition wakeup :: "nat option \<Rightarrow> chan \<Rightarrow> 'a ps \<Rightarrow> 'a ps" where
  "wakeup me ch s = s\<lparr>procs := (\<lambda>p. let x = procs s p in
     if p < NPROC \<and> Some p \<noteq> me \<and> pstate x = SLEEPING \<and> chan x = ch then wake (ticks s) x else x)\<rparr>"

definition sleep_enter :: "nat \<Rightarrow> chan \<Rightarrow> 'a ps \<Rightarrow> 'a ps" where
  "sleep_enter me ch s = pupd me (\<lambda>x. x\<lparr>chan := ch, pstate := SLEEPING, lastSlept := ticks s\<rparr>) s"

definition sleep_leave :: "nat \<Rightarrow> 'a ps \<Rightarrow> 'a ps" where
  "sleep_leave me s = pupd me (chan_update (\<lambda>_. NoChan)) s"

text \<open>\<open>yield\<close> up to the switch to the scheduler.\<close>

definition yield :: "nat \<Rightarrow> 'a ps \<Rightarrow> 'a ps" where
  "yield me s = pupd me (\<lambda>x.
     let x = x\<lparr>pstate := RUNNABLE, timeRun := timeRun x + (ticks s - lastScheduled x),
               timeRanInQueue := timeRanInQueue x + (ticks s - lastScheduled x)\<rparr>
     in x\<lparr>niceness := new_niceness x\<rparr>) s"

definition setkilled :: "nat \<Rightarrow> 'a ps \<Rightarrow> 'a ps" where
  "setkilled p s = pupd p (killed_flag_update (\<lambda>_. 1)) s"

definition killed :: "nat \<Rightarrow> 'a ps \<Rightarrow> u32" where
  "killed p s = killed_flag (procs s p)"

definition kill :: "u32 \<Rightarrow> 'a ps \<Rightarrow> int \<times> 'a ps" where
  "kill victim s =
     (case find (\<lambda>p. pid (procs s p) = victim) [0..<NPROC] of
        None \<Rightarrow> (-1, s)
      | Some p \<Rightarrow> (0, pupd p (\<lambda>x.
          let x = x\<lparr>killed_flag := 1\<rparr>
          in if pstate x = SLEEPING then x\<lparr>pstate := RUNNABLE\<rparr> else x) s))"

definition update_time :: "'a ps \<Rightarrow> 'a ps" where
  "update_time s = s\<lparr>procs := (\<lambda>p. let x = procs s p in
     if p < NPROC \<and> pstate x = RUNNING then x\<lparr>rtime := rtime x + 1\<rparr> else x)\<rparr>"

section \<open>exit and wait\<close>

primrec reparent_loop :: "nat \<Rightarrow> nat list \<Rightarrow> 'a ps \<Rightarrow> 'a ps" where
  "reparent_loop me [] s = s"
| "reparent_loop me (pp # ps) s =
     (if parent (procs s pp) = Some me
      then reparent_loop me ps (case initproc s of
             None \<Rightarrow> pupd pp (parent_update (\<lambda>_. initproc s)) s
           | Some ip \<Rightarrow> wakeup (Some me) (ProcChan ip) (pupd pp (parent_update (\<lambda>_. initproc s)) s))
      else reparent_loop me ps s)"

definition reparent :: "nat \<Rightarrow> 'a ps \<Rightarrow> 'a ps" where
  "reparent me s = reparent_loop me [0..<NPROC] s"

primrec close_all :: "(nat \<Rightarrow> 'a ps \<Rightarrow> 'a ps res) \<Rightarrow> nat \<Rightarrow> nat list \<Rightarrow> 'a ps \<Rightarrow> 'a ps res" where
  "close_all fileclose me [] s = Ok s"
| "close_all fileclose me (fd # fds) s =
     (case ofile (procs s me) fd of
        None \<Rightarrow> close_all fileclose me fds s
      | Some f \<Rightarrow> bind_res (fileclose f s) (\<lambda>s.
          close_all fileclose me fds (pupd me (\<lambda>x. x\<lparr>ofile := (ofile x)(fd := None)\<rparr>) s)))"

text \<open>The part of \<open>exit\<close> under \<open>wait_lock\<close>.\<close>

definition exit_zombie :: "nat \<Rightarrow> u32 \<Rightarrow> 'a ps \<Rightarrow> 'a ps" where
  "exit_zombie me status s =
     (let s = reparent me s;
          s = (case parent (procs s me) of None \<Rightarrow> wakeup (Some me) NoChan s
               | Some pp \<Rightarrow> wakeup (Some me) (ProcChan pp) s)
      in pupd me (\<lambda>x. x\<lparr>xstate := status, pstate := ZOMBIE, etime := ticks s\<rparr>) s)"

text \<open>\<open>put_cwd\<close> stands for \<open>begin_op(); iput(p->cwd); end_op()\<close>.\<close>

definition exit :: "(nat \<Rightarrow> 'a ps \<Rightarrow> 'a ps res) \<Rightarrow> (nat option \<Rightarrow> 'a ps \<Rightarrow> 'a ps res)
    \<Rightarrow> nat \<Rightarrow> u32 \<Rightarrow> 'a ps \<Rightarrow> 'a ps res" where
  "exit fileclose put_cwd me status s =
     (if Some me = initproc s then Panic ''init exiting''
      else bind_res (close_all fileclose me [0..<NOFILE] s) (\<lambda>s.
           bind_res (put_cwd (cwd (procs s me)) s) (\<lambda>s.
           Ok (exit_zombie me status (pupd me (cwd_update (\<lambda>_. None)) s)))))"

text \<open>
  One round of \<open>wait\<close>: \<open>Some r\<close> when it returns \<open>r\<close>, \<open>None\<close> when the caller went to sleep.  The
  exit status is what memory holds at the child's \<open>xstate\<close>.
\<close>

definition put_xstate :: "nat \<Rightarrow> 'a ps \<Rightarrow> 'a ps" where
  "put_xstate q s = s\<lparr>pm := store_le (pm s) (xstate_at s q) (xstate (procs s q)) 4\<rparr>"

definition wait_sleep :: "nat \<Rightarrow> 'a ps \<Rightarrow> u32 option \<times> 'a ps" where
  "wait_sleep me s =
     (if find (\<lambda>q. parent (procs s q) = Some me) [0..<NPROC] = None \<or> killed_flag (procs s me) \<noteq> 0
      then (Some (-1), s) else (None, sleep_enter me (ProcChan me) s))"

definition wait :: "nat \<Rightarrow> u64 \<Rightarrow> 'a ps \<Rightarrow> (u32 option \<times> 'a ps) res" where
  "wait me addr s =
     (case find (\<lambda>q. parent (procs s q) = Some me \<and> pstate (procs s q) = ZOMBIE) [0..<NPROC] of
        Some q \<Rightarrow>
          let cpid = pid (procs s q)
          in bind_res (if addr \<noteq> 0 then copyout (pagetable (procs s me)) addr (xstate_at s q) 4 (put_xstate q s)
                       else Ok (0, s)) (\<lambda>(r, s).
             if r < 0 then Ok (Some (-1), s)
             else bind_res (freeproc q s) (\<lambda>s. Ok (Some cpid, s)))
      | None \<Rightarrow> Ok (wait_sleep me s))"

text \<open>\<open>waitx\<close> also returns the times \<open>(wtime, rtime)\<close> it has stored, if any.\<close>

definition waitx :: "nat \<Rightarrow> u64 \<Rightarrow> 'a ps \<Rightarrow> (u32 option \<times> (u32 \<times> u32) option \<times> 'a ps) res" where
  "waitx me addr s =
     (case find (\<lambda>q. parent (procs s q) = Some me \<and> pstate (procs s q) = ZOMBIE) [0..<NPROC] of
        Some q \<Rightarrow>
          let x = procs s q; cpid = pid x; times = (etime x - ctime x - rtime x, rtime x)
          in bind_res (if addr \<noteq> 0 then copyout (pagetable (procs s me)) addr (xstate_at s q) 4 (put_xstate q s)
                       else Ok (0, s)) (\<lambda>(r, s).
             if r < 0 then Ok (Some (-1), Some times, s)
             else bind_res (freeproc q s) (\<lambda>s. Ok (Some cpid, Some times, s)))
      | None \<Rightarrow> let (r, s) = wait_sleep me s in Ok (r, None, s))"

section \<open>Small helpers\<close>

text \<open>The loop of \<open>num_digits\<close> on the non-negative \<open>num\<close>.\<close>

function digits_loop :: "int \<Rightarrow> int \<Rightarrow> int" where
  "digits_loop num digits = (if num > 0 then digits_loop (num div 10) (digits + 1) else digits)"
  by pat_completeness auto
termination by (relation "measure (\<lambda>(num, d). nat num)") auto

declare digits_loop.simps [simp del]

definition num_digits :: "u32 \<Rightarrow> int" where
  "num_digits num =
     (let is_neg = (if sint num < 0 then 1 else 0);
          num = (if sint num < 0 then num * (-1) else num)
      in if num = 0 then 1 else digits_loop (sint num) 0 + is_neg)"

definition either_copyout :: "u64 \<Rightarrow> bool \<Rightarrow> u64 \<Rightarrow> u64 \<Rightarrow> u64 \<Rightarrow> 'a st \<Rightarrow> (int \<times> 'a st) res" where
  "either_copyout pt user_dst dst src len s =
     (if user_dst then copyout pt dst src len s
      else Ok (0, s\<lparr>pm := memmove (pm s) dst src (ucast len)\<rparr>))"

definition either_copyin :: "u64 \<Rightarrow> u64 \<Rightarrow> bool \<Rightarrow> u64 \<Rightarrow> u64 \<Rightarrow> 'a st \<Rightarrow> (int \<times> 'a st) res" where
  "either_copyin pt dst user_src src len s =
     (if user_src then copyin pt dst src len s
      else Ok (0, s\<lparr>pm := memmove (pm s) dst src (ucast len)\<rparr>))"

end
