(* ===== verification/Frame.thy ===== *)
theory Frame
  imports Proc
begin

text \<open>
  The memory functions of the kernel change nothing but memory, the free list and the reference
  counts: whatever extends the allocator's state, such as the process table, stays as it is.
\<close>

named_theorems frame "what a memory operation keeps"

lemma more_simps [simp]:
  "kst.more (st a v s) = kst.more s" "kst.more (zero_page p s) = kst.more s" "kst.more (s\<lparr>pm := m\<rparr>) = kst.more s"
  by (simp_all add: st_def zero_page_def)

lemma incRef_more [frame]: "incRef pa s = Ok s' \<Longrightarrow> kst.more s' = kst.more s"
  by (auto simp: incRef_def Let_def split: if_splits)

lemma kfree_more [frame]: "kfree pa s = Ok s' \<Longrightarrow> kst.more s' = kst.more s"
  by (auto simp: kfree_def Let_def split: if_splits)

lemma kalloc_more [frame]: "kalloc s = Ok (p, s') \<Longrightarrow> kst.more s' = kst.more s"
  by (auto simp: kalloc_def Let_def split: if_splits)

lemma walk_loop_more: "walk_loop l pt va al s = Ok (e, s') \<Longrightarrow> kst.more s' = kst.more s"
  by (induction l arbitrary: pt s) (auto simp: Let_def res_simps split: if_splits dest!: kalloc_more)

lemma walk_more [frame]: "walk pt va al s = Ok (e, s') \<Longrightarrow> kst.more s' = kst.more s"
  by (auto simp: walk_def split: if_splits dest!: walk_loop_more)

lemma mappages_loop_more: "mappages_loop pt a l pa perm s = Ok (r, s') \<Longrightarrow> kst.more s' = kst.more s"
proof (induction pt a l pa perm s rule: mappages_loop.induct)
  case (1 pt a l pa perm s)
  from "1.prems" show ?case
    by (subst (asm) mappages_loop.simps)
       (auto simp: res_simps Let_def split: if_splits dest: walk_more , (metis walk_more  more_simps "1.IH" [OF _ refl _ _ refl])+)
qed

lemma mappages_more [frame]: "mappages pt va n pa perm s = Ok (r, s') \<Longrightarrow> kst.more s' = kst.more s"
  by (auto simp: mappages_def split: if_splits dest!: mappages_loop_more)

lemma uvmunmap_loop_more: "uvmunmap_loop pt a l fr s = Ok s' \<Longrightarrow> kst.more s' = kst.more s"
proof (induction pt a l fr s rule: uvmunmap_loop.induct)
  case (1 pt a l fr s)
  show ?case
  proof (cases "a < l")
    case True
    with "1.prems" obtain e s1 s2 where w: "walk pt a False s = Ok (e, s1)" "e \<noteq> 0" "\<not> \<not> has (ld s1 e) PTE_V"
        "PTE_FLAGS (ld s1 e) \<noteq> PTE_V" and f: "(if fr then kfree (PTE2PA (ld s1 e)) s1 else Ok s1) = Ok s2"
        and rec: "uvmunmap_loop pt (a + PGSIZE) l fr (st e 0 s2) = Ok s'"
      by (subst (asm) uvmunmap_loop.simps) (auto simp: res_simps split: if_split_asm)
    from "1.IH"[OF True w(1) refl w(2-4) f rec] f walk_more[OF w(1)] show ?thesis by (auto split: if_splits dest!: kfree_more)
  qed (use "1.prems" in \<open>simp add: uvmunmap_loop.simps\<close>)
qed

lemma uvmunmap_more [frame]: "uvmunmap pt va n fr s = Ok s' \<Longrightarrow> kst.more s' = kst.more s"
  by (auto simp: uvmunmap_def split: if_splits dest!: uvmunmap_loop_more)

lemma uvmcreate_more [frame]: "uvmcreate s = Ok (p, s') \<Longrightarrow> kst.more s' = kst.more s"
  by (auto simp: uvmcreate_def res_simps split: if_splits dest!: kalloc_more)

lemma uvmdealloc_more [frame]: "uvmdealloc pt o' n s = Ok (r, s') \<Longrightarrow> kst.more s' = kst.more s"
  by (auto simp: uvmdealloc_def Let_def res_simps split: if_splits dest!: uvmunmap_more)

lemma uvmalloc_loop_more: "uvmalloc_loop pt a o' n x s = Ok (r, s') \<Longrightarrow> kst.more s' = kst.more s"
proof (induction pt a o' n x s rule: uvmalloc_loop.induct)
  case (1 pt a o' n x s)
  show ?case
  proof (cases "a < n")
    case True
    show ?thesis
    proof (cases "\<exists>p s1 s2. kalloc s = Ok (p, s1) \<and> p \<noteq> 0 \<and>
        mappages pt a PGSIZE p (PTE_R OR PTE_U OR x) (zero_page p s1) = Ok (0, s2)")
      case ok: True
      then obtain p s1 s2 where k: "kalloc s = Ok (p, s1)" "p \<noteq> 0"
          and m: "mappages pt a PGSIZE p (PTE_R OR PTE_U OR x) (zero_page p s1) = Ok (0, s2)" by blast
      with "1.prems" True have rec: "uvmalloc_loop pt (a + PGSIZE) o' n x s2 = Ok (r, s')"
        by (subst (asm) uvmalloc_loop.simps) simp
      from "1.IH"[OF True k(1) refl k(2) m refl _ rec] kalloc_more[OF k(1)] mappages_more[OF m] show ?thesis by simp
    next
      case False
      with "1.prems" True show ?thesis
        by (subst (asm) uvmalloc_loop.simps)
           (auto simp: res_simps split: if_splits dest!: uvmdealloc_more, auto dest!: kalloc_more mappages_more kfree_more)
    qed
  qed (use "1.prems" in \<open>simp add: uvmalloc_loop.simps\<close>)
qed

lemma uvmalloc_more [frame]: "uvmalloc pt o' n x s = Ok (r, s') \<Longrightarrow> kst.more s' = kst.more s"
  by (auto simp: uvmalloc_def split: if_splits dest!: uvmalloc_loop_more)

lemma freewalk_from_more:
  assumes "freewalk_from i pt s = Some r" shows "\<forall>s'. r = Ok s' \<longrightarrow> kst.more s' = kst.more s"
proof (rule freewalk_from.raw_induct [where P = "\<lambda>i pt s r. \<forall>s'. r = Ok s' \<longrightarrow> kst.more s' = kst.more s", OF _ assms])
  fix f i pt r and s :: "'a st"
  assume IH: "\<And>pt s b y. f pt s b = Some y \<Longrightarrow> \<forall>s'. y = Ok s' \<longrightarrow> kst.more s' = kst.more b"
    and def: "(if i < 512
      then let a = pt + 8 * of_nat i; pte = ld s a
           in if has pte PTE_V \<and> \<not> has pte (PTE_R OR PTE_W OR PTE_X)
              then Option.bind (f 0 (PTE2PA pte) s) (\<lambda>r.
                     case r of Ok s1 \<Rightarrow> f (Suc i) pt (st a 0 s1) | Panic msg \<Rightarrow> Some (Panic msg))
              else if has pte PTE_V then Some (Panic ''freewalk: leaf'') else f (Suc i) pt s
      else Some (kfree pt s)) = Some r"
  show "\<forall>s'. r = Ok s' \<longrightarrow> kst.more s' = kst.more s"
  proof (intro allI impI)
    fix s' assume "r = Ok s'"
    have seq: "(case y of Ok a \<Rightarrow> g a | Panic m \<Rightarrow> Some (Panic m)) = Some (Ok z) \<longleftrightarrow> (\<exists>a. y = Ok a \<and> g a = Some (Ok z))"
      for y :: "'a st res" and g z by (cases y) auto
    with \<open>r = Ok s'\<close> def show "kst.more s' = kst.more s"
      by (auto simp: Let_def bind_eq_Some_conv seq split: if_splits dest!: IH dest: kfree_more)
  qed
qed

lemma returns_Ok: "returns x = Ok y \<longleftrightarrow> x = Some (Ok y)"
  by (auto simp: returns_def split: option.splits)

lemma uvmfree_more [frame]: "uvmfree pt n s = Ok s' \<Longrightarrow> kst.more s' = kst.more s"
  by (auto simp: uvmfree_def freewalk_def res_simps returns_Ok split: if_splits
      dest!: uvmunmap_more freewalk_from_more)

lemma uvmcopy_loop_more: "uvmcopy_loop o' n i z s = Ok (r, s') \<Longrightarrow> kst.more s' = kst.more s"
proof (induction o' n i z s rule: uvmcopy_loop.induct)
  case (1 o' n i z s)
  show ?case
  proof (cases "i < z")
    case True
    with "1.prems" obtain e s0 where w: "walk o' i False s = Ok (e, s0)" "e \<noteq> 0" "\<not> \<not> has (ld s0 e) PTE_V"
      by (subst (asm) uvmcopy_loop.simps) (auto simp: res_simps split: if_split_asm)
    define s1 where "s1 = st e (ld s0 e AND NOT PTE_W) s0"
    define s2 where "s2 = st e (ld s1 e OR PTE_COW) s1"
    have more2: "kst.more s2 = kst.more s" using walk_more[OF w(1)] by (simp add: s1_def s2_def)
    from "1.prems" True w obtain q s3 where m: "mappages n i PGSIZE (PTE2PA (ld s0 e)) (PTE_FLAGS (ld s2 e)) s2 = Ok (q, s3)"
      by (subst (asm) uvmcopy_loop.simps) (auto simp: res_simps Let_def s1_def s2_def split: if_split_asm)
    show ?thesis
    proof (cases "q \<noteq> 0")
      case True
      with "1.prems" \<open>i < z\<close> w m mappages_more[OF m] more2 show ?thesis
        by (subst (asm) uvmcopy_loop.simps) (auto simp: res_simps Let_def simp flip: s1_def s2_def dest!: uvmunmap_more)
    next
      case False
      with "1.prems" True w m obtain s4 where c: "incRef (PTE2PA (ld s0 e)) s3 = Ok s4"
          "uvmcopy_loop o' n (i + PGSIZE) z s4 = Ok (r, s')"
        by (subst (asm) uvmcopy_loop.simps) (auto simp: res_simps Let_def simp flip: s1_def s2_def)
      from "1.IH"[OF True w(1) refl w(2,3) refl s1_def s2_def refl m refl False c]
        incRef_more[OF c(1)] mappages_more[OF m] more2 show ?thesis by simp
    qed
  qed (use "1.prems" in \<open>simp add: uvmcopy_loop.simps\<close>)
qed

lemma uvmcopy_more [frame]: "uvmcopy o' n z s = Ok (r, s') \<Longrightarrow> kst.more s' = kst.more s"
  by (auto simp: uvmcopy_def dest!: uvmcopy_loop_more)

lemma copyout_loop_more: "copyout_loop pt d src len s = Ok (r, s') \<Longrightarrow> kst.more s' = kst.more s"
proof (induction pt d src len s rule: copyout_loop.induct)
  case (1 pt d src len s)
  show ?case
  proof (cases "len \<noteq> 0 \<and> (\<exists>pa. walkaddr pt (PGROUNDDOWN d) s = Ok pa \<and> pa \<noteq> 0)")
    case True
    then obtain pa where w: "len \<noteq> 0" "walkaddr pt (PGROUNDDOWN d) s = Ok pa" "pa \<noteq> 0" by blast
    with "1.prems" have "copyout_loop pt (PGROUNDDOWN d + PGSIZE) (src + chunk d len) (len - chunk d len)
          (s\<lparr>pm := memmove (pm s) (pa + (d - PGROUNDDOWN d)) src (ucast (chunk d len))\<rparr>) = Ok (r, s')"
      by (subst (asm) copyout_loop.simps) (simp add: Let_def)
    from "1.IH"[OF w(1) refl w(2,3) refl this] show ?thesis by (simp only: more_simps)
  next
    case False
    then have "len = 0 \<or> walkaddr pt (PGROUNDDOWN d) s = Ok 0 \<or> (\<exists>e. walkaddr pt (PGROUNDDOWN d) s = Panic e)"
      by (cases "walkaddr pt (PGROUNDDOWN d) s") auto
    with "1.prems" show ?thesis
      by (subst (asm) copyout_loop.simps) (auto simp: Let_def res_simps split: if_splits)
  qed
qed

lemma let_more: "(let x = a in f x) = y \<Longrightarrow> (\<And>x. kst.more x = kst.more a \<Longrightarrow> f x = y \<Longrightarrow> Q) \<Longrightarrow> Q"
  by simp

lemma let_any: "(let x = a in f x) = y \<Longrightarrow> (\<And>x. f x = y \<Longrightarrow> Q) \<Longrightarrow> Q" for a :: u64
  by simp

lemma copyout_more [frame]: "copyout pt d src len s = Ok (r, s') \<Longrightarrow> kst.more s' = kst.more s"
  unfolding copyout_def
  by (auto simp: res_simps split: if_split_asm elim!: let_more let_any
      dest!: walk_more kalloc_more kfree_more copyout_loop_more)

lemma copyin_loop_more: "copyin_loop pt d src len s = Ok (r, s') \<Longrightarrow> kst.more s' = kst.more s"
proof (induction pt d src len s rule: copyin_loop.induct)
  case (1 pt d src len s)
  show ?case
  proof (cases "len \<noteq> 0 \<and> (\<exists>pa. walkaddr pt (PGROUNDDOWN src) s = Ok pa \<and> pa \<noteq> 0)")
    case True
    then obtain pa where w: "len \<noteq> 0" "walkaddr pt (PGROUNDDOWN src) s = Ok pa" "pa \<noteq> 0" by blast
    with "1.prems" have "copyin_loop pt (d + chunk src len) (PGROUNDDOWN src + PGSIZE) (len - chunk src len)
          (s\<lparr>pm := memmove (pm s) d (pa + (src - PGROUNDDOWN src)) (ucast (chunk src len))\<rparr>) = Ok (r, s')"
      by (subst (asm) copyin_loop.simps) (simp add: Let_def)
    from "1.IH"[OF w(1) refl w(2,3) refl this] show ?thesis by (simp only: more_simps)
  next
    case False
    then have "len = 0 \<or> walkaddr pt (PGROUNDDOWN src) s = Ok 0 \<or> (\<exists>e. walkaddr pt (PGROUNDDOWN src) s = Panic e)"
      by (cases "walkaddr pt (PGROUNDDOWN src) s") auto
    with "1.prems" show ?thesis
      by (subst (asm) copyin_loop.simps) (auto simp: Let_def res_simps split: if_splits)
  qed
qed

lemma copyin_more [frame]: "copyin pt d src len s = Ok (r, s') \<Longrightarrow> kst.more s' = kst.more s"
  by (auto simp: copyin_def dest!: copyin_loop_more)

lemma copyinstr_page_more:
  "copyinstr_page n p d mx s = (b, d', mx', s') \<Longrightarrow> kst.more s' = kst.more s"
  by (induction n arbitrary: p d mx s) (auto split: if_splits)

lemma copyinstr_loop_more: "copyinstr_loop pt d src mx s = Ok (r, s') \<Longrightarrow> kst.more s' = kst.more s"
proof (induction pt d src mx s rule: copyinstr_loop.induct)
  case (1 pt d src mx s)
  show ?case
  proof (cases "mx \<noteq> 0 \<and> (\<exists>pa. walkaddr pt (PGROUNDDOWN src) s = Ok pa \<and> pa \<noteq> 0)")
    case True
    then obtain pa where w: "mx \<noteq> 0" "walkaddr pt (PGROUNDDOWN src) s = Ok pa" "pa \<noteq> 0" by blast
    obtain b d1 m1 s1 where p: "(b, d1, m1, s1) =
        copyinstr_page (unat (chunk src mx)) (pa + (src - PGROUNDDOWN src)) d mx s" by (metis prod_cases4)
    show ?thesis
    proof (cases b)
      case True
      with "1.prems" w p[symmetric] copyinstr_page_more[OF p[symmetric]] show ?thesis
        by (subst (asm) copyinstr_loop.simps) (simp add: Let_def)
    next
      case False
      with "1.prems" w p[symmetric] have "copyinstr_loop pt d1 (PGROUNDDOWN src + PGSIZE) m1 s1 = Ok (r, s')"
        by (subst (asm) copyinstr_loop.simps) (simp add: Let_def)
      from "1.IH"[OF w(1) refl w(2,3) p refl refl False this] copyinstr_page_more[OF p[symmetric]] show ?thesis by simp
    qed
  next
    case False
    then have "mx = 0 \<or> walkaddr pt (PGROUNDDOWN src) s = Ok 0 \<or> (\<exists>e. walkaddr pt (PGROUNDDOWN src) s = Panic e)"
      by (cases "walkaddr pt (PGROUNDDOWN src) s") auto
    with "1.prems" show ?thesis
      by (subst (asm) copyinstr_loop.simps) (auto simp: Let_def res_simps split: if_splits)
  qed
qed

lemma copyinstr_more [frame]: "copyinstr pt d src mx s = Ok (r, s') \<Longrightarrow> kst.more s' = kst.more s"
  by (auto simp: copyinstr_def dest!: copyinstr_loop_more)

text \<open>Consequently the process table and the kernel's globals stay.\<close>

lemma more_pst:
  assumes "kst.more s' = kst.more (s :: 'a ps)"
  shows "procs s' = procs s" "initproc s' = initproc s" "nextpid s' = nextpid s" "ticks s' = ticks s"
    "nxt s' = nxt s" "xstate_at s' = xstate_at s" "trampoline s' = trampoline s" "forkret_addr s' = forkret_addr s"
    "pst.more s' = pst.more s"
  using assms by (cases s, cases s', simp)+

end
