(* ===== verification/Fstate.thy ===== *)
theory Fstate
  imports Frame
begin

text \<open>
  The state of the file system and the devices, which extends the process state, and the sleep
  locks of \<^verbatim>\<open>kernel/sleeplock.c\<close>.  A disk block is 1024 bytes at the offsets 0 to 1023 of a
  memory.  Objects that are not in allocated pages are record fields.  Where the code passes the
  address of such an object to a memory function, \<open>spill\<close> puts its bytes at that address first
  and \<open>fill\<close> reads them back.  The functions run on behalf of the current process \<open>cur\<close>; a
  function that would have to sleep has the result \<open>blocked\<close>.
\<close>

section \<open>Records\<close>

record sleeplock =
  slocked :: bool
  spid :: u32

record buf =
  valid :: bool
  dev :: u32
  blockno :: u32
  slock :: sleeplock
  refcnt :: u32
  bdata :: mem

record superblock =
  magic :: u32
  fssize :: u32
  nblocks :: u32
  ninodes :: u32
  nlog :: u32
  logstart :: u32
  inodestart :: u32
  bmapstart :: u32

text \<open>\<open>struct log\<close> with its header: \<open>lhn\<close> and \<open>lhblock\<close> are \<open>lh.n\<close> and \<open>lh.block\<close>.\<close>

record logrec =
  lstart :: u32
  lsize :: int
  outstanding :: int
  committing :: bool
  ldev :: u32
  lhn :: int
  lhblock :: "nat \<Rightarrow> u32"

record inode =
  idev :: u32
  inum :: u32
  iref :: int
  ilk :: sleeplock
  ivalid :: bool
  itype :: u16
  imajor :: u16
  iminor :: u16
  nlink :: u16
  isize :: u32
  addrs :: "nat \<Rightarrow> u32"

datatype ftype = FD_NONE | FD_PIPE | FD_INODE | FD_DEVICE

record kfile =
  ftype :: ftype
  fref :: int
  readable :: bool
  writable :: bool
  fpipe :: u64
  fip :: nat
  foff :: u32
  fmajor :: u16

text \<open>\<open>struct pipe\<close>, kept by the page that \<open>kalloc\<close> gave for it.\<close>

record pipe =
  pdata :: "nat \<Rightarrow> u8"
  nread :: u32
  nwrite :: u32
  readopen :: bool
  writeopen :: bool

record console =
  cbuf :: "nat \<Rightarrow> u8"
  cr :: u32
  cw :: u32
  ce :: u32

text \<open>
  The UART: its transmit buffer, how many more bytes the device takes before it reports that its
  transmitter is busy, the bytes sent so far, and the
  input waiting.
\<close>

record uart =
  txbuf :: "nat \<Rightarrow> u8"
  tx_w :: u64
  tx_r :: u64
  thr_room :: nat
  sent :: "u8 list"
  rx :: "u8 list"

text \<open>
  \<open>disk\<close> is what the disk holds, \<open>dwrites\<close> the history of its writes, latest first.  \<open>bufs\<close> and
  \<open>lru\<close> are the buffer cache, the latter from \<open>head.next\<close> on.  \<open>obj_at\<close> gives the address of a kernel
  object or local variable by name, \<open>buf_at\<close> that of a buffer's data.
\<close>

record fsys = pst +
  cur :: nat
  disk :: "u32 \<Rightarrow> mem"
  dwrites :: "(u32 \<times> mem) list"
  bufs :: "nat \<Rightarrow> buf"
  lru :: "nat list"
  log :: logrec
  sb :: superblock
  inodes :: "nat \<Rightarrow> inode"
  files :: "nat \<Rightarrow> kfile"
  pipes :: "u64 \<Rightarrow> pipe"
  cons :: console
  uart :: uart
  obj_at :: "string \<Rightarrow> u64"
  buf_at :: "nat \<Rightarrow> u64"

type_synonym 'a fs = "'a fsys_scheme"

definition BSIZE :: nat where "BSIZE = 1024"
definition NBUF :: nat where "NBUF = 30"
definition NINODE :: nat where "NINODE = 50"
definition NFILE :: nat where "NFILE = 100"
definition NDEV :: nat where "NDEV = 10"
definition LOGSIZE :: int where "LOGSIZE = 30"
definition MAXOPBLOCKS :: int where "MAXOPBLOCKS = 10"
definition MAXPATH :: nat where "MAXPATH = 128"
definition MAXARG :: nat where "MAXARG = 32"
definition ROOTDEV :: u32 where "ROOTDEV = 1"

definition blocked :: "'b res" where
  "blocked = Panic ''(sleeps)''"

definition mypid :: "'a fs \<Rightarrow> u32" where "mypid s = pid (procs s (cur s))"
definition mypt :: "'a fs \<Rightarrow> u64" where "mypt s = pagetable (procs s (cur s))"

text \<open>\<open>n\<close> bytes of a record's memory at offset \<open>o\<close>, put at address \<open>a\<close>; and back.\<close>

definition spill :: "u64 \<Rightarrow> mem \<Rightarrow> u64 \<Rightarrow> nat \<Rightarrow> 'a fs \<Rightarrow> 'a fs" where
  "spill a m o' n s = s\<lparr>pm := (\<lambda>x. if unat (x - a) < n then m (o' + (x - a)) else pm s x)\<rparr>"

definition fill :: "mem \<Rightarrow> u64 \<Rightarrow> u64 \<Rightarrow> nat \<Rightarrow> 'a fs \<Rightarrow> mem" where
  "fill m o' a n s = (\<lambda>x. if unat (x - o') < n then pm s (a + (x - o')) else m x)"

section \<open>Sleep locks\<close>

text \<open>
  A lock is a part of a buffer or an inode: \<open>get\<close> and \<open>put\<close> reach it in the state, and \<open>ch\<close> is
  the channel its waiters sleep on.  \<open>acquiresleep\<close> is one round of its loop.
\<close>

definition initsleeplock :: "sleeplock" where
  "initsleeplock = \<lparr>slocked = False, spid = 0\<rparr>"

definition wake_chan :: "chan \<Rightarrow> 'a fs \<Rightarrow> 'a fs" where
  "wake_chan ch s = wakeup (Some (cur s)) ch s"

definition acquiresleep :: "('a fs \<Rightarrow> sleeplock) \<Rightarrow> (sleeplock \<Rightarrow> 'a fs \<Rightarrow> 'a fs) \<Rightarrow> 'a fs \<Rightarrow> 'a fs res" where
  "acquiresleep get put s =
     (if slocked (get s) then blocked else Ok (put (get s\<lparr>slocked := True, spid := mypid s\<rparr>) s))"

definition releasesleep :: "('a fs \<Rightarrow> sleeplock) \<Rightarrow> (sleeplock \<Rightarrow> 'a fs \<Rightarrow> 'a fs) \<Rightarrow> chan \<Rightarrow> 'a fs \<Rightarrow> 'a fs" where
  "releasesleep get put ch s = wake_chan ch (put (get s\<lparr>slocked := False, spid := 0\<rparr>) s)"

definition holdingsleep :: "sleeplock \<Rightarrow> 'a fs \<Rightarrow> bool" where
  "holdingsleep lk s \<longleftrightarrow> slocked lk \<and> spid lk = mypid s"

end
