(* ===== verification/Bio.thy ===== *)
theory Bio
  imports Fstate
begin

text \<open>
  The buffer cache, \<^verbatim>\<open>kernel/bio.c\<close>.  \<open>disk_rw\<close> is the effect of \<open>virtio_disk_rw\<close> once the
  transfer is complete.
\<close>

definition bupd :: "nat \<Rightarrow> (buf \<Rightarrow> buf) \<Rightarrow> 'a fs \<Rightarrow> 'a fs" where
  "bupd b f s = s\<lparr>bufs := (bufs s)(b := f (bufs s b))\<rparr>"

definition block_of :: "mem \<Rightarrow> mem" where
  "block_of m = (\<lambda>x. if unat x < BSIZE then m x else 0)"

definition disk_rw :: "nat \<Rightarrow> bool \<Rightarrow> 'a fs \<Rightarrow> 'a fs" where
  "disk_rw b write s =
     (if write then s\<lparr>disk := (disk s)(blockno (bufs s b) := block_of (bdata (bufs s b))),
                      dwrites := (blockno (bufs s b), block_of (bdata (bufs s b))) # dwrites s\<rparr>
      else bupd b (bdata_update (\<lambda>_. block_of (disk s (blockno (bufs s b))))) s)"

definition binit :: "'a fs \<Rightarrow> 'a fs" where
  "binit s = fold (\<lambda>b s. s\<lparr>bufs := (bufs s)(b := (bufs s b)\<lparr>slock := initsleeplock\<rparr>), lru := b # lru s\<rparr>)
     [0..<NBUF] (s\<lparr>lru := []\<rparr>)"

definition lock_buf :: "nat \<Rightarrow> 'a fs \<Rightarrow> 'a fs res" where
  "lock_buf b s = acquiresleep (\<lambda>s. slock (bufs s b)) (\<lambda>l. bupd b (slock_update (\<lambda>_. l))) s"

definition bget :: "u32 \<Rightarrow> u32 \<Rightarrow> 'a fs \<Rightarrow> (nat \<times> 'a fs) res" where
  "bget d bno s =
     (case find (\<lambda>b. dev (bufs s b) = d \<and> blockno (bufs s b) = bno) (lru s) of
        Some b \<Rightarrow> bind_res (lock_buf b (bupd b (\<lambda>x. x\<lparr>refcnt := refcnt x + 1\<rparr>) s)) (\<lambda>s. Ok (b, s))
      | None \<Rightarrow>
         (case find (\<lambda>b. refcnt (bufs s b) = 0) (rev (lru s)) of
            Some b \<Rightarrow>
              bind_res (lock_buf b (bupd b (\<lambda>x. x\<lparr>dev := d, blockno := bno, valid := False, refcnt := 1\<rparr>) s))
                (\<lambda>s. Ok (b, s))
          | None \<Rightarrow> Panic ''bget: no buffers''))"

definition bread :: "u32 \<Rightarrow> u32 \<Rightarrow> 'a fs \<Rightarrow> (nat \<times> 'a fs) res" where
  "bread d bno s =
     bind_res (bget d bno s) (\<lambda>(b, s).
       if \<not> valid (bufs s b) then Ok (b, bupd b (valid_update (\<lambda>_. True)) (disk_rw b False s)) else Ok (b, s))"

definition bwrite :: "nat \<Rightarrow> 'a fs \<Rightarrow> 'a fs res" where
  "bwrite b s = (if \<not> holdingsleep (slock (bufs s b)) s then Panic ''bwrite'' else Ok (disk_rw b True s))"

definition brelse :: "nat \<Rightarrow> 'a fs \<Rightarrow> 'a fs res" where
  "brelse b s =
     (if \<not> holdingsleep (slock (bufs s b)) s then Panic ''brelse''
      else let s = releasesleep (\<lambda>s. slock (bufs s b)) (\<lambda>l. bupd b (slock_update (\<lambda>_. l))) (BufLock b) s;
               s = bupd b (\<lambda>x. x\<lparr>refcnt := refcnt x - 1\<rparr>) s
           in if refcnt (bufs s b) = 0 then Ok (s\<lparr>lru := b # remove1 b (lru s)\<rparr>) else Ok s)"

definition bpin :: "nat \<Rightarrow> 'a fs \<Rightarrow> 'a fs" where
  "bpin b s = bupd b (\<lambda>x. x\<lparr>refcnt := refcnt x + 1\<rparr>) s"

definition bunpin :: "nat \<Rightarrow> 'a fs \<Rightarrow> 'a fs" where
  "bunpin b s = bupd b (\<lambda>x. x\<lparr>refcnt := refcnt x - 1\<rparr>) s"

end
