(* ===== verification/Log.thy ===== *)
theory Log
  imports Bio
begin

text \<open>The write-ahead log, \<^verbatim>\<open>kernel/log.c\<close>.\<close>

definition lupd :: "(logrec \<Rightarrow> logrec) \<Rightarrow> 'a fs \<Rightarrow> 'a fs" where
  "lupd f s = s\<lparr>log := f (log s)\<rparr>"

text \<open>\<open>memmove(dst->data, src->data, BSIZE)\<close> between two buffers.\<close>

definition copy_buf :: "nat \<Rightarrow> nat \<Rightarrow> 'a fs \<Rightarrow> 'a fs" where
  "copy_buf dst src s = bupd dst (bdata_update (\<lambda>m x. if unat x < BSIZE then bdata (bufs s src) x else m x)) s"

primrec install_loop :: "bool \<Rightarrow> nat list \<Rightarrow> 'a fs \<Rightarrow> 'a fs res" where
  "install_loop recovering [] s = Ok s"
| "install_loop recovering (tail # ts) s =
     bind_res (bread (ldev (log s)) (lstart (log s) + of_nat tail + 1) s) (\<lambda>(lbuf, s).
     bind_res (bread (ldev (log s)) (lhblock (log s) tail) s) (\<lambda>(dbuf, s).
     bind_res (bwrite dbuf (copy_buf dbuf lbuf s)) (\<lambda>s.
     let s = (if recovering then s else bunpin dbuf s)
     in bind_res (brelse lbuf s) (\<lambda>s.
        bind_res (brelse dbuf s) (install_loop recovering ts)))))"

definition install_trans :: "bool \<Rightarrow> 'a fs \<Rightarrow> 'a fs res" where
  "install_trans recovering s = install_loop recovering [0..<nat (lhn (log s))] s"

definition read_head :: "'a fs \<Rightarrow> 'a fs res" where
  "read_head s =
     bind_res (bread (ldev (log s)) (lstart (log s)) s) (\<lambda>(b, s).
     let lh = bdata (bufs s b); n = sint (load_le lh 0 4 :: u32);
         s = lupd (\<lambda>l. l\<lparr>lhn := n, lhblock := (\<lambda>i. if i < nat n then load_le lh (4 + 4 * of_nat i) 4 else lhblock l i)\<rparr>) s
     in brelse b s)"

primrec head_blocks :: "(nat \<Rightarrow> u32) \<Rightarrow> nat \<Rightarrow> mem \<Rightarrow> mem" where
  "head_blocks bl 0 m = m"
| "head_blocks bl (Suc i) m = store_le (head_blocks bl i m) (4 + 4 * of_nat i) (bl i) 4"

definition write_head :: "'a fs \<Rightarrow> 'a fs res" where
  "write_head s =
     bind_res (bread (ldev (log s)) (lstart (log s)) s) (\<lambda>(b, s).
     let s = bupd b (bdata_update (\<lambda>m. head_blocks (lhblock (log s)) (nat (lhn (log s)))
                       (store_le m 0 (word_of_int (lhn (log s)) :: u32) 4))) s
     in bind_res (bwrite b s) (brelse b))"

definition recover_from_log :: "'a fs \<Rightarrow> 'a fs res" where
  "recover_from_log s =
     bind_res (read_head s) (\<lambda>s.
     bind_res (install_trans True s) (\<lambda>s.
     write_head (lupd (lhn_update (\<lambda>_. 0)) s)))"

definition initlog :: "u32 \<Rightarrow> 'a fs \<Rightarrow> 'a fs res" where
  "initlog d s = recover_from_log
     (lupd (\<lambda>l. l\<lparr>lstart := logstart (sb s), lsize := sint (nlog (sb s)), ldev := d\<rparr>) s)"

definition begin_op :: "'a fs \<Rightarrow> 'a fs res" where
  "begin_op s =
     (if committing (log s) then blocked
      else if lhn (log s) + (outstanding (log s) + 1) * MAXOPBLOCKS > LOGSIZE then blocked
      else Ok (lupd (\<lambda>l. l\<lparr>outstanding := outstanding l + 1\<rparr>) s))"

primrec write_log_loop :: "nat list \<Rightarrow> 'a fs \<Rightarrow> 'a fs res" where
  "write_log_loop [] s = Ok s"
| "write_log_loop (tail # ts) s =
     bind_res (bread (ldev (log s)) (lstart (log s) + of_nat tail + 1) s) (\<lambda>(to, s).
     bind_res (bread (ldev (log s)) (lhblock (log s) tail) s) (\<lambda>(from1, s).
     bind_res (bwrite to (copy_buf to from1 s)) (\<lambda>s.
     bind_res (brelse from1 s) (\<lambda>s.
     bind_res (brelse to s) (write_log_loop ts)))))"

definition write_log :: "'a fs \<Rightarrow> 'a fs res" where
  "write_log s = write_log_loop [0..<nat (lhn (log s))] s"

definition commit :: "'a fs \<Rightarrow> 'a fs res" where
  "commit s =
     (if lhn (log s) > 0
      then bind_res (write_log s) (\<lambda>s.
           bind_res (write_head s) (\<lambda>s.
           bind_res (install_trans False s) (\<lambda>s.
           write_head (lupd (lhn_update (\<lambda>_. 0)) s))))
      else Ok s)"

definition end_op :: "'a fs \<Rightarrow> 'a fs res" where
  "end_op s =
     (let s = lupd (\<lambda>l. l\<lparr>outstanding := outstanding l - 1\<rparr>) s
      in if committing (log s) then Panic ''log.committing''
         else if outstanding (log s) = 0
         then bind_res (commit (lupd (committing_update (\<lambda>_. True)) s)) (\<lambda>s.
              Ok (wake_chan LogChan (lupd (committing_update (\<lambda>_. False)) s)))
         else Ok (wake_chan LogChan s))"

text \<open>The position of a block in the header, or \<open>lh.n\<close> if it is not logged yet.\<close>

definition log_slot :: "logrec \<Rightarrow> u32 \<Rightarrow> nat" where
  "log_slot l bno = (case find (\<lambda>i. lhblock l i = bno) [0..<nat (lhn l)] of Some i \<Rightarrow> i | None \<Rightarrow> nat (lhn l))"

definition log_write :: "nat \<Rightarrow> 'a fs \<Rightarrow> 'a fs res" where
  "log_write b s =
     (if lhn (log s) \<ge> LOGSIZE \<or> lhn (log s) \<ge> lsize (log s) - 1 then Panic ''too big a transaction''
      else if outstanding (log s) < 1 then Panic ''log_write outside of trans''
      else let i = log_slot (log s) (blockno (bufs s b)); n = nat (lhn (log s));
               s = lupd (\<lambda>l. l\<lparr>lhblock := (lhblock l)(i := blockno (bufs s b))\<rparr>) s
           in if i = n then Ok (lupd (\<lambda>l. l\<lparr>lhn := lhn l + 1\<rparr>) (bpin b s)) else Ok s)"

end
