(* ===== verification/Fs.thy ===== *)
theory Fs
  imports Log
begin

text \<open>
  The file system, \<^verbatim>\<open>kernel/fs.c\<close>.  An inode pointer is an index of the inode table, \<open>None\<close> when
  null.  Path names and path elements are the bytes of the string without the final null.
  Messages that the code prints are left out.
\<close>

section \<open>Blocks\<close>

definition NDIRECT :: nat where "NDIRECT = 12"
definition NINDIRECT :: nat where "NINDIRECT = 256"
definition MAXFILE :: nat where "MAXFILE = NDIRECT + NINDIRECT"
definition BPB :: nat where "BPB = 8192"
definition FSMAGIC :: u32 where "FSMAGIC = 0x10203040"
definition DIRSIZ :: nat where "DIRSIZ = 14"
definition T_DIR :: u16 where "T_DIR = 1"
definition T_FILE :: u16 where "T_FILE = 2"
definition T_DEVICE :: u16 where "T_DEVICE = 3"
definition ROOTINO :: u32 where "ROOTINO = 1"

definition IBLOCK :: "u32 \<Rightarrow> superblock \<Rightarrow> u32" where "IBLOCK i b = i div 16 + inodestart b"
definition BBLOCK :: "u32 \<Rightarrow> superblock \<Rightarrow> u32" where "BBLOCK i b = i div 8192 + bmapstart b"

definition readsb :: "u32 \<Rightarrow> 'a fs \<Rightarrow> 'a fs res" where
  "readsb d s =
     bind_res (bread d 1 s) (\<lambda>(b, s).
     let m = bdata (bufs s b); w = (\<lambda>k. load_le m (4 * k) 4)
     in brelse b (s\<lparr>sb := \<lparr>magic = w 0, fssize = w 1, nblocks = w 2, ninodes = w 3, nlog = w 4,
                            logstart = w 5, inodestart = w 6, bmapstart = w 7\<rparr>\<rparr>))"

definition fsinit :: "u32 \<Rightarrow> 'a fs \<Rightarrow> 'a fs res" where
  "fsinit d s = bind_res (readsb d s) (\<lambda>s.
     if magic (sb s) \<noteq> FSMAGIC then Panic ''invalid file system'' else initlog d s)"

definition bzero :: "u32 \<Rightarrow> u32 \<Rightarrow> 'a fs \<Rightarrow> 'a fs res" where
  "bzero d bno s =
     bind_res (bread d bno s) (\<lambda>(b, s).
     bind_res (log_write b (bupd b (bdata_update (\<lambda>m x. if unat x < BSIZE then 0 else m x)) s)) (brelse b))"

definition bit_mask :: "nat \<Rightarrow> u8" where "bit_mask bi = push_bit (bi mod 8) 1"

definition free_bit :: "mem \<Rightarrow> nat \<Rightarrow> bool" where
  "free_bit m bi \<longleftrightarrow> m (of_nat (bi div 8)) AND bit_mask bi = 0"

text \<open>The outer loop of \<open>balloc\<close>, over the first block \<open>b\<close> that each bitmap block describes.\<close>

primrec balloc_loop :: "u32 \<Rightarrow> nat list \<Rightarrow> 'a fs \<Rightarrow> (u32 \<times> 'a fs) res" where
  "balloc_loop d [] s = Ok (0, s)"
| "balloc_loop d (b # bs) s =
     bind_res (bread d (BBLOCK (of_nat b) (sb s)) s) (\<lambda>(bp, s).
     case find (\<lambda>bi. free_bit (bdata (bufs s bp)) bi) [0..<min BPB (unat (fssize (sb s)) - b)] of
       Some bi \<Rightarrow>
         let s = bupd bp (bdata_update (\<lambda>m. m(of_nat (bi div 8) := m (of_nat (bi div 8)) OR bit_mask bi))) s
         in bind_res (log_write bp s) (\<lambda>s.
            bind_res (brelse bp s) (\<lambda>s.
            bind_res (bzero d (of_nat (b + bi)) s) (\<lambda>s. Ok (of_nat (b + bi), s))))
     | None \<Rightarrow> bind_res (brelse bp s) (balloc_loop d bs))"

definition balloc :: "u32 \<Rightarrow> 'a fs \<Rightarrow> (u32 \<times> 'a fs) res" where
  "balloc d s = balloc_loop d (map (\<lambda>k. k * BPB) [0..<(unat (fssize (sb s)) + BPB - 1) div BPB]) s"

definition bfree :: "u32 \<Rightarrow> u32 \<Rightarrow> 'a fs \<Rightarrow> 'a fs res" where
  "bfree d b s =
     bind_res (bread d (BBLOCK b (sb s)) s) (\<lambda>(bp, s).
     let bi = unat b mod BPB
     in if free_bit (bdata (bufs s bp)) bi then Panic ''freeing free block''
        else let s = bupd bp (bdata_update (\<lambda>m. m(of_nat (bi div 8) := m (of_nat (bi div 8)) AND NOT (bit_mask bi)))) s
             in bind_res (log_write bp s) (brelse bp))"

section \<open>Inodes\<close>

definition iupd :: "nat \<Rightarrow> (inode \<Rightarrow> inode) \<Rightarrow> 'a fs \<Rightarrow> 'a fs" where
  "iupd i f s = s\<lparr>inodes := (inodes s)(i := f (inodes s i))\<rparr>"

definition iinit :: "'a fs \<Rightarrow> 'a fs" where
  "iinit s = s\<lparr>inodes := (\<lambda>i. if i < NINODE then (inodes s i)\<lparr>ilk := initsleeplock\<rparr> else inodes s i)\<rparr>"

definition iget :: "u32 \<Rightarrow> u32 \<Rightarrow> 'a fs \<Rightarrow> (nat \<times> 'a fs) res" where
  "iget d n s =
     (case find (\<lambda>i. iref (inodes s i) > 0 \<and> idev (inodes s i) = d \<and> inum (inodes s i) = n) [0..<NINODE] of
        Some i \<Rightarrow> Ok (i, iupd i (\<lambda>x. x\<lparr>iref := iref x + 1\<rparr>) s)
      | None \<Rightarrow>
         (case find (\<lambda>i. iref (inodes s i) = 0) [0..<NINODE] of
            None \<Rightarrow> Panic ''iget: no inodes''
          | Some i \<Rightarrow> Ok (i, iupd i (\<lambda>x. x\<lparr>idev := d, inum := n, iref := 1, ivalid := False\<rparr>) s)))"

text \<open>The fields of the on-disk inode at offset \<open>o'\<close> of its block.\<close>

definition dinode_off :: "u32 \<Rightarrow> u64" where "dinode_off n = 64 * ucast (n mod 16)"
definition di_type :: "mem \<Rightarrow> u64 \<Rightarrow> u16" where "di_type m o' = load_le m o' 2"

definition di_store :: "inode \<Rightarrow> u64 \<Rightarrow> mem \<Rightarrow> mem" where
  "di_store ip o' m =
     fold (\<lambda>k m. store_le m (o' + 12 + 4 * of_nat k) (addrs ip k) 4) [0..<NDIRECT + 1]
       (store_le (store_le (store_le (store_le (store_le m o' (itype ip) 2) (o' + 2) (imajor ip) 2)
          (o' + 4) (iminor ip) 2) (o' + 6) (nlink ip) 2) (o' + 8) (isize ip) 4)"

definition di_load :: "mem \<Rightarrow> u64 \<Rightarrow> inode \<Rightarrow> inode" where
  "di_load m o' ip = ip\<lparr>itype := load_le m o' 2, imajor := load_le m (o' + 2) 2, iminor := load_le m (o' + 4) 2,
     nlink := load_le m (o' + 6) 2, isize := load_le m (o' + 8) 4,
     addrs := (\<lambda>k. if k \<le> NDIRECT then load_le m (o' + 12 + 4 * of_nat k) 4 else addrs ip k)\<rparr>"

primrec ialloc_loop :: "u32 \<Rightarrow> u16 \<Rightarrow> nat list \<Rightarrow> 'a fs \<Rightarrow> (nat option \<times> 'a fs) res" where
  "ialloc_loop d ty [] s = Ok (None, s)"
| "ialloc_loop d ty (n # ns) s =
     bind_res (bread d (IBLOCK (of_nat n) (sb s)) s) (\<lambda>(b, s).
     let o' = dinode_off (of_nat n)
     in if di_type (bdata (bufs s b)) o' = 0
        then let s = bupd b (bdata_update (\<lambda>m. store_le (\<lambda>x. if unat (x - o') < 64 then 0 else m x) o' ty 2)) s
             in bind_res (log_write b s) (\<lambda>s.
                bind_res (brelse b s) (\<lambda>s.
                bind_res (iget d (of_nat n) s) (\<lambda>(i, s). Ok (Some i, s))))
        else bind_res (brelse b s) (ialloc_loop d ty ns))"

definition ialloc :: "u32 \<Rightarrow> u16 \<Rightarrow> 'a fs \<Rightarrow> (nat option \<times> 'a fs) res" where
  "ialloc d ty s = ialloc_loop d ty [1..<unat (ninodes (sb s))] s"

definition iupdate :: "nat \<Rightarrow> 'a fs \<Rightarrow> 'a fs res" where
  "iupdate i s =
     bind_res (bread (idev (inodes s i)) (IBLOCK (inum (inodes s i)) (sb s)) s) (\<lambda>(b, s).
     let s = bupd b (bdata_update (di_store (inodes s i) (dinode_off (inum (inodes s i))))) s
     in bind_res (log_write b s) (brelse b))"

definition idup :: "nat option \<Rightarrow> 'a fs \<Rightarrow> (nat option \<times> 'a fs) res" where
  "idup ip s = (case ip of None \<Rightarrow> null_deref | Some i \<Rightarrow> Ok (Some i, iupd i (\<lambda>x. x\<lparr>iref := iref x + 1\<rparr>) s))"

definition lock_inode :: "nat \<Rightarrow> 'a fs \<Rightarrow> 'a fs res" where
  "lock_inode i s = acquiresleep (\<lambda>s. ilk (inodes s i)) (\<lambda>l. iupd i (ilk_update (\<lambda>_. l))) s"

definition unlock_inode :: "nat \<Rightarrow> 'a fs \<Rightarrow> 'a fs" where
  "unlock_inode i s = releasesleep (\<lambda>s. ilk (inodes s i)) (\<lambda>l. iupd i (ilk_update (\<lambda>_. l))) (InodeLock i) s"

definition ilock :: "nat \<Rightarrow> 'a fs \<Rightarrow> 'a fs res" where
  "ilock i s =
     (if iref (inodes s i) < 1 then Panic ''ilock''
      else bind_res (lock_inode i s) (\<lambda>s.
        if \<not> ivalid (inodes s i)
        then bind_res (bread (idev (inodes s i)) (IBLOCK (inum (inodes s i)) (sb s)) s) (\<lambda>(b, s).
             let s = iupd i (di_load (bdata (bufs s b)) (dinode_off (inum (inodes s i)))) s
             in bind_res (brelse b s) (\<lambda>s.
                let s = iupd i (ivalid_update (\<lambda>_. True)) s
                in if itype (inodes s i) = 0 then Panic ''ilock: no type'' else Ok s))
        else Ok s))"

definition iunlock :: "nat \<Rightarrow> 'a fs \<Rightarrow> 'a fs res" where
  "iunlock i s =
     (if \<not> holdingsleep (ilk (inodes s i)) s \<or> iref (inodes s i) < 1 then Panic ''iunlock''
      else Ok (unlock_inode i s))"

primrec trunc_direct :: "nat \<Rightarrow> nat list \<Rightarrow> 'a fs \<Rightarrow> 'a fs res" where
  "trunc_direct i [] s = Ok s"
| "trunc_direct i (k # ks) s =
     (if addrs (inodes s i) k \<noteq> 0
      then bind_res (bfree (idev (inodes s i)) (addrs (inodes s i) k) s) (\<lambda>s.
           trunc_direct i ks (iupd i (\<lambda>x. x\<lparr>addrs := (addrs x)(k := 0)\<rparr>) s))
      else trunc_direct i ks s)"

text \<open>\<open>a\<close> is the indirect block, read before the loop and not changed by it.\<close>

primrec trunc_indirect :: "u32 \<Rightarrow> nat \<Rightarrow> nat list \<Rightarrow> 'a fs \<Rightarrow> 'a fs res" where
  "trunc_indirect d b [] s = Ok s"
| "trunc_indirect d b (j # js) s =
     (let a = load_le (bdata (bufs s b)) (4 * of_nat j) 4
      in if a \<noteq> 0 then bind_res (bfree d a s) (trunc_indirect d b js) else trunc_indirect d b js s)"

definition itrunc :: "nat \<Rightarrow> 'a fs \<Rightarrow> 'a fs res" where
  "itrunc i s =
     bind_res (trunc_direct i [0..<NDIRECT] s) (\<lambda>s.
     bind_res (if addrs (inodes s i) NDIRECT \<noteq> 0
               then bind_res (bread (idev (inodes s i)) (addrs (inodes s i) NDIRECT) s) (\<lambda>(b, s).
                    bind_res (trunc_indirect (idev (inodes s i)) b [0..<NINDIRECT] s) (\<lambda>s.
                    bind_res (brelse b s) (\<lambda>s.
                    bind_res (bfree (idev (inodes s i)) (addrs (inodes s i) NDIRECT) s) (\<lambda>s.
                    Ok (iupd i (\<lambda>x. x\<lparr>addrs := (addrs x)(NDIRECT := 0)\<rparr>) s)))))
               else Ok s) (\<lambda>s.
     iupdate i (iupd i (isize_update (\<lambda>_. 0)) s)))"

definition iput :: "nat \<Rightarrow> 'a fs \<Rightarrow> 'a fs res" where
  "iput i s =
     bind_res (if iref (inodes s i) = 1 \<and> ivalid (inodes s i) \<and> nlink (inodes s i) = 0
               then bind_res (lock_inode i s) (\<lambda>s.
                    bind_res (itrunc i s) (\<lambda>s.
                    bind_res (iupdate i (iupd i (itype_update (\<lambda>_. 0)) s)) (\<lambda>s.
                    Ok (unlock_inode i (iupd i (ivalid_update (\<lambda>_. False)) s)))))
               else Ok s) (\<lambda>s.
     Ok (iupd i (\<lambda>x. x\<lparr>iref := iref x - 1\<rparr>) s))"

definition iunlockput :: "nat \<Rightarrow> 'a fs \<Rightarrow> 'a fs res" where
  "iunlockput i s = bind_res (iunlock i s) (iput i)"

section \<open>Inode content\<close>

definition bmap :: "nat \<Rightarrow> u32 \<Rightarrow> 'a fs \<Rightarrow> (u32 \<times> 'a fs) res" where
  "bmap i bn s =
     (let d = idev (inodes s i); n = unat bn
      in if n < NDIRECT
         then (if addrs (inodes s i) n = 0
               then bind_res (balloc d s) (\<lambda>(a, s).
                    if a = 0 then Ok (0, s) else Ok (a, iupd i (\<lambda>x. x\<lparr>addrs := (addrs x)(n := a)\<rparr>) s))
               else Ok (addrs (inodes s i) n, s))
         else if n - NDIRECT < NINDIRECT
         then bind_res (if addrs (inodes s i) NDIRECT = 0
                        then bind_res (balloc d s) (\<lambda>(a, s).
                             if a = 0 then Ok (0, s) else Ok (a, iupd i (\<lambda>x. x\<lparr>addrs := (addrs x)(NDIRECT := a)\<rparr>) s))
                        else Ok (addrs (inodes s i) NDIRECT, s)) (\<lambda>(ind, s).
              if ind = 0 then Ok (0, s)
              else bind_res (bread d ind s) (\<lambda>(b, s).
                   let o' = 4 * of_nat (n - NDIRECT); a = load_le (bdata (bufs s b)) o' 4
                   in bind_res (if a = 0
                                then bind_res (balloc d s) (\<lambda>(a, s).
                                     if a \<noteq> 0
                                     then bind_res (log_write b (bupd b (bdata_update (\<lambda>m. store_le m o' a 4)) s)) (\<lambda>s. Ok (a, s))
                                     else Ok (0, s))
                                else Ok (a, s)) (\<lambda>(a, s).
                      bind_res (brelse b s) (\<lambda>s. Ok (a, s)))))
         else Panic ''bmap: out of range'')"

text \<open>\<open>sta\<close> is the address of a \<open>struct stat\<close> in kernel memory.\<close>

definition stati :: "nat \<Rightarrow> u64 \<Rightarrow> 'a fs \<Rightarrow> 'a fs" where
  "stati i sta s = (let x = inodes s i in
     s\<lparr>pm := store_le (store_le (store_le (store_le (store_le (pm s) sta (idev x) 4) (sta + 4) (inum x) 4)
               (sta + 8) (itype x) 2) (sta + 10) (nlink x) 2) (sta + 16) (ucast (isize x) :: u64) 8\<rparr>)"

text \<open>The bytes of the current block that a transfer of \<open>n - tot\<close> more bytes at \<open>off\<close> covers.\<close>

definition span :: "u32 \<Rightarrow> u32 \<Rightarrow> u32 \<Rightarrow> u32" where
  "span n tot off = (let a = n - tot; b = 1024 - off mod 1024 in if a < b then a else b)"

lemma unat_span: "unat (span n tot off) = min (unat (n - tot)) (1024 - unat off mod 1024)"
proof -
  have "off mod 1024 \<le> 1024" by (simp add: word_le_nat_alt unat_mod less_imp_le)
  then have "unat (1024 - off mod 1024) = 1024 - unat off mod 1024" by (simp add: unat_sub unat_mod)
  then show ?thesis by (auto simp: span_def Let_def word_less_nat_alt)
qed

lemma span_add:
  assumes "tot < n"
  shows "unat (tot + span n tot off) = unat tot + unat (span n tot off)" "0 < unat (span n tot off)"
    "unat tot + unat (span n tot off) \<le> unat n"
proof -
  have t: "unat tot < unat n" using assms by (simp add: word_less_nat_alt)
  have d: "unat (n - tot) = unat n - unat tot" using assms by (simp add: unat_sub less_imp_le)
  show "0 < unat (span n tot off)" "unat tot + unat (span n tot off) \<le> unat n"
    using t by (simp_all add: unat_span d)
  then show "unat (tot + span n tot off) = unat tot + unat (span n tot off)"
    using unsigned_less[of n, where 'a = nat] by (simp add: unat_word_ariths)
qed

lemma span_progress: "tot < n \<Longrightarrow> unat n - unat (tot + span n tot off) < unat n - unat tot"
  using span_add[of tot n off] by (simp add: word_less_nat_alt)

function readi_loop :: "nat \<Rightarrow> bool \<Rightarrow> u64 \<Rightarrow> u32 \<Rightarrow> u32 \<Rightarrow> u32 \<Rightarrow> 'a fs \<Rightarrow> (u32 \<times> 'a fs) res" where
  "readi_loop i user_dst dst off n tot s =
     (if tot < n
      then bind_res (bmap i (off div 1024) s) (\<lambda>(addr, s).
        if addr = 0 then Ok (tot, s)
        else bind_res (bread (idev (inodes s i)) addr s) (\<lambda>(b, s).
          let m = span n tot off; o' = ucast (off mod 1024)
          in bind_res (either_copyout (mypt s) user_dst dst (buf_at s b + o') (ucast m)
                         (spill (buf_at s b) (bdata (bufs s b)) 0 BSIZE s)) (\<lambda>(r, s).
             bind_res (brelse b s) (\<lambda>s.
             if r = -1 then Ok (-1, s)
             else readi_loop i user_dst (dst + ucast m) (off + m) n (tot + m) s))))
      else Ok (tot, s))"
  by pat_completeness auto
termination
  by (relation "measure (\<lambda>(i, u, dst, off, n, tot, s). unat n - unat tot)") (auto simp: span_progress)

declare readi_loop.simps [simp del]

definition readi :: "nat \<Rightarrow> bool \<Rightarrow> u64 \<Rightarrow> u32 \<Rightarrow> u32 \<Rightarrow> 'a fs \<Rightarrow> (u32 \<times> 'a fs) res" where
  "readi i user_dst dst off n s =
     (let sz = isize (inodes s i)
      in if off > sz \<or> off + n < off then Ok (0, s)
         else readi_loop i user_dst dst off (if off + n > sz then sz - off else n) 0 s)"

text \<open>The loop of \<open>writei\<close> returns \<open>tot\<close> and \<open>off\<close>.\<close>

function writei_loop :: "nat \<Rightarrow> bool \<Rightarrow> u64 \<Rightarrow> u32 \<Rightarrow> u32 \<Rightarrow> u32 \<Rightarrow> 'a fs \<Rightarrow> (u32 \<times> u32 \<times> 'a fs) res" where
  "writei_loop i user_src src off n tot s =
     (if tot < n
      then bind_res (bmap i (off div 1024) s) (\<lambda>(addr, s).
        if addr = 0 then Ok (tot, off, s)
        else bind_res (bread (idev (inodes s i)) addr s) (\<lambda>(b, s).
          let m = span n tot off; o' = ucast (off mod 1024)
          in bind_res (either_copyin (mypt s) (buf_at s b + o') user_src src (ucast m)
                         (spill (buf_at s b) (bdata (bufs s b)) 0 BSIZE s)) (\<lambda>(r, s).
             let s = bupd b (bdata_update (\<lambda>d. fill d 0 (buf_at s b) BSIZE s)) s
             in if r = -1 then bind_res (brelse b s) (\<lambda>s. Ok (tot, off, s))
                else bind_res (log_write b s) (\<lambda>s.
                     bind_res (brelse b s) (\<lambda>s.
                     writei_loop i user_src (src + ucast m) (off + m) n (tot + m) s)))))
      else Ok (tot, off, s))"
  by pat_completeness auto
termination
  by (relation "measure (\<lambda>(i, u, src, off, n, tot, s). unat n - unat tot)") (auto simp: span_progress)

declare writei_loop.simps [simp del]

definition writei :: "nat \<Rightarrow> bool \<Rightarrow> u64 \<Rightarrow> u32 \<Rightarrow> u32 \<Rightarrow> 'a fs \<Rightarrow> (u32 \<times> 'a fs) res" where
  "writei i user_src src off n s =
     (if off > isize (inodes s i) \<or> off + n < off then Ok (-1, s)
      else if off + n > of_nat (MAXFILE * BSIZE) then Ok (-1, s)
      else bind_res (writei_loop i user_src src off n 0 s) (\<lambda>(tot, off, s).
        let s = (if off > isize (inodes s i) then iupd i (isize_update (\<lambda>_. off)) s else s)
        in bind_res (iupdate i s) (\<lambda>s. Ok (tot, s))))"

section \<open>Directories\<close>

text \<open>\<open>strncmp\<close> on strings given by their bytes; past its end a string reads as null.\<close>

fun strncmp_bytes :: "u8 list \<Rightarrow> u8 list \<Rightarrow> nat \<Rightarrow> int" where
  "strncmp_bytes p q 0 = 0"
| "strncmp_bytes [] [] (Suc n) = 0"
| "strncmp_bytes [] (b # q) (Suc n) = - uint b"
| "strncmp_bytes (a # p) [] (Suc n) = uint a"
| "strncmp_bytes (a # p) (b # q) (Suc n) = (if a = b then strncmp_bytes p q n else uint a - uint b)"

definition namecmp :: "u8 list \<Rightarrow> u8 list \<Rightarrow> int" where
  "namecmp p q = strncmp_bytes p q DIRSIZ"

text \<open>The entry \<open>de\<close> in kernel memory: its number and its name up to the first null.\<close>

definition de_inum :: "mem \<Rightarrow> u64 \<Rightarrow> u16" where "de_inum m a = load_le m a 2"
definition de_name :: "mem \<Rightarrow> u64 \<Rightarrow> u8 list" where
  "de_name m a = takeWhile (\<lambda>c. c \<noteq> 0) (map (\<lambda>k. m (a + 2 + of_nat k)) [0..<DIRSIZ])"

definition dir_offs :: "u32 \<Rightarrow> u32 list" where
  "dir_offs size1 = map (\<lambda>k. of_nat (16 * k)) [0..<(unat size1 + 15) div 16]"

primrec dirlookup_loop :: "nat \<Rightarrow> u8 list \<Rightarrow> u32 list \<Rightarrow> 'a fs \<Rightarrow> ((nat \<times> u32) option \<times> 'a fs) res" where
  "dirlookup_loop dp name1 [] s = Ok (None, s)"
| "dirlookup_loop dp name1 (off # offs) s =
     (let de = obj_at s ''dirlookup.de''
      in bind_res (readi dp False de off 16 s) (\<lambda>(r, s).
         if r \<noteq> 16 then Panic ''dirlookup read''
         else if de_inum (pm s) de = 0 then dirlookup_loop dp name1 offs s
         else if namecmp name1 (de_name (pm s) de) = 0
         then bind_res (iget (idev (inodes s dp)) (ucast (de_inum (pm s) de)) s) (\<lambda>(i, s). Ok (Some (i, off), s))
         else dirlookup_loop dp name1 offs s))"

text \<open>The result carries the entry's offset, which the code stores through \<open>poff\<close> if that is not null.\<close>

definition dirlookup :: "nat \<Rightarrow> u8 list \<Rightarrow> 'a fs \<Rightarrow> ((nat \<times> u32) option \<times> 'a fs) res" where
  "dirlookup dp name1 s =
     (if itype (inodes s dp) \<noteq> T_DIR then Panic ''dirlookup not DIR''
      else dirlookup_loop dp name1 (dir_offs (isize (inodes s dp))) s)"

text \<open>The first offset whose entry is empty, or the offset after the last entry.\<close>

primrec empty_slot :: "nat \<Rightarrow> u32 \<Rightarrow> u32 list \<Rightarrow> 'a fs \<Rightarrow> (u32 \<times> 'a fs) res" where
  "empty_slot dp off1 [] s = Ok (off1, s)"
| "empty_slot dp off1 (off # offs) s =
     (let de = obj_at s ''dirlink.de''
      in bind_res (readi dp False de off 16 s) (\<lambda>(r, s).
         if r \<noteq> 16 then Panic ''dirlink read''
         else if de_inum (pm s) de = 0 then Ok (off, s) else empty_slot dp (off + 16) offs s))"

definition put_dirent :: "u64 \<Rightarrow> u8 list \<Rightarrow> u16 \<Rightarrow> 'a fs \<Rightarrow> 'a fs" where
  "put_dirent a name1 n s = s\<lparr>pm := store_le (\<lambda>x. if 2 \<le> unat (x - a) \<and> unat (x - a) < 16
     then (let k = unat (x - a) - 2 in if k < length name1 then name1 ! k else 0) else pm s x) a n 2\<rparr>"

definition dirlink :: "nat \<Rightarrow> u8 list \<Rightarrow> u32 \<Rightarrow> 'a fs \<Rightarrow> (int \<times> 'a fs) res" where
  "dirlink dp name1 n s =
     bind_res (dirlookup dp name1 s) (\<lambda>(r, s).
     case r of
       Some (ip, _) \<Rightarrow> bind_res (iput ip s) (\<lambda>s. Ok (-1, s))
     | None \<Rightarrow>
         bind_res (empty_slot dp 0 (dir_offs (isize (inodes s dp))) s) (\<lambda>(off, s).
         let de = obj_at s ''dirlink.de''
         in bind_res (writei dp False de off 16 (put_dirent de name1 (ucast n) s)) (\<lambda>(r, s).
            if r \<noteq> 16 then Ok (-1, s) else Ok (0, s))))"

section \<open>Paths\<close>

definition SLASH :: u8 where "SLASH = 47"

text \<open>The next path element, cut to \<open>DIRSIZ\<close> bytes, and the rest of the path.\<close>

definition skipelem :: "u8 list \<Rightarrow> (u8 list \<times> u8 list) option" where
  "skipelem path =
     (let path = dropWhile (\<lambda>c. c = SLASH) path
      in if path = [] then None
         else let elem = takeWhile (\<lambda>c. c \<noteq> SLASH) path; path = dropWhile (\<lambda>c. c \<noteq> SLASH) path
              in Some (take DIRSIZ elem, dropWhile (\<lambda>c. c = SLASH) path))"

lemma skipelem_shorter: "skipelem path = Some (e, rest) \<Longrightarrow> length rest < length path"
proof -
  assume a: "skipelem path = Some (e, rest)"
  define p where "p = dropWhile (\<lambda>c. c = SLASH) path"
  from a have p: "p \<noteq> []" "rest = dropWhile (\<lambda>c. c = SLASH) (dropWhile (\<lambda>c. c \<noteq> SLASH) p)"
    by (auto simp: skipelem_def p_def Let_def split: if_splits)
  then have "hd p \<noteq> SLASH" unfolding p_def using hd_dropWhile by blast
  then have "length (dropWhile (\<lambda>c. c \<noteq> SLASH) p) < length p"
    using p(1) by (cases p) (auto simp: le_imp_less_Suc length_dropWhile_le)
  moreover have "length rest \<le> length (dropWhile (\<lambda>c. c \<noteq> SLASH) p)" by (simp add: p(2) length_dropWhile_le)
  moreover have "length p \<le> length path" by (simp add: p_def length_dropWhile_le)
  ultimately show ?thesis by linarith
qed

text \<open>\<open>namex\<close> from inode \<open>ip\<close> on; \<open>name1\<close> is the last element copied into \<open>name\<close>.\<close>

function namex_loop :: "nat \<Rightarrow> u8 list \<Rightarrow> bool \<Rightarrow> u8 list \<Rightarrow> 'a fs \<Rightarrow> (nat option \<times> u8 list \<times> 'a fs) res" where
  "namex_loop ip path nameiparent name1 s =
     (case skipelem path of
        None \<Rightarrow>
          if nameiparent then bind_res (iput ip s) (\<lambda>s. Ok (None, name1, s)) else Ok (Some ip, name1, s)
      | Some (elem, rest) \<Rightarrow>
          bind_res (ilock ip s) (\<lambda>s.
          if itype (inodes s ip) \<noteq> T_DIR then bind_res (iunlockput ip s) (\<lambda>s. Ok (None, elem, s))
          else if nameiparent \<and> rest = [] then bind_res (iunlock ip s) (\<lambda>s. Ok (Some ip, elem, s))
          else bind_res (dirlookup ip elem s) (\<lambda>(r, s).
            case r of
              None \<Rightarrow> bind_res (iunlockput ip s) (\<lambda>s. Ok (None, elem, s))
            | Some (next, _) \<Rightarrow>
                bind_res (iunlockput ip s) (\<lambda>s. namex_loop next rest nameiparent elem s))))"
  by pat_completeness auto
termination
  by (relation "measure (\<lambda>(ip, path, np, nm, s). length path)") (auto simp: skipelem_shorter)

declare namex_loop.simps [simp del]

definition namex :: "u8 list \<Rightarrow> bool \<Rightarrow> 'a fs \<Rightarrow> (nat option \<times> u8 list \<times> 'a fs) res" where
  "namex path nameiparent s =
     bind_res (if path \<noteq> [] \<and> hd path = SLASH
               then bind_res (iget ROOTDEV ROOTINO s) (\<lambda>(i, s). Ok (Some i, s))
               else idup (cwd (procs s (cur s))) s) (\<lambda>(ip, s).
     case ip of None \<Rightarrow> null_deref | Some i \<Rightarrow> namex_loop i path nameiparent [] s)"

definition namei :: "u8 list \<Rightarrow> 'a fs \<Rightarrow> (nat option \<times> 'a fs) res" where
  "namei path s = bind_res (namex path False s) (\<lambda>(ip, _, s). Ok (ip, s))"

definition nameiparent :: "u8 list \<Rightarrow> 'a fs \<Rightarrow> (nat option \<times> u8 list \<times> 'a fs) res" where
  "nameiparent path s = namex path True s"

end
