(* ===== verification/Sched.thy ===== *)
theory Sched
  imports Proc "HOL-Library.Product_Lexorder"
begin

text \<open>
  The scheduler of \<^verbatim>\<open>kernel/proc.c\<close> in its five builds.  One round of its loop reads the process
  table, may pick a process and runs it.  What the machine does from the switch to a process until
  the switch back is the argument \<open>swtch\<close>.
\<close>

section \<open>Random numbers and dynamic priority\<close>

definition rand :: "'a ps \<Rightarrow> u32 \<times> 'a ps" where
  "rand s = (let n = nxt s * 1103515245 + 12345
             in ((ucast (n div 65536) :: u32) mod 32768, s\<lparr>nxt := n\<rparr>))"

definition srand :: "u32 \<Rightarrow> 'a ps \<Rightarrow> 'a ps" where
  "srand seed s = (if seed = 0 then s\<lparr>nxt := ucast seed\<rparr> else s)"

definition getDP :: "proc \<Rightarrow> int" where
  "getDP p = (let dp = sint (priority p - niceness p + 5);
                  dp = (if dp > 100 then 100 else dp)
              in if dp < 0 then 0 else dp)"

text \<open>C remainder of \<open>int\<close>s; by zero it is the dividend, as the machine computes it.\<close>

definition c_rem :: "u32 \<Rightarrow> u32 \<Rightarrow> u32" where
  "c_rem a b = word_of_int (sint a smod sint b)"

section \<open>Picking a process\<close>

text \<open>The scan all builds but LBS and RR share: keep the best ready process seen so far.\<close>

primrec scan :: "(nat \<Rightarrow> bool) \<Rightarrow> (nat \<Rightarrow> nat \<Rightarrow> bool) \<Rightarrow> nat list \<Rightarrow> nat option \<Rightarrow> nat option" where
  "scan ready better [] best = best"
| "scan ready better (p # ps) best =
     scan ready better ps
       (if ready p \<and> (case best of None \<Rightarrow> True | Some m \<Rightarrow> better p m) then Some p else best)"

definition runnable :: "'a ps \<Rightarrow> nat \<Rightarrow> bool" where
  "runnable s p \<longleftrightarrow> pstate (procs s p) = RUNNABLE"

definition fcfs_better :: "'a ps \<Rightarrow> nat \<Rightarrow> nat \<Rightarrow> bool" where
  "fcfs_better s p m \<longleftrightarrow> sint (createTime (procs s p)) < sint (createTime (procs s m))"

definition fcfs_pick :: "'a ps \<Rightarrow> nat option" where
  "fcfs_pick s = scan (runnable s) (fcfs_better s) [0..<NPROC] None"

definition pbs_better :: "'a ps \<Rightarrow> nat \<Rightarrow> nat \<Rightarrow> bool" where
  "pbs_better s p m =
     (let newDp = getDP (procs s p); maxDp = getDP (procs s m)
      in if newDp < maxDp then True
         else if newDp = maxDp then
           (if sint (timesScheduled (procs s p)) < sint (timesScheduled (procs s m)) then True
            else if timesScheduled (procs s p) = timesScheduled (procs s m)
                 then sint (createTime (procs s p)) < sint (createTime (procs s m))
                 else False)
         else False)"

definition pbs_pick :: "'a ps \<Rightarrow> nat option" where
  "pbs_pick s = scan (runnable s) (pbs_better s) [0..<NPROC] None"

definition in_queue :: "'a ps \<Rightarrow> u32 \<Rightarrow> nat \<Rightarrow> bool" where
  "in_queue s q p \<longleftrightarrow> pstate (procs s p) = RUNNABLE \<and> queue (procs s p) = q"

definition mlfq_better :: "'a ps \<Rightarrow> nat \<Rightarrow> nat \<Rightarrow> bool" where
  "mlfq_better s p m =
     (if sint (queue (procs s p)) < sint (queue (procs s m)) then True
      else if queue (procs s p) = queue (procs s m)
           then sint (entryTime (procs s p)) < sint (entryTime (procs s m)) else False)"

definition mlfq_pick :: "'a ps \<Rightarrow> nat option" where
  "mlfq_pick s =
     (let look = (\<lambda>q. scan (in_queue s q) (mlfq_better s) [0..<NPROC] None)
      in case look 0 of Some p \<Rightarrow> Some p | None \<Rightarrow>
         (case look 1 of Some p \<Rightarrow> Some p | None \<Rightarrow>
         (case look 2 of Some p \<Rightarrow> Some p | None \<Rightarrow> look 3)))"

primrec total_tickets :: "'a ps \<Rightarrow> nat list \<Rightarrow> u32 \<Rightarrow> u32" where
  "total_tickets s [] acc = acc"
| "total_tickets s (p # ps) acc =
     total_tickets s ps (if runnable s p then acc + tickets (procs s p) else acc)"

primrec draw :: "'a ps \<Rightarrow> nat list \<Rightarrow> u32 \<Rightarrow> nat option" where
  "draw s [] random = None"
| "draw s (p # ps) random =
     (if runnable s p
      then let random = random - tickets (procs s p)
           in if sint random < 0 then Some p else draw s ps random
      else draw s ps random)"

definition lbs_pick :: "'a ps \<Rightarrow> nat option \<times> 'a ps" where
  "lbs_pick s =
     (let totalTickets = total_tickets s [0..<NPROC] 0; (r, s) = rand s
      in (draw s [0..<NPROC] (c_rem r totalTickets), s))"

section \<open>The queues of MLFQ\<close>

definition demote1 :: "u32 \<Rightarrow> proc \<Rightarrow> proc" where
  "demote1 now x =
     (if pstate x = RUNNING \<or> pstate x = RUNNABLE
      then let limit = (if queue x = 0 then 1 else if queue x = 1 then 2 else if queue x = 2 then 4
                        else if queue x = 3 then 8 else 16)
           in if sint (timeRanInQueue x) \<ge> limit \<and> sint (queue x) < 4
              then x\<lparr>queue := queue x + 1, entryTime := now, timeRanInQueue := 0\<rparr> else x
      else x)"

definition demote :: "'a ps \<Rightarrow> 'a ps" where
  "demote s = s\<lparr>procs := (\<lambda>p. if p < NPROC then demote1 (ticks s) (procs s p) else procs s p)\<rparr>"

definition age1 :: "u32 \<Rightarrow> proc \<Rightarrow> proc" where
  "age1 now x =
     (if (pstate x = RUNNABLE \<or> pstate x = SLEEPING) \<and> queue x \<noteq> 0
      then let limit = (if queue x = 1 then 40 else if queue x = 2 then 30 else if queue x = 3 then 25 else 20);
               waitTime = sint (now - entryTime x - timeRanInQueue x)
           in if waitTime \<ge> limit
              then x\<lparr>queue := queue x - 1, timeRanInQueue := 0, entryTime := now\<rparr> else x
      else x)"

definition age :: "'a ps \<Rightarrow> 'a ps" where
  "age s = s\<lparr>procs := (\<lambda>p. if p < NPROC then age1 (ticks s) (procs s p) else procs s p)\<rparr>"

section \<open>One round of the scheduler\<close>

text \<open>Under the lock of \<open>p\<close>: run it if it is still runnable; \<open>f\<close> sets the fields the build sets.\<close>

definition dispatch :: "(nat \<Rightarrow> 'a ps \<Rightarrow> 'a ps) \<Rightarrow> (u32 \<Rightarrow> proc \<Rightarrow> proc) \<Rightarrow> nat \<Rightarrow> 'a ps \<Rightarrow> 'a ps" where
  "dispatch swtch f p s =
     (if runnable s p then swtch p (pupd p (\<lambda>x. f (ticks s) (x\<lparr>pstate := RUNNING\<rparr>)) s) else s)"

definition mark :: "u32 \<Rightarrow> proc \<Rightarrow> proc" where
  "mark now x = x\<lparr>lastScheduled := now\<rparr>"

definition rr_round :: "(nat \<Rightarrow> 'a ps \<Rightarrow> 'a ps) \<Rightarrow> 'a ps \<Rightarrow> 'a ps" where
  "rr_round swtch s = fold (dispatch swtch mark) [0..<NPROC] s"

definition fcfs_round :: "(nat \<Rightarrow> 'a ps \<Rightarrow> 'a ps) \<Rightarrow> 'a ps \<Rightarrow> 'a ps" where
  "fcfs_round swtch s = (case fcfs_pick s of None \<Rightarrow> s | Some p \<Rightarrow> dispatch swtch mark p s)"

definition lbs_round :: "(nat \<Rightarrow> 'a ps \<Rightarrow> 'a ps) \<Rightarrow> 'a ps \<Rightarrow> 'a ps" where
  "lbs_round swtch s =
     (let (w, s) = lbs_pick s in case w of None \<Rightarrow> s | Some p \<Rightarrow> dispatch swtch mark p s)"

definition pbs_round :: "(nat \<Rightarrow> 'a ps \<Rightarrow> 'a ps) \<Rightarrow> 'a ps \<Rightarrow> 'a ps" where
  "pbs_round swtch s = (case pbs_pick s of None \<Rightarrow> s | Some p \<Rightarrow>
     dispatch swtch (\<lambda>now x. x\<lparr>timesScheduled := timesScheduled x + 1, lastScheduled := now\<rparr>) p s)"

definition mlfq_round :: "(nat \<Rightarrow> 'a ps \<Rightarrow> 'a ps) \<Rightarrow> 'a ps \<Rightarrow> 'a ps" where
  "mlfq_round swtch s =
     (let s = age (demote s)
      in case mlfq_pick s of
           Some p \<Rightarrow> dispatch swtch mark p s
         | None \<Rightarrow> fold (\<lambda>p s. if queue (procs s p) = 4 then dispatch swtch (\<lambda>now x. x) p s else s)
                        [0..<NPROC] s)"

datatype policy = RR | FCFS | LBS | PBS | MLFQ

definition scheduler :: "policy \<Rightarrow> (nat \<Rightarrow> 'a ps \<Rightarrow> 'a ps) \<Rightarrow> 'a ps \<Rightarrow> 'a ps" where
  "scheduler pol swtch s =
     (let s = srand (ticks s) s
      in case pol of RR \<Rightarrow> rr_round swtch s | FCFS \<Rightarrow> fcfs_round swtch s | LBS \<Rightarrow> lbs_round swtch s
         | PBS \<Rightarrow> pbs_round swtch s | MLFQ \<Rightarrow> mlfq_round swtch s)"

section \<open>The scan finds the first best process\<close>

text \<open>A build's scan is correct when its comparison is the strict order of a key.\<close>

definition best_of :: "(nat \<Rightarrow> bool) \<Rightarrow> (nat \<Rightarrow> 'k::linorder) \<Rightarrow> nat set \<Rightarrow> nat \<Rightarrow> bool" where
  "best_of ready key A p \<longleftrightarrow>
     p \<in> A \<and> ready p \<and> (\<forall>q\<in>A. ready q \<longrightarrow> key p < key q \<or> (key p = key q \<and> p \<le> q))"

locale picker =
  fixes ready :: "nat \<Rightarrow> bool" and better :: "nat \<Rightarrow> nat \<Rightarrow> bool" and key :: "nat \<Rightarrow> 'k::linorder"
  assumes better_key: "ready p \<Longrightarrow> ready m \<Longrightarrow> better p m \<longleftrightarrow> key p < key m"
begin

lemma scan_step:
  assumes "case best of None \<Rightarrow> \<forall>q<n. \<not> ready q | Some m \<Rightarrow> best_of ready key {..<n} m"
  shows "case scan ready better [n..<n + k] best of
           None \<Rightarrow> \<forall>q<n + k. \<not> ready q | Some m \<Rightarrow> best_of ready key {..<n + k} m"
  using assms
proof (induction k arbitrary: n best)
  case 0
  then show ?case by (cases best) auto
next
  case (Suc k)
  have up: "[n..<n + Suc k] = n # [Suc n..<Suc n + k]" by (simp add: upt_conv_Cons)
  let ?b = "if ready n \<and> (case best of None \<Rightarrow> True | Some m \<Rightarrow> better n m) then Some n else best"
  have "case ?b of None \<Rightarrow> \<forall>q<Suc n. \<not> ready q | Some m \<Rightarrow> best_of ready key {..<Suc n} m"
    using Suc.prems
    by (cases best) (fastforce simp: best_of_def less_Suc_eq better_key not_less split: option.splits)+
  from Suc.IH[OF this] show ?case unfolding up scan.simps add_Suc_shift .
qed

lemma scan_best:
  "case scan ready better [0..<n] None of
     None \<Rightarrow> \<forall>q<n. \<not> ready q | Some m \<Rightarrow> best_of ready key {..<n} m"
  using scan_step[where n = 0 and best = None and k = n] by (simp cong: option.case_cong)

lemma scan_Some:
  assumes "scan ready better [0..<n] None = Some p"
  shows "p < n" "ready p" "q < n \<Longrightarrow> ready q \<Longrightarrow> key p < key q \<or> (key p = key q \<and> p \<le> q)"
  using scan_best[of n] assms by (auto simp: best_of_def)

lemma scan_None_iff: "scan ready better [0..<n] None = None \<longleftrightarrow> (\<forall>q<n. \<not> ready q)"
  using scan_best[of n] by (auto simp: best_of_def split: option.splits)

lemma scan_iff: "scan ready better [0..<n] None = Some p \<longleftrightarrow> best_of ready key {..<n} p"
proof
  show "scan ready better [0..<n] None = Some p \<Longrightarrow> best_of ready key {..<n} p"
    using scan_best[of n] by simp
next
  assume b: "best_of ready key {..<n} p"
  then have "scan ready better [0..<n] None \<noteq> None" by (auto simp: scan_None_iff best_of_def)
  then obtain m where m: "scan ready better [0..<n] None = Some m" by blast
  then have "best_of ready key {..<n} m" using scan_best[of n] by simp
  with b have "m = p" unfolding best_of_def by (metis less_irrefl less_trans le_antisym)
  with m show "scan ready better [0..<n] None = Some p" by simp
qed

end

lemma sint_eq_iff: "sint a = sint b \<longleftrightarrow> a = b"
  by (auto intro: signed_word_eqI)

interpretation fcfs: picker "runnable s" "fcfs_better s" "\<lambda>p. sint (createTime (procs s p))" for s :: "'a ps"
  by unfold_locales (simp add: fcfs_better_def)

text \<open>What PBS compares, in this order.\<close>

definition pbs_key :: "'a ps \<Rightarrow> nat \<Rightarrow> int \<times> int \<times> int" where
  "pbs_key s p = (getDP (procs s p), sint (timesScheduled (procs s p)), sint (createTime (procs s p)))"

interpretation pbs: picker "runnable s" "pbs_better s" "pbs_key s" for s :: "'a ps"
  by unfold_locales (auto simp: pbs_key_def pbs_better_def Let_def less_prod_def' sint_eq_iff)

lemma fcfs_pick_iff: "fcfs_pick s = Some p \<longleftrightarrow> best_of (runnable s) (\<lambda>p. sint (createTime (procs s p))) {..<NPROC} p"
  unfolding fcfs_pick_def by (rule fcfs.scan_iff)

interpretation mlfq: picker "in_queue s q" "mlfq_better s" "\<lambda>p. sint (entryTime (procs s p))" for s :: "'a ps" and q
  by unfold_locales (auto simp: mlfq_better_def in_queue_def)

text \<open>A small system, given by the first entries of its process table.\<close>

definition blank_proc :: proc where
  "blank_proc = \<lparr>pstate = UNUSED, chan = NoChan, killed_flag = 0, xstate = 0, pid = 0, createTime = 0, priority = 60,
     timesScheduled = 0, niceness = 5, tickets = 1, lastSlept = -1, lastScheduled = 0, timeSlept = 0, timeRun = 0,
     tracemask = 0, alarmFreq = 0, alarmHandler = 0, lastAlarm = 0, alarmRunning = 0, parent = None, kstack = 0,
     sz = 0, pagetable = 0, trapframe = 0, backupTrapFrame = 0, ctx = \<lparr>ra = 0, sp = 0, sregs = (\<lambda>_. 0)\<rparr>,
     ofile = (\<lambda>_. None), cwd = None, name = [], rtime = 0, ctime = 0, etime = 0, queue = 0, entryTime = 0,
     timeRanInQueue = 0\<rparr>"

definition table_of :: "proc list \<Rightarrow> nat \<Rightarrow> proc" where
  "table_of xs i = (if i < length xs then xs ! i else blank_proc)"

definition demo_sys :: "proc list \<Rightarrow> pst" where
  "demo_sys xs = \<lparr>pm = (\<lambda>_. 0), freelist = 0, refs = (\<lambda>_. 0), kend = 0, procs = table_of xs,
     initproc = Some 0, nextpid = 5, ticks = 100, nxt = 1, trampoline = 0, forkret_addr = 0, initcode = 0,
     xstate_at = (\<lambda>_. 0)\<rparr>"

section \<open>FCFS, PBS and MLFQ pick the right process\<close>

text \<open>C14: In the FCFS build the scheduler picks a runnable process with the smallest creation time, the
  first in the table among equals, and picks none only when no process is runnable.\<close>

theorem fcfs_picks_oldest:
  "fcfs_pick s = Some p \<longleftrightarrow>
     p < NPROC \<and> runnable s p \<and>
     (\<forall>q<NPROC. runnable s q \<longrightarrow>
        sint (createTime (procs s p)) < sint (createTime (procs s q)) \<or>
        createTime (procs s p) = createTime (procs s q) \<and> p \<le> q)"
  unfolding fcfs_pick_iff by (auto simp: best_of_def sint_eq_iff)

definition demo_old :: "proc list" where
  "demo_old = [blank_proc\<lparr>pstate := SLEEPING\<rparr>, blank_proc\<lparr>pstate := RUNNABLE, createTime := 9\<rparr>,
     blank_proc\<lparr>pstate := RUNNABLE, createTime := 4, priority := 70\<rparr>]"

lemma demo_old_facts:
  "fcfs_pick (demo_sys demo_old) = Some 2" "pbs_pick (demo_sys demo_old) = Some 1"
  "runnable (demo_sys demo_old) 1" "runnable (demo_sys demo_old) 2"
  by code_simp+

theorem fcfs_picks_oldest_witness:
  "fcfs_pick (demo_sys demo_old) = Some 2 \<and>
   sint (createTime (procs (demo_sys demo_old) 2)) < sint (createTime (procs (demo_sys demo_old) 1))"
proof -
  have "1 < NPROC" "\<not> (2::nat) \<le> 1" by (simp_all add: NPROC_def)
  with fcfs_picks_oldest[of "demo_sys demo_old" 2] demo_old_facts show ?thesis by blast
qed

lemma getDP_bounds: "0 \<le> getDP x" "getDP x \<le> 100"
  by (auto simp: getDP_def Let_def)

text \<open>C15: In the PBS build the dynamic priority of every process is between 0 and 100, whatever its
  fields hold, and the scheduler picks a runnable process that is least in dynamic priority, then in
  the number of times it was scheduled, then in creation time, then in table position.\<close>

theorem pbs_picks_highest_priority:
  "(\<forall>p. 0 \<le> getDP (procs s p) \<and> getDP (procs s p) \<le> 100) \<and>
   (pbs_pick s = Some p \<longleftrightarrow>
      p < NPROC \<and> runnable s p \<and>
      (\<forall>q<NPROC. runnable s q \<longrightarrow> pbs_key s p < pbs_key s q \<or> pbs_key s p = pbs_key s q \<and> p \<le> q))"
  unfolding pbs_pick_def pbs.scan_iff by (auto simp: best_of_def getDP_bounds)

theorem pbs_picks_highest_priority_witness:
  "pbs_pick (demo_sys demo_old) = Some 1 \<and> pbs_key (demo_sys demo_old) 1 \<le> pbs_key (demo_sys demo_old) 2"
proof -
  have "2 < NPROC" by (simp add: NPROC_def)
  with pbs_picks_highest_priority[of "demo_sys demo_old" 1] demo_old_facts show ?thesis
    by (metis less_imp_le order_refl)
qed

lemma mlfq_look_iff:
  "scan (in_queue s q) (mlfq_better s) [0..<NPROC] None = Some p \<longleftrightarrow>
     p < NPROC \<and> in_queue s q p \<and>
     (\<forall>r<NPROC. in_queue s q r \<longrightarrow>
        sint (entryTime (procs s p)) < sint (entryTime (procs s r)) \<or>
        entryTime (procs s p) = entryTime (procs s r) \<and> p \<le> r)"
  unfolding mlfq.scan_iff by (auto simp: best_of_def sint_eq_iff)

lemma mlfq_look_None:
  "scan (in_queue s q) (mlfq_better s) [0..<NPROC] None = None \<longleftrightarrow> (\<forall>r<NPROC. \<not> in_queue s q r)"
  by (rule mlfq.scan_None_iff)

text \<open>The queue number of every process stays between 0 and 4.\<close>

definition queues_ok :: "'a ps \<Rightarrow> bool" where
  "queues_ok s \<longleftrightarrow> (\<forall>p<NPROC. queue (procs s p) \<in> {0, 1, 2, 3, 4})"

lemma word_below: "n < 2 ^ 32 \<Longrightarrow> (x :: u32) < of_nat n \<longleftrightarrow> x \<in> of_nat ` {..<n}"
  by (auto simp: word_less_nat_alt unat_of_nat intro!: image_eqI[where x = "unat x"])

lemma mlfq_pick_queue:
  assumes "mlfq_pick s = Some p"
  obtains k where "k < 4" "\<forall>r<NPROC. runnable s r \<longrightarrow> \<not> queue (procs s r) < k"
    "scan (in_queue s k) (mlfq_better s) [0..<NPROC] None = Some p"
proof -
  let ?look = "\<lambda>q. scan (in_queue s q) (mlfq_better s) [0..<NPROC] None"
  have sets: "{..<1} = {0::nat}" "{..<2} = {0, 1::nat}" "{..<3} = {0, 1, 2::nat}" by auto
  have cases: "queue x < 1 \<longleftrightarrow> queue x = 0" "queue x < 2 \<longleftrightarrow> queue x = 0 \<or> queue x = 1"
      "queue x < 3 \<longleftrightarrow> queue x = 0 \<or> queue x = 1 \<or> queue x = 2" for x
    using word_below[of 1 "queue x"] word_below[of 2 "queue x"] word_below[of 3 "queue x"]
    by (simp_all add: sets)
  have none: "?look q = None \<Longrightarrow> r < NPROC \<Longrightarrow> runnable s r \<Longrightarrow> queue (procs s r) \<noteq> q" for q r
    by (auto simp: mlfq_look_None in_queue_def runnable_def)
  show ?thesis
    using assms none that[of 0] that[of 1] that[of 2] that[of 3]
    by (auto simp: mlfq_pick_def Let_def cases split: option.splits)
qed

lemma mlfq_pick_None:
  assumes "queues_ok s"
  shows "mlfq_pick s = None \<longleftrightarrow> (\<forall>r<NPROC. runnable s r \<longrightarrow> queue (procs s r) = 4)"
  using assms
  by (fastforce simp: mlfq_pick_def Let_def mlfq_look_None in_queue_def runnable_def queues_ok_def split: option.splits)

text \<open>C16: In the MLFQ build, when every queue number is between 0 and 4, the process picked is runnable
  and least in queue number, then in the time it entered its queue, then in table position; none is
  picked exactly when every runnable process is in queue 4, which is then served in turn.\<close>

theorem mlfq_picks_front_of_first_queue:
  assumes "queues_ok s"
  shows "(mlfq_pick s = None \<longleftrightarrow> (\<forall>r<NPROC. runnable s r \<longrightarrow> queue (procs s r) = 4)) \<and>
    (\<forall>p. mlfq_pick s = Some p \<longrightarrow> p < NPROC \<and> runnable s p \<and> (\<forall>r<NPROC. runnable s r \<longrightarrow>
       (queue (procs s p), sint (entryTime (procs s p)), p) \<le> (queue (procs s r), sint (entryTime (procs s r)), r)))"
proof (intro conjI allI impI)
  fix p assume "mlfq_pick s = Some p"
  then obtain k where k: "\<forall>r<NPROC. runnable s r \<longrightarrow> \<not> queue (procs s r) < k"
      "scan (in_queue s k) (mlfq_better s) [0..<NPROC] None = Some p"
    by (rule mlfq_pick_queue)
  then have p: "p < NPROC" "in_queue s k p"
    and best: "\<And>r. r < NPROC \<Longrightarrow> in_queue s k r \<Longrightarrow> sint (entryTime (procs s p)) < sint (entryTime (procs s r)) \<or>
        entryTime (procs s p) = entryTime (procs s r) \<and> p \<le> r"
    by (auto simp: mlfq_look_iff)
  show "p < NPROC" "runnable s p" using p by (auto simp: in_queue_def runnable_def)
  fix r assume r: "r < NPROC" "runnable s r"
  show "(queue (procs s p), sint (entryTime (procs s p)), p) \<le> (queue (procs s r), sint (entryTime (procs s r)), r)"
  proof (cases "queue (procs s r) = k")
    case True
    with best[of r] r p show ?thesis by (auto simp: in_queue_def runnable_def)
  next
    case False
    with k(1) r p show ?thesis by (auto simp: in_queue_def not_less)
  qed
qed (use mlfq_pick_None[OF assms] in blast)+

definition demo_mlfq :: "proc list" where
  "demo_mlfq = [blank_proc\<lparr>pstate := SLEEPING\<rparr>, blank_proc\<lparr>pstate := RUNNABLE, queue := 2, entryTime := 7\<rparr>,
     blank_proc\<lparr>pstate := RUNNABLE, queue := 1, entryTime := 9\<rparr>, blank_proc\<lparr>pstate := RUNNABLE, queue := 1, entryTime := 8\<rparr>]"

lemma demo_queues: "queues_ok (demo_sys demo_mlfq)"
  by (auto simp: queues_ok_def demo_sys_def table_of_def demo_mlfq_def blank_proc_def less_Suc_eq nth_Cons split: nat.splits)

lemma demo_pick: "mlfq_pick (demo_sys demo_mlfq) = Some 3"
  by code_simp

theorem mlfq_picks_front_of_first_queue_witness:
  "mlfq_pick (demo_sys demo_mlfq) = Some 3 \<and>
   (1, 8, 3) \<le> (queue (procs (demo_sys demo_mlfq) 2), sint (entryTime (procs (demo_sys demo_mlfq) 2)), 2::nat)"
proof -
  have "runnable (demo_sys demo_mlfq) 2" by code_simp
  moreover have "queue (procs (demo_sys demo_mlfq) 3) = 1" "sint (entryTime (procs (demo_sys demo_mlfq) 3)) = 8"
    by code_simp+
  moreover have "2 < NPROC" by (simp add: NPROC_def)
  ultimately show ?thesis
    using mlfq_picks_front_of_first_queue[OF demo_queues] demo_pick by metis
qed

section \<open>Moving between the queues\<close>

lemma queue_cases:
  "queue x \<in> {0, 1, 2, 3, 4} \<Longrightarrow> queue (demote1 now x) \<in> {0, 1, 2, 3, 4}"
  "queue x \<in> {0, 1, 2, 3, 4} \<Longrightarrow> queue (age1 now x) \<in> {0, 1, 2, 3, 4}"
  by (auto simp: demote1_def age1_def Let_def)

lemma queues_ok_adjust: "queues_ok s \<Longrightarrow> queues_ok (age (demote s))"
  using queue_cases by (simp add: queues_ok_def age_def demote_def)

text \<open>What one round of the MLFQ scheduler at time \<open>now\<close> does to a process it does not run.\<close>

definition adjust1 :: "u32 \<Rightarrow> proc \<Rightarrow> proc" where
  "adjust1 now x = age1 now (demote1 now x)"

primrec waiting :: "u32 \<Rightarrow> nat \<Rightarrow> proc \<Rightarrow> proc" where
  "waiting now 0 x = x"
| "waiting now (Suc n) x = waiting (now + 1) n (adjust1 now x)"

definition wait_time :: "u32 \<Rightarrow> proc \<Rightarrow> int" where
  "wait_time now x = sint (now - entryTime x - timeRanInQueue x)"

text \<open>The scheduler is not about to demote the process.\<close>

definition settled :: "proc \<Rightarrow> bool" where
  "settled x \<longleftrightarrow> pstate x = RUNNABLE \<and> queue x \<in> {0, 1, 2, 3, 4} \<and> (queue x \<noteq> 4 \<longrightarrow>
     sint (timeRanInQueue x) < (if queue x = 0 then 1 else if queue x = 1 then 2 else if queue x = 2 then 4 else 8))"

text \<open>An upper bound on the rounds a waiting process needs to reach queue 0.\<close>

definition rounds_left :: "u32 \<Rightarrow> proc \<Rightarrow> int" where
  "rounds_left now x =
     (if queue x = 0 then 0
      else if queue x = 1 then max 1 (41 - wait_time now x)
      else if queue x = 2 then max 1 (31 - wait_time now x) + 40
      else if queue x = 3 then max 1 (26 - wait_time now x) + 70
      else max 1 (21 - wait_time now x) + 95)"

lemma sint_Suc: "sint (a :: u32) < 2 ^ 31 - 1 \<Longrightarrow> sint (a + 1) = sint a + 1"
  using sint_range_size[of a] by (simp add: signed_take_bit_int_eq_self sint_word_ariths word_size)

lemma wait_time_Suc: "wait_time now x < 2 ^ 31 - 1 \<Longrightarrow> wait_time (now + 1) x = wait_time now x + 1"
  using sint_Suc[of "now - entryTime x - timeRanInQueue x"] by (simp add: wait_time_def algebra_simps)

lemma demote_settled: "settled x \<Longrightarrow> demote1 now x = x"
  unfolding settled_def demote1_def Let_def by (elim conjE insertE emptyE; simp)

lemma adjust_settled:
  assumes "settled x" "0 \<le> wait_time now x" "queue x \<noteq> 0"
  shows "settled (adjust1 now x) \<and> 0 \<le> wait_time (now + 1) (adjust1 now x) \<and>
    rounds_left (now + 1) (adjust1 now x) \<le> rounds_left now x - 1"
proof -
  have [simp]: "wait_time (now + 1) (x\<lparr>queue := q, timeRanInQueue := 0, entryTime := now\<rparr>) = 1" for q
    by (simp add: wait_time_def)
  have q: "queue x \<in> {1, 2, 3, 4}" and run: "pstate x = RUNNABLE" using assms by (auto simp: settled_def)
  have hold: "wait_time now x < 40 \<Longrightarrow> wait_time (now + 1) x = wait_time now x + 1" by (simp add: wait_time_Suc)
  show ?thesis
    using q unfolding adjust1_def demote_settled[OF assms(1)] age1_def Let_def wait_time_def[symmetric]
    by (elim insertE emptyE; cases "wait_time now x < 40"; use assms hold run in \<open>simp add: settled_def rounds_left_def\<close>)
qed

lemma waiting_settled:
  assumes "settled x" "0 \<le> wait_time now x" "rounds_left now x \<le> int n"
  shows "queue (waiting now n x) = 0"
  using assms
proof (induction n arbitrary: now x)
  case 0
  then show ?case by (auto simp: rounds_left_def settled_def split: if_splits)
next
  case (Suc n)
  show ?case
  proof (cases "queue x = 0")
    case True
    then have "adjust1 m x = x" for m using Suc.prems by (simp add: adjust1_def demote_settled age1_def)
    then have "waiting m k x = x" for m k by (induction k arbitrary: m) auto
    with True show ?thesis by (metis waiting.simps(2))
  next
    case False
    with adjust_settled[OF Suc.prems(1,2)] Suc show ?thesis by simp
  qed
qed

lemma adjust_unsettled:
  assumes "pstate x = RUNNABLE" "queue x \<in> {0, 1, 2, 3, 4}" "\<not> settled x"
  shows "settled (adjust1 now x) \<and> 0 \<le> wait_time (now + 1) (adjust1 now x) \<and>
    rounds_left (now + 1) (adjust1 now x) \<le> 115"
  using assms(2) by (elim insertE emptyE; use assms in
    \<open>simp add: settled_def adjust1_def demote1_def age1_def Let_def rounds_left_def wait_time_def\<close>)



section \<open>The lottery\<close>

definition tix :: "'a ps \<Rightarrow> nat \<Rightarrow> nat" where
  "tix s p = (if runnable s p then unat (tickets (procs s p)) else 0)"

definition tsum :: "'a ps \<Rightarrow> nat list \<Rightarrow> nat" where
  "tsum s ps = sum_list (map (tix s) ps)"

primrec drawn :: "'a ps \<Rightarrow> nat list \<Rightarrow> nat \<Rightarrow> nat option" where
  "drawn s [] r = None"
| "drawn s (p # ps) r = (if r < tix s p then Some p else drawn s ps (r - tix s p))"

lemma total_tickets_tsum: "total_tickets s ps acc = acc + of_nat (tsum s ps)"
  by (induction ps arbitrary: acc) (auto simp: tsum_def tix_def)

lemma sint_of_nat: "n < 2 ^ 31 \<Longrightarrow> sint (of_nat n :: u32) = int n"
  by (simp add: signed_of_nat signed_take_bit_int_eq_self)

lemma sint_of_nat_diff:
  "r < 2 ^ 31 \<Longrightarrow> n < 2 ^ 31 \<Longrightarrow> sint (of_nat r - of_nat n :: u32) = int r - int n"
  by (simp add: sint_word_ariths sint_of_nat signed_take_bit_int_eq_self)

lemma draw_step:
  assumes "r < 2 ^ 31" "unat (t :: u32) < 2 ^ 31"
  shows "sint (of_nat r - t) < 0 \<longleftrightarrow> r < unat t" "unat t \<le> r \<Longrightarrow> of_nat r - t = of_nat (r - unat t)"
proof -
  have "sint (of_nat r - t) = int r - int (unat t)"
    using sint_of_nat_diff[OF assms] by (simp only: of_nat_unat ucast_id)
  then show "sint (of_nat r - t) < 0 \<longleftrightarrow> r < unat t" by linarith
  show "unat t \<le> r \<Longrightarrow> of_nat r - t = of_nat (r - unat t)" by (simp add: of_nat_diff)
qed

lemma draw_drawn:
  assumes "tsum s ps < 2 ^ 31" "r < 2 ^ 31"
  shows "draw s ps (of_nat r) = drawn s ps r"
  using assms
proof (induction ps arbitrary: r)
  case (Cons p ps)
  show ?case
  proof (cases "runnable s p")
    case True
    then have t: "tix s p = unat (tickets (procs s p))" by (simp add: tix_def)
    with Cons.prems have "unat (tickets (procs s p)) < 2 ^ 31" by (simp add: tsum_def)
    note st = draw_step[OF Cons.prems(2) this]
    have "tsum s ps < 2 ^ 31" "r - tix s p < 2 ^ 31" using Cons.prems by (auto simp: tsum_def)
    with Cons.IH[of "r - tix s p"] st True t show ?thesis by (auto simp: Let_def not_less)
  next
    case False
    with Cons show ?thesis by (simp add: tix_def tsum_def)
  qed
qed simp

lemma card_below_add:
  "card {r. r < a + b \<and> a \<le> r \<and> P (r - a)} = card {r. r < b \<and> P r}" for a b :: nat
proof -
  have "{r. r < a + b \<and> a \<le> r \<and> P (r - a)} = (+) a ` {r. r < b \<and> P r}"
    by (force intro: image_eqI[where x = "r - a" for r])
  then show ?thesis by (simp add: card_image)
qed

lemma drawn_in: "drawn s ps r = Some p \<Longrightarrow> p \<in> set ps"
  by (induction ps arbitrary: r) (auto split: if_splits)

lemma drawn_count:
  "distinct ps \<Longrightarrow> p \<in> set ps \<Longrightarrow> card {r. r < tsum s ps \<and> drawn s ps r = Some p} = tix s p"
proof (induction ps)
  case (Cons q ps)
  let ?W = "{r. r < tsum s (q # ps) \<and> drawn s (q # ps) r = Some p}"
  have ts: "tsum s (q # ps) = tix s q + tsum s ps" by (simp add: tsum_def)
  show ?case
  proof (cases "p = q")
    case True
    have "?W = {..<tix s p}" using drawn_in[of s ps _ p] Cons.prems True by (auto simp: ts)
    then show ?thesis by simp
  next
    case False
    have "?W = {r. r < tix s q + tsum s ps \<and> tix s q \<le> r \<and> drawn s ps (r - tix s q) = Some p}"
      using False by (auto simp: ts)
    then show ?thesis
      using Cons False card_below_add[of "tix s q" "tsum s ps" "\<lambda>r. drawn s ps r = Some p"] by simp
  qed
qed simp

text \<open>C17: In the LBS build, when the tickets of the runnable processes fit an \<open>int\<close>, the scheduler adds
  them up exactly, and of the numbers below the total exactly as many draw a process as it holds tickets.\<close>

theorem lbs_draw_proportional:
  assumes "tsum s [0..<NPROC] < 2 ^ 31" "p < NPROC" "runnable s p"
  shows "unat (total_tickets s [0..<NPROC] 0) = tsum s [0..<NPROC] \<and>
    card {r. r < tsum s [0..<NPROC] \<and> draw s [0..<NPROC] (of_nat r) = Some p} = unat (tickets (procs s p))"
proof
  show "unat (total_tickets s [0..<NPROC] 0) = tsum s [0..<NPROC]"
    using assms(1) by (simp add: total_tickets_tsum unat_of_nat)
  have "{r. r < tsum s [0..<NPROC] \<and> draw s [0..<NPROC] (of_nat r) = Some p}
      = {r. r < tsum s [0..<NPROC] \<and> drawn s [0..<NPROC] r = Some p}"
    using assms(1) draw_drawn[of s "[0..<NPROC]"] by auto
  then show "card {r. r < tsum s [0..<NPROC] \<and> draw s [0..<NPROC] (of_nat r) = Some p} = unat (tickets (procs s p))"
    using drawn_count[of "[0..<NPROC]" p s] assms(2,3) by (simp add: tix_def)
qed

definition demo_lbs :: "proc list" where
  "demo_lbs = [blank_proc\<lparr>pstate := SLEEPING\<rparr>, blank_proc\<lparr>pstate := RUNNABLE, tickets := 3\<rparr>,
     blank_proc\<lparr>pstate := RUNNABLE, tickets := 2\<rparr>]"

theorem lbs_draw_proportional_witness:
  "unat (total_tickets (demo_sys demo_lbs) [0..<NPROC] 0) = 5 \<and>
   card {r. r < 5 \<and> draw (demo_sys demo_lbs) [0..<NPROC] (of_nat r) = Some 1} = 3"
proof -
  have "tsum (demo_sys demo_lbs) [0..<NPROC] = 5" "runnable (demo_sys demo_lbs) 1" "1 < NPROC"
    "tickets (procs (demo_sys demo_lbs) 1) = 3" by code_simp+
  then show ?thesis using lbs_draw_proportional[of "demo_sys demo_lbs" 1] by simp
qed

lemma drawn_before: "drawn s ps r = Some p \<Longrightarrow> tsum s (takeWhile (\<lambda>q. q \<noteq> p) ps) \<le> r"
  by (induction ps arbitrary: r) (force simp: tsum_def split: if_splits)+

lemma takeWhile_upt: "p < n \<Longrightarrow> takeWhile (\<lambda>q. q \<noteq> p) [0..<n] = [0..<p]"
proof -
  assume "p < n"
  then have "[0..<n] = [0..<p] @ p # [Suc p..<n]" using upt_add_eq_append[of 0 p "n - p"] by (simp add: upt_conv_Cons)
  then show ?thesis by (simp add: takeWhile_append)
qed

lemma draw_procs: "draw (s\<lparr>nxt := n\<rparr>) ps r = draw s ps r"
  by (induction ps arbitrary: r) (simp_all add: runnable_def Let_def)

lemma rand_bound: "unat (fst (rand s)) < 32768"
  by (simp add: rand_def Let_def unat_mod)

lemma c_rem_of_nat: "n < 2 ^ 31 \<Longrightarrow> t < 2 ^ 31 \<Longrightarrow> c_rem (of_nat n) (of_nat t) = of_nat (n mod t)"
  by (simp add: c_rem_def sint_of_nat smod_mod_positive flip: zmod_int)

lemma c_rem_nat: "unat a < 2 ^ 31 \<Longrightarrow> t < 2 ^ 31 \<Longrightarrow> c_rem a (of_nat t) = of_nat (unat a mod t)"
  using c_rem_of_nat[of "unat a" t] by (simp only: of_nat_unat ucast_id)

text \<open>C18: The lottery never draws a process that has 32768 or more tickets ahead of it in the table,
  since \<open>rand\<close> returns numbers below 32768: a process that sets its tickets that high starves all
  processes after it.\<close>

theorem lbs_starves_beyond_rand_max:
  assumes "tsum s [0..<NPROC] < 2 ^ 31" "fst (lbs_pick s) = Some p"
  shows "tsum s [0..<p] < 32768"
proof -
  let ?r = "fst (rand s)" and ?T = "tsum s [0..<NPROC]"
  have same: "draw (snd (rand s)) = draw s"
    by (intro ext) (simp add: rand_def Let_def draw_procs)
  have r: "unat ?r < 32768" by (rule rand_bound)
  have "draw s [0..<NPROC] (c_rem ?r (of_nat ?T)) = Some p"
    using assms(2) same by (simp add: lbs_pick_def total_tickets_tsum split_beta Let_def)
  moreover have "c_rem ?r (of_nat ?T) = of_nat (unat ?r mod ?T)" using r assms(1) by (intro c_rem_nat) auto
  moreover have le: "unat ?r mod ?T \<le> unat ?r" by (rule mod_less_eq_dividend)
  ultimately have d: "drawn s [0..<NPROC] (unat ?r mod ?T) = Some p"
    using draw_drawn[OF assms(1), of "unat ?r mod ?T"] r by simp
  from drawn_before[OF d] drawn_in[OF d] have "tsum s [0..<p] \<le> unat ?r mod ?T" by (simp add: takeWhile_upt)
  with le r show ?thesis by linarith
qed

lemma demo_draw: "fst (lbs_pick (demo_sys demo_lbs)) = Some 2"
proof -
  have "fst (rand (demo_sys demo_lbs)) = 16838" by (simp add: rand_def demo_sys_def Let_def)
  moreover have "total_tickets (demo_sys demo_lbs) [0..<NPROC] 0 = 5" "draw (demo_sys demo_lbs) [0..<NPROC] 3 = Some 2"
    by code_simp+
  moreover have "c_rem 16838 5 = 3" using c_rem_of_nat[of 16838 5] by simp
  ultimately show ?thesis by (simp add: lbs_pick_def rand_def Let_def draw_procs split: prod.splits)
qed

theorem lbs_starves_beyond_rand_max_witness:
  "fst (lbs_pick (demo_sys demo_lbs)) = Some 2 \<and> tsum (demo_sys demo_lbs) [0..<2] < 32768"
proof -
  have "tsum (demo_sys demo_lbs) [0..<NPROC] = 5" by code_simp
  then show ?thesis using lbs_starves_beyond_rand_max[of "demo_sys demo_lbs" 2] demo_draw by simp
qed

section \<open>Niceness and seeding\<close>

lemma c_div_bounds:
  assumes "0 \<le> sint a" "0 < sint b" "sint a \<le> 10 * sint b"
  shows "0 \<le> sint (c_div a b) \<and> sint (c_div a b) \<le> 10"
proof -
  have "sint a sdiv sint b = sint a div sint b"
    using assms by (cases "sint a = 0") (simp_all add: signed_divide_int_def)
  moreover have "0 \<le> sint a div sint b" "sint a div sint b \<le> 10"
    using assms by (auto simp: pos_imp_zdiv_nonneg_iff) (metis nonzero_mult_div_cancel_right zdiv_mono1 less_numeral_extra(3))
  ultimately show ?thesis by (simp add: c_div_def sint_word_of_int32)
qed





end
