(* ===== verification/Console.thy ===== *)
theory Console
  imports Fstate Sched
begin

text \<open>
  The console and its UART, \<^verbatim>\<open>kernel/console.c\<close> and \<^verbatim>\<open>kernel/uart.c\<close>, and the formatted output of
  \<^verbatim>\<open>kernel/printf.c\<close>.
\<close>

section \<open>UART\<close>

definition uupd :: "(uart \<Rightarrow> uart) \<Rightarrow> 'a fs \<Rightarrow> 'a fs" where
  "uupd f s = s\<lparr>uart := f (uart s)\<rparr>"

definition UART_TX_BUF_SIZE :: nat where "UART_TX_BUF_SIZE = 32"

definition tx_full :: "uart \<Rightarrow> bool" where
  "tx_full u \<longleftrightarrow> tx_w u = tx_r u + of_nat UART_TX_BUF_SIZE"

definition tx_empty :: "uart \<Rightarrow> bool" where
  "tx_empty u \<longleftrightarrow> tx_w u = tx_r u"

definition tx_put :: "u8 \<Rightarrow> uart \<Rightarrow> uart" where
  "tx_put c u = u\<lparr>txbuf := (txbuf u)(unat (tx_w u) mod UART_TX_BUF_SIZE := c), tx_w := tx_w u + 1\<rparr>"

definition tx_front :: "uart \<Rightarrow> u8" where
  "tx_front u = txbuf u (unat (tx_r u) mod UART_TX_BUF_SIZE)"

definition tx_take :: "uart \<Rightarrow> uart" where
  "tx_take u = u\<lparr>tx_r := tx_r u + 1\<rparr>"

text \<open>Storing a byte in the transmit register.\<close>

definition put_thr :: "u8 \<Rightarrow> uart \<Rightarrow> uart" where
  "put_thr c u = u\<lparr>sent := sent u @ [c], thr_room := thr_room u - 1\<rparr>"

function uartstart :: "'a fs \<Rightarrow> 'a fs" where
  "uartstart s =
     (if tx_empty (uart s) then s
      else if thr_room (uart s) = 0 then s
      else let c = tx_front (uart s);
               s1 = uupd tx_take s;
               s2 = wake_chan UartChan s1
           in uartstart (uupd (put_thr c) s2))"
  by pat_completeness auto
termination
  by (relation "measure (\<lambda>s. thr_room (uart s))")
     (auto simp: uupd_def tx_take_def put_thr_def wake_chan_def wakeup_def)

declare uartstart.simps [simp del]

definition uartputc :: "u8 \<Rightarrow> 'a fs \<Rightarrow> 'a fs res" where
  "uartputc c s =
     (if tx_full (uart s) then blocked else Ok (uartstart (uupd (tx_put c) s)))"

text \<open>\<open>uartputc_sync\<close> spins until the transmitter is idle and then sends the byte.\<close>

definition uartputc_sync :: "u8 \<Rightarrow> 'a fs \<Rightarrow> 'a fs" where
  "uartputc_sync c s = uupd (put_thr c) s"

definition uartgetc :: "'a fs \<Rightarrow> u8 option \<times> 'a fs" where
  "uartgetc s = (case rx (uart s) of [] \<Rightarrow> (None, s) | c # cs \<Rightarrow> (Some c, uupd (rx_update (\<lambda>_. cs)) s))"

section \<open>Formatted output\<close>

definition digit :: "nat \<Rightarrow> u8" where
  "digit d = (if d < 10 then 48 + of_nat d else 87 + of_nat d)"

text \<open>The digits of \<open>x\<close> from the last on, as the loop of \<open>printint\<close> stores them.\<close>

function print_digits :: "nat \<Rightarrow> nat \<Rightarrow> u8 list" where
  "print_digits x base = digit (x mod base) # (if base \<ge> 2 \<and> x div base \<noteq> 0 then print_digits (x div base) base else [])"
  by pat_completeness auto
termination
  by (relation "measure (\<lambda>(x, base). x)") (auto intro!: div_less_dividend gr0I)

declare print_digits.simps [simp del]

definition printint :: "u32 \<Rightarrow> nat \<Rightarrow> bool \<Rightarrow> u8 list" where
  "printint xx base sign =
     (let neg = sign \<and> sint xx < 0; x = (if neg then - xx else xx)
      in (if neg then [45] else []) @ rev (print_digits (unat x) base))"

definition printptr :: "u64 \<Rightarrow> u8 list" where
  "printptr x = [48, 120] @ map (\<lambda>i. digit (unat (drop_bit 60 (push_bit (4 * i) x)))) [0..<16]"

text \<open>
  Arguments of \<open>printf\<close>.  A string argument is its bytes, \<open>None\<close> when null.  Too few arguments,
  or arguments of the wrong kind, are undefined in C: the result is then \<open>None\<close>.
\<close>

datatype pfarg = PInt u32 | PPtr u64 | PStr "u8 list option"

fun printf :: "u8 list \<Rightarrow> pfarg list \<Rightarrow> u8 list option" where
  "printf [] args = Some []"
| "printf (c # fmt) args =
     (if c \<noteq> 37 then map_option ((#) c) (printf fmt args)
      else case fmt of [] \<Rightarrow> Some []
        | d # rest \<Rightarrow>
            if d = 100 then (case args of PInt x # as \<Rightarrow> map_option ((@) (printint x 10 True)) (printf rest as) | _ \<Rightarrow> None)
            else if d = 120 then (case args of PInt x # as \<Rightarrow> map_option ((@) (printint x 16 True)) (printf rest as) | _ \<Rightarrow> None)
            else if d = 112 then (case args of PPtr x # as \<Rightarrow> map_option ((@) (printptr x)) (printf rest as) | _ \<Rightarrow> None)
            else if d = 115 then (case args of PStr t # as \<Rightarrow>
                map_option ((@) (case t of Some bs \<Rightarrow> bs | None \<Rightarrow> [40, 110, 117, 108, 108, 41])) (printf rest as) | _ \<Rightarrow> None)
            else if d = 37 then map_option ((#) 37) (printf rest args)
            else map_option ((@) [37, d]) (printf rest args))"

text \<open>\<open>None\<close> is the code \<open>BACKSPACE\<close>, which no byte equals.\<close>

definition consputc :: "u8 option \<Rightarrow> 'a fs \<Rightarrow> 'a fs" where
  "consputc c s = (case c of
     None \<Rightarrow> uartputc_sync 8 (uartputc_sync 32 (uartputc_sync 8 s)) | Some x \<Rightarrow> uartputc_sync x s)"

text \<open>\<open>printf\<close> to the console; output with undefined arguments is not produced.\<close>

definition kprintf :: "u8 list \<Rightarrow> pfarg list \<Rightarrow> 'a fs \<Rightarrow> 'a fs" where
  "kprintf fmt args s = (case printf fmt args of None \<Rightarrow> s | Some out \<Rightarrow> fold (\<lambda>c. consputc (Some c)) out s)"

definition chars :: "string \<Rightarrow> u8 list" where
  "chars t = map (\<lambda>c. of_nat (of_char c)) t"

section \<open>The process list\<close>

definition states :: "procstate \<Rightarrow> string" where
  "states p = (case p of UNUSED \<Rightarrow> ''Unused  '' | USED \<Rightarrow> ''Used    '' | SLEEPING \<Rightarrow> ''Sleeping''
     | RUNNABLE \<Rightarrow> ''Runnable'' | RUNNING \<Rightarrow> ''Running '' | ZOMBIE \<Rightarrow> ''Zombie  '')"

text \<open>\<open>for(int i = 0; i < n; i++) printf(" ");\<close>\<close>

definition print_spaces :: "int \<Rightarrow> 'a fs \<Rightarrow> 'a fs" where
  "print_spaces n = (kprintf (chars '' '') [] ^^ nat n)"

text \<open>A number and the spaces that fill its column of width \<open>w\<close>.\<close>

definition print_column :: "u32 \<Rightarrow> int \<Rightarrow> 'a fs \<Rightarrow> 'a fs" where
  "print_column x w s = print_spaces (w - num_digits x) (kprintf (chars ''%d'') [PInt x] s)"

definition dump_line :: "proc \<Rightarrow> 'a fs \<Rightarrow> 'a fs" where
  "dump_line p s =
     (if pstate p = UNUSED then s
      else let s = print_column (pid p) 11 s;
               s = kprintf (chars ''%s       '') [PStr (Some (chars (states (pstate p))))] s;
               s = print_column (timeRun p) 15 s;
               s = print_column (timeSlept p) 16 s
           in kprintf (chars ''%s'' @ [10]) [PStr (Some (name p))] s)"

definition dump_line_mlfq :: "u32 \<Rightarrow> proc \<Rightarrow> 'a fs \<Rightarrow> 'a fs" where
  "dump_line_mlfq now p s =
     (if pstate p = UNUSED then s
      else if sint (pid p) > 2
      then kprintf (chars ''%d,%d,%d,%s'' @ [10]) [PInt (pid p), PInt (queue p), PInt now, PStr (Some (chars (states (pstate p))))] s
      else s)"

definition procdump :: "policy \<Rightarrow> 'a fs \<Rightarrow> 'a fs" where
  "procdump pol s =
     (let ps = map (procs s) [0..<NPROC];
          title = (\<lambda>t. kprintf (chars t @ [10, 10]) []);
          s = kprintf [10] [] s;
          s = (case pol of RR \<Rightarrow> title ''Procdump: Round Robin Scheduler'' s
                 | FCFS \<Rightarrow> title ''Procdump: First Come First Serve Scheduler'' s
                 | PBS \<Rightarrow> title ''Procdump: Priority Based Scheduler'' s
                 | LBS \<Rightarrow> title ''Procdump: Lottery Based Scheduler'' s
                 | MLFQ \<Rightarrow> s)
      in if pol \<noteq> MLFQ
         then kprintf [10] [] (fold dump_line ps
                (kprintf (chars ''PID        State          Time Run       Time Slept      Name       '' @ [10]) [] s))
         else kprintf [10] [] (fold (dump_line_mlfq (ticks s)) ps s))"

section \<open>Console\<close>

definition INPUT_BUF_SIZE :: nat where "INPUT_BUF_SIZE = 128"

definition cons_put :: "u8 \<Rightarrow> console \<Rightarrow> console" where
  "cons_put c k = k\<lparr>cbuf := (cbuf k)(unat (ce k) mod INPUT_BUF_SIZE := c), ce := ce k + 1\<rparr>"

definition cupd :: "(console \<Rightarrow> console) \<Rightarrow> 'a fs \<Rightarrow> 'a fs" where
  "cupd f s = s\<lparr>cons := f (cons s)\<rparr>"

primrec consolewrite_loop :: "bool \<Rightarrow> u64 \<Rightarrow> nat list \<Rightarrow> 'a fs \<Rightarrow> (nat \<times> 'a fs) res" where
  "consolewrite_loop user_src src [] s = Ok (0, s)"
| "consolewrite_loop user_src src (i # is) s =
     (let a = obj_at s ''consolewrite.c''
      in bind_res (either_copyin (mypt s) a user_src (src + of_nat i) 1 s) (\<lambda>(r, s).
         if r = -1 then Ok (0, s)
         else bind_res (uartputc (pm s a) s) (\<lambda>s.
              bind_res (consolewrite_loop user_src src is s) (\<lambda>(k, s). Ok (Suc k, s)))))"

definition consolewrite :: "bool \<Rightarrow> u64 \<Rightarrow> u32 \<Rightarrow> 'a fs \<Rightarrow> (u32 \<times> 'a fs) res" where
  "consolewrite user_src src n s =
     bind_res (consolewrite_loop user_src src [0..<nat (sint n)] s) (\<lambda>(i, s). Ok (of_nat i, s))"

text \<open>The loop of \<open>consoleread\<close>: \<open>left\<close> bytes are still wanted; it returns the final \<open>n\<close>, or \<open>None\<close> when killed.\<close>

primrec consoleread_loop :: "bool \<Rightarrow> u64 \<Rightarrow> u32 \<Rightarrow> nat \<Rightarrow> 'a fs \<Rightarrow> (nat option \<times> 'a fs) res" where
  "consoleread_loop user_dst dst target 0 s = Ok (Some 0, s)"
| "consoleread_loop user_dst dst target (Suc n) s =
     (if cr (cons s) = cw (cons s)
      then if killed (cur s) s \<noteq> 0 then Ok (None, s) else blocked
      else let c = cbuf (cons s) (unat (cr (cons s)) mod INPUT_BUF_SIZE);
               s = cupd (\<lambda>k. k\<lparr>cr := cr k + 1\<rparr>) s
           in if c = 4
              then Ok (Some (Suc n), if of_nat (Suc n) < target then cupd (\<lambda>k. k\<lparr>cr := cr k - 1\<rparr>) s else s)
              else let a = obj_at s ''consoleread.cbuf''
                   in bind_res (either_copyout (mypt s) user_dst dst a 1 (s\<lparr>pm := (pm s)(a := c)\<rparr>)) (\<lambda>(r, s).
                      if r = -1 then Ok (Some (Suc n), s)
                      else if c = 10 then Ok (Some n, s)
                      else consoleread_loop user_dst (dst + 1) target n s))"

definition consoleread :: "bool \<Rightarrow> u64 \<Rightarrow> u32 \<Rightarrow> 'a fs \<Rightarrow> (u32 \<times> 'a fs) res" where
  "consoleread user_dst dst n s =
     (if sint n > 0
      then bind_res (consoleread_loop user_dst dst n (nat (sint n)) s) (\<lambda>(r, s).
           case r of None \<Rightarrow> Ok (-1, s) | Some left \<Rightarrow> Ok (n - of_nat left, s))
      else Ok (0, s))"

function kill_line :: "'a fs \<Rightarrow> 'a fs" where
  "kill_line s =
     (if ce (cons s) \<noteq> cw (cons s) \<and> cbuf (cons s) (unat (ce (cons s) - 1) mod INPUT_BUF_SIZE) \<noteq> 10
      then kill_line (consputc None (cupd (\<lambda>k. k\<lparr>ce := ce k - 1\<rparr>) s)) else s)"
  by pat_completeness auto
termination
proof (relation "measure (\<lambda>s. unat (ce (cons s) - cw (cons s)))", goal_cases)
  case (2 s)
  then have "ce (cons s) - cw (cons s) \<noteq> 0" by simp
  then have "unat (ce (cons s) - cw (cons s) - 1) < unat (ce (cons s) - cw (cons s))"
    by (simp add: unat_gt_0 unat_minus_one)
  then show ?case by (simp add: consputc_def uartputc_sync_def uupd_def cupd_def algebra_simps)
qed simp

declare kill_line.simps [simp del]

definition consoleintr :: "policy \<Rightarrow> u8 \<Rightarrow> 'a fs \<Rightarrow> 'a fs" where
  "consoleintr pol c s =
     (if c = 16 then procdump pol s
      else if c = 21 then kill_line s
      else if c = 8 \<or> c = 127
      then if ce (cons s) \<noteq> cw (cons s) then consputc None (cupd (\<lambda>k. k\<lparr>ce := ce k - 1\<rparr>) s) else s
      else if c \<noteq> 0 \<and> ce (cons s) - cr (cons s) < of_nat INPUT_BUF_SIZE
      then let c = (if c = 13 then 10 else c);
               s = consputc (Some c) s;
               s = cupd (cons_put c) s
           in if c = 10 \<or> c = 4 \<or> ce (cons s) - cr (cons s) = of_nat INPUT_BUF_SIZE
              then wake_chan ConsChan (cupd (\<lambda>k. k\<lparr>cw := ce k\<rparr>) s) else s
      else s)"

primrec uart_input :: "policy \<Rightarrow> u8 list \<Rightarrow> 'a fs \<Rightarrow> 'a fs" where
  "uart_input pol [] s = s"
| "uart_input pol (c # cs) s = uart_input pol cs (consoleintr pol c (snd (uartgetc s)))"

definition uartintr :: "policy \<Rightarrow> 'a fs \<Rightarrow> 'a fs" where
  "uartintr pol s = uartstart (uart_input pol (rx (uart s)) s)"

end
