(* ===== verification/File.thy ===== *)
theory File
  imports Fs Console
begin

text \<open>Pipes, \<^verbatim>\<open>kernel/pipe.c\<close>, and open files, \<^verbatim>\<open>kernel/file.c\<close>.\<close>

definition fupd :: "nat \<Rightarrow> (kfile \<Rightarrow> kfile) \<Rightarrow> 'a fs \<Rightarrow> 'a fs" where
  "fupd f g s = s\<lparr>files := (files s)(f := g (files s f))\<rparr>"

definition piupd :: "u64 \<Rightarrow> (pipe \<Rightarrow> pipe) \<Rightarrow> 'a fs \<Rightarrow> 'a fs" where
  "piupd pi g s = s\<lparr>pipes := (pipes s)(pi := g (pipes s pi))\<rparr>"

section \<open>The file table\<close>

definition filealloc :: "'a fs \<Rightarrow> nat option \<times> 'a fs" where
  "filealloc s = (case find (\<lambda>f. fref (files s f) = 0) [0..<NFILE] of
     Some f \<Rightarrow> (Some f, fupd f (fref_update (\<lambda>_. 1)) s) | None \<Rightarrow> (None, s))"

definition filedup :: "nat \<Rightarrow> 'a fs \<Rightarrow> 'a fs res" where
  "filedup f s = (if fref (files s f) < 1 then Panic ''filedup'' else Ok (fupd f (\<lambda>x. x\<lparr>fref := fref x + 1\<rparr>) s))"

definition pipeclose :: "u64 \<Rightarrow> bool \<Rightarrow> 'a fs \<Rightarrow> 'a fs res" where
  "pipeclose pi writable1 s =
     (let s = (if writable1 then wake_chan (PipeRead pi) (piupd pi (writeopen_update (\<lambda>_. False)) s)
               else wake_chan (PipeWrite pi) (piupd pi (readopen_update (\<lambda>_. False)) s))
      in if \<not> readopen (pipes s pi) \<and> \<not> writeopen (pipes s pi) then kfree pi s else Ok s)"

definition fileclose :: "nat \<Rightarrow> 'a fs \<Rightarrow> 'a fs res" where
  "fileclose f s =
     (if fref (files s f) < 1 then Panic ''fileclose''
      else let s = fupd f (\<lambda>x. x\<lparr>fref := fref x - 1\<rparr>) s
           in if fref (files s f) > 0 then Ok s
              else let ff = files s f; s = fupd f (\<lambda>x. x\<lparr>fref := 0, ftype := FD_NONE\<rparr>) s
                   in if ftype ff = FD_PIPE then pipeclose (fpipe ff) (writable ff) s
                      else if ftype ff = FD_INODE \<or> ftype ff = FD_DEVICE
                      then bind_res (begin_op s) (\<lambda>s. bind_res (iput (fip ff) s) end_op)
                      else Ok s)"

section \<open>Pipes\<close>

text \<open>\<open>goto bad\<close> in \<open>pipealloc\<close>, where no page has been allocated.\<close>

definition close_opt :: "nat option \<Rightarrow> 'a fs \<Rightarrow> 'a fs res" where
  "close_opt f s = (case f of None \<Rightarrow> Ok s | Some f \<Rightarrow> fileclose f s)"

definition pipealloc :: "'a fs \<Rightarrow> ((nat \<times> nat) option \<times> 'a fs) res" where
  "pipealloc s =
     (let bad = (\<lambda>f0 f1 s. bind_res (close_opt f0 s) (\<lambda>s. bind_res (close_opt f1 s) (\<lambda>s. Ok (None, s))))
      in case filealloc s of
           (None, s) \<Rightarrow> bad None None s
         | (Some f0, s) \<Rightarrow> (case filealloc s of
             (None, s) \<Rightarrow> bad (Some f0) None s
           | (Some f1, s) \<Rightarrow>
               bind_res (kalloc s) (\<lambda>(pi, s).
               if pi = 0 then bad (Some f0) (Some f1) s
               else let s = piupd pi (\<lambda>x. x\<lparr>readopen := True, writeopen := True, nwrite := 0, nread := 0\<rparr>) s;
                        s = fupd f0 (\<lambda>x. x\<lparr>ftype := FD_PIPE, readable := True, writable := False, fpipe := pi\<rparr>) s;
                        s = fupd f1 (\<lambda>x. x\<lparr>ftype := FD_PIPE, readable := False, writable := True, fpipe := pi\<rparr>) s
                    in Ok (Some (f0, f1), s))))"

text \<open>
  A pipe operation returns a value, or goes to sleep after transferring \<open>i\<close> bytes and continues
  from there when it is woken.
\<close>

datatype pipe_out = Returns u32 | Sleeps nat

definition PIPESIZE :: nat where "PIPESIZE = 512"

definition pipe_full :: "pipe \<Rightarrow> bool" where
  "pipe_full p \<longleftrightarrow> nwrite p = nread p + of_nat PIPESIZE"

definition pipe_empty :: "pipe \<Rightarrow> bool" where
  "pipe_empty p \<longleftrightarrow> nread p = nwrite p"

definition pipe_put :: "u8 \<Rightarrow> pipe \<Rightarrow> pipe" where
  "pipe_put ch p = p\<lparr>pdata := (pdata p)(unat (nwrite p) mod PIPESIZE := ch), nwrite := nwrite p + 1\<rparr>"

definition pipe_front :: "pipe \<Rightarrow> u8" where
  "pipe_front p = pdata p (unat (nread p) mod PIPESIZE)"

definition pipe_take :: "pipe \<Rightarrow> pipe" where
  "pipe_take p = p\<lparr>nread := nread p + 1\<rparr>"

primrec pipewrite_loop :: "u64 \<Rightarrow> u64 \<Rightarrow> nat \<Rightarrow> nat \<Rightarrow> 'a fs \<Rightarrow> (pipe_out \<times> 'a fs) res" where
  "pipewrite_loop pi addr i 0 s = Ok (Returns (of_nat i), wake_chan (PipeRead pi) s)"
| "pipewrite_loop pi addr i (Suc k) s =
     (if \<not> readopen (pipes s pi) \<or> killed (cur s) s \<noteq> 0 then Ok (Returns (-1), s)
      else if pipe_full (pipes s pi)
      then Ok (Sleeps i, sleep_enter (cur s) (PipeWrite pi) (wake_chan (PipeRead pi) s))
      else let a = obj_at s ''pipewrite.ch''
           in bind_res (copyin (mypt s) a (addr + of_nat i) 1 s) (\<lambda>(r, s).
              if r = -1 then Ok (Returns (of_nat i), wake_chan (PipeRead pi) s)
              else pipewrite_loop pi addr (Suc i) k
                     (piupd pi (pipe_put (pm s a)) s)))"

definition pipewrite :: "u64 \<Rightarrow> u64 \<Rightarrow> u32 \<Rightarrow> 'a fs \<Rightarrow> (pipe_out \<times> 'a fs) res" where
  "pipewrite pi addr n s = pipewrite_loop pi addr 0 (nat (sint n)) s"

primrec piperead_loop :: "u64 \<Rightarrow> u64 \<Rightarrow> nat \<Rightarrow> nat \<Rightarrow> 'a fs \<Rightarrow> (nat \<times> 'a fs) res" where
  "piperead_loop pi addr i 0 s = Ok (i, s)"
| "piperead_loop pi addr i (Suc k) s =
     (if pipe_empty (pipes s pi) then Ok (i, s)
      else let a = obj_at s ''piperead.ch''; ch = pipe_front (pipes s pi);
               s = piupd pi pipe_take s
           in bind_res (copyout (mypt s) (addr + of_nat i) a 1 (s\<lparr>pm := (pm s)(a := ch)\<rparr>)) (\<lambda>(r, s).
              if r = -1 then Ok (i, s) else piperead_loop pi addr (Suc i) k s))"

definition piperead :: "u64 \<Rightarrow> u64 \<Rightarrow> u32 \<Rightarrow> 'a fs \<Rightarrow> (pipe_out \<times> 'a fs) res" where
  "piperead pi addr n s =
     (if pipe_empty (pipes s pi) \<and> writeopen (pipes s pi)
      then if killed (cur s) s \<noteq> 0 then Ok (Returns (-1), s)
           else Ok (Sleeps 0, sleep_enter (cur s) (PipeRead pi) s)
      else bind_res (piperead_loop pi addr 0 (nat (sint n)) s) (\<lambda>(i, s).
           Ok (Returns (of_nat i), wake_chan (PipeWrite pi) s)))"

definition await :: "pipe_out \<times> 'a fs \<Rightarrow> (u32 \<times> 'a fs) res" where
  "await r = (case r of (Returns v, s) \<Rightarrow> Ok (v, s) | (Sleeps _, s) \<Rightarrow> blocked)"

section \<open>Reading and writing files\<close>

definition filestat :: "nat \<Rightarrow> u64 \<Rightarrow> 'a fs \<Rightarrow> (u32 \<times> 'a fs) res" where
  "filestat f addr s =
     (if ftype (files s f) = FD_INODE \<or> ftype (files s f) = FD_DEVICE
      then let ip = fip (files s f); a = obj_at s ''filestat.st''
           in bind_res (ilock ip s) (\<lambda>s.
              bind_res (iunlock ip (stati ip a s)) (\<lambda>s.
              bind_res (copyout (mypt s) addr a 24 s) (\<lambda>(r, s).
              if r < 0 then Ok (-1, s) else Ok (0, s))))
      else Ok (-1, s))"

text \<open>Of the devices only the console, number 1, has read and write functions.\<close>

definition dev_ok :: "u16 \<Rightarrow> bool" where
  "dev_ok m \<longleftrightarrow> \<not> (sint m < 0 \<or> sint m \<ge> int NDEV \<or> m \<noteq> 1)"

definition fileread :: "nat \<Rightarrow> u64 \<Rightarrow> u32 \<Rightarrow> 'a fs \<Rightarrow> (u32 \<times> 'a fs) res" where
  "fileread f addr n s =
     (if \<not> readable (files s f) then Ok (-1, s)
      else case ftype (files s f) of
        FD_PIPE \<Rightarrow> bind_res (piperead (fpipe (files s f)) addr n s) await
      | FD_DEVICE \<Rightarrow> if \<not> dev_ok (fmajor (files s f)) then Ok (-1, s) else consoleread True addr n s
      | FD_INODE \<Rightarrow>
          let ip = fip (files s f)
          in bind_res (ilock ip s) (\<lambda>s.
             bind_res (readi ip True addr (foff (files s f)) n s) (\<lambda>(r, s).
             let s = (if sint r > 0 then fupd f (\<lambda>x. x\<lparr>foff := foff x + r\<rparr>) s else s)
             in bind_res (iunlock ip s) (\<lambda>s. Ok (r, s))))
      | FD_NONE \<Rightarrow> Panic ''fileread'')"

function filewrite_loop :: "nat \<Rightarrow> u64 \<Rightarrow> int \<Rightarrow> int \<Rightarrow> 'a fs \<Rightarrow> (int \<times> 'a fs) res" where
  "filewrite_loop f addr n i s =
     (if i < n
      then let n1 = (if n - i > 3072 then 3072 else n - i); ip = fip (files s f)
           in bind_res (begin_op s) (\<lambda>s.
              bind_res (ilock ip s) (\<lambda>s.
              bind_res (writei ip True (addr + word_of_int i) (foff (files s f)) (word_of_int n1) s) (\<lambda>(r, s).
              let s = (if sint r > 0 then fupd f (\<lambda>x. x\<lparr>foff := foff x + r\<rparr>) s else s)
              in bind_res (iunlock ip s) (\<lambda>s.
                 bind_res (end_op s) (\<lambda>s.
                 if sint r \<noteq> n1 then Ok (i, s) else filewrite_loop f addr n (i + n1) s)))))
      else Ok (i, s))"
  by pat_completeness auto
termination
  by (relation "measure (\<lambda>(f, addr, n, i, s). nat (n - i))") auto

declare filewrite_loop.simps [simp del]

definition filewrite :: "nat \<Rightarrow> u64 \<Rightarrow> u32 \<Rightarrow> 'a fs \<Rightarrow> (u32 \<times> 'a fs) res" where
  "filewrite f addr n s =
     (if \<not> writable (files s f) then Ok (-1, s)
      else case ftype (files s f) of
        FD_PIPE \<Rightarrow> bind_res (pipewrite (fpipe (files s f)) addr n s) await
      | FD_DEVICE \<Rightarrow> if \<not> dev_ok (fmajor (files s f)) then Ok (-1, s) else consolewrite True addr n s
      | FD_INODE \<Rightarrow>
          bind_res (filewrite_loop f addr (sint n) 0 s) (\<lambda>(i, s). Ok (if i = sint n then n else -1, s))
      | FD_NONE \<Rightarrow> Panic ''filewrite'')"

end
