(* ===== verification/Syscall.thy ===== *)
theory Syscall
  imports File
begin

text \<open>
  System-call arguments, \<^verbatim>\<open>kernel/syscall.c\<close>, and the process system calls, \<^verbatim>\<open>kernel/sysproc.c\<close>.
  The table of system calls itself is in a later theory.
\<close>

section \<open>Arguments\<close>

definition mytf :: "'a fs \<Rightarrow> u64" where "mytf s = trapframe (procs s (cur s))"

definition argraw :: "nat \<Rightarrow> 'a fs \<Rightarrow> u64 res" where
  "argraw n s = (if n < 6 then Ok (ld s (mytf s + TF_A0 + 8 * of_nat n)) else Panic ''argraw'')"

definition argint :: "nat \<Rightarrow> 'a fs \<Rightarrow> u32 res" where
  "argint n s = bind_res (argraw n s) (\<lambda>v. Ok (ucast v))"

definition argaddr :: "nat \<Rightarrow> 'a fs \<Rightarrow> u64 res" where
  "argaddr n s = argraw n s"

text \<open>\<open>ip\<close> is the kernel address the value is stored at; \<open>None\<close> is the result \<open>-1\<close>.\<close>

definition fetchaddr :: "u64 \<Rightarrow> u64 \<Rightarrow> 'a fs \<Rightarrow> (u64 option \<times> 'a fs) res" where
  "fetchaddr addr ip s =
     (let sz1 = sz (procs s (cur s))
      in if addr \<ge> sz1 \<or> addr + 8 > sz1 then Ok (None, s)
         else bind_res (copyin (mypt s) ip addr 8 s) (\<lambda>(r, s).
              if r \<noteq> 0 then Ok (None, s) else Ok (Some (ld s ip), s)))"

text \<open>The string fetched is returned as its bytes; the length the code returns is their number.\<close>

definition bytes_at :: "mem \<Rightarrow> u64 \<Rightarrow> nat \<Rightarrow> u8 list" where
  "bytes_at m a n = map (\<lambda>k. m (a + of_nat k)) [0..<n]"

definition fetchstr :: "u64 \<Rightarrow> u64 \<Rightarrow> nat \<Rightarrow> 'a fs \<Rightarrow> (u8 list option \<times> 'a fs) res" where
  "fetchstr addr buf1 mx s =
     bind_res (copyinstr (mypt s) buf1 addr (of_nat mx) s) (\<lambda>(r, s).
     if r < 0 then Ok (None, s)
     else bind_res (returns (map_option Ok (strlen (pm s) buf1))) (\<lambda>n. Ok (Some (bytes_at (pm s) buf1 n), s)))"

definition argstr :: "nat \<Rightarrow> u64 \<Rightarrow> nat \<Rightarrow> 'a fs \<Rightarrow> (u8 list option \<times> 'a fs) res" where
  "argstr n buf1 mx s = bind_res (argaddr n s) (\<lambda>addr. fetchstr addr buf1 mx s)"

section \<open>Process system calls\<close>

text \<open>A system call returns a value, ends the process, or sleeps.\<close>

datatype sysret = Ret u64 | Exited | Slept

text \<open>An \<open>int\<close> result is widened with its sign.\<close>

definition iret :: "u32 \<Rightarrow> sysret" where "iret r = Ret (scast r)"

definition put_cwd :: "nat option \<Rightarrow> 'a fs \<Rightarrow> 'a fs res" where
  "put_cwd ip s = bind_res (begin_op s) (\<lambda>s.
     case ip of None \<Rightarrow> null_deref | Some i \<Rightarrow> bind_res (iput i s) end_op)"

definition kexit :: "u32 \<Rightarrow> 'a fs \<Rightarrow> 'a fs res" where
  "kexit status s = exit fileclose put_cwd (cur s) status s"

definition sys_exit :: "'a fs \<Rightarrow> (sysret \<times> 'a fs) res" where
  "sys_exit s = bind_res (argint 0 s) (\<lambda>n. bind_res (kexit n s) (\<lambda>s. Ok (Exited, s)))"

definition sys_getpid :: "'a fs \<Rightarrow> (sysret \<times> 'a fs) res" where
  "sys_getpid s = Ok (iret (mypid s), s)"

definition sys_fork :: "'a fs \<Rightarrow> (sysret \<times> 'a fs) res" where
  "sys_fork s = bind_res (fork filedup idup (cur s) s) (\<lambda>(r, s). Ok (iret r, s))"

definition sys_wait :: "'a fs \<Rightarrow> (sysret \<times> 'a fs) res" where
  "sys_wait s = bind_res (argaddr 0 s) (\<lambda>p. bind_res (wait (cur s) p s) (\<lambda>(r, s).
     Ok (case r of Some v \<Rightarrow> iret v | None \<Rightarrow> Slept, s)))"

definition sys_sbrk :: "'a fs \<Rightarrow> (sysret \<times> 'a fs) res" where
  "sys_sbrk s = bind_res (argint 0 s) (\<lambda>n.
     let addr = sz (procs s (cur s))
     in bind_res (growproc (cur s) n s) (\<lambda>(r, s). Ok (if r < 0 then Ret (-1) else Ret addr, s)))"

text \<open>One test of the loop of \<open>sys_sleep\<close>, which started at tick \<open>ticks0\<close>; \<open>n\<close> is compared as unsigned.\<close>

definition sleep_round :: "u32 \<Rightarrow> u32 \<Rightarrow> 'a fs \<Rightarrow> sysret \<times> 'a fs" where
  "sleep_round ticks0 n s =
     (if ticks s - ticks0 < n
      then if killed (cur s) s \<noteq> 0 then (Ret (-1), s) else (Slept, sleep_enter (cur s) TicksChan s)
      else (Ret 0, s))"

definition sys_sleep :: "'a fs \<Rightarrow> (sysret \<times> 'a fs) res" where
  "sys_sleep s = bind_res (argint 0 s) (\<lambda>n. Ok (sleep_round (ticks s) n s))"

definition sys_kill :: "'a fs \<Rightarrow> (sysret \<times> 'a fs) res" where
  "sys_kill s = bind_res (argint 0 s) (\<lambda>p. let (r, s) = kill p s in Ok (Ret (word_of_int r), s))"

definition sys_uptime :: "'a fs \<Rightarrow> (sysret \<times> 'a fs) res" where
  "sys_uptime s = Ok (Ret (ucast (ticks s)), s)"

definition sys_trace :: "'a fs \<Rightarrow> (sysret \<times> 'a fs) res" where
  "sys_trace s = bind_res (argint 0 s) (\<lambda>mask.
     if sint mask < 2 then Ok (Ret (-1), s) else Ok (Ret 0, pupd (cur s) (tracemask_update (\<lambda>_. mask)) s))"

definition sys_settickets :: "'a fs \<Rightarrow> (sysret \<times> 'a fs) res" where
  "sys_settickets s = bind_res (argint 0 s) (\<lambda>n.
     if sint n < 1 then Ok (Ret (-1), s) else Ok (Ret 0, pupd (cur s) (tickets_update (\<lambda>_. n)) s))"

text \<open>
  \<open>returnVal > priority\<close> compares the old priority as a 64-bit unsigned number with the new one
  widened.  The yield gives up the CPU and later returns.
\<close>

definition sys_set_priority :: "'a fs \<Rightarrow> (sysret \<times> 'a fs) res" where
  "sys_set_priority s =
     bind_res (argint 0 s) (\<lambda>prio.
     bind_res (argint 1 s) (\<lambda>process_id.
     case getProc process_id s of
       None \<Rightarrow> Ok (Ret (-1), s)
     | Some p \<Rightarrow>
         let returnVal = scast (priority (procs s p)) :: u64;
             s = pupd p (\<lambda>x. x\<lparr>priority := prio, niceness := 5, timeRun := 0, timeSlept := 0\<rparr>) s
         in Ok (Ret returnVal, if returnVal > scast prio then yield (cur s) s else s)))"

definition sys_sigalarm :: "'a fs \<Rightarrow> (sysret \<times> 'a fs) res" where
  "sys_sigalarm s =
     bind_res (argint 0 s) (\<lambda>interval.
     bind_res (argaddr 1 s) (\<lambda>handler.
     if sint interval \<le> 0 then Ok (Ret (-1), pupd (cur s) (alarmFreq_update (\<lambda>_. 0)) s)
     else Ok (Ret 0, pupd (cur s) (\<lambda>x. x\<lparr>alarmFreq := interval, alarmHandler := handler, lastAlarm := 0\<rparr>) s)))"

definition sys_sigreturn :: "'a fs \<Rightarrow> (sysret \<times> 'a fs) res" where
  "sys_sigreturn s =
     (let s = pupd (cur s) (alarmRunning_update (\<lambda>_. 0)) s;
          b = backupTrapFrame (procs s (cur s));
          s = s\<lparr>pm := memmove (pm s) (mytf s) b TF_SIZE\<rparr>
      in if b = 0 then null_deref else bind_res (kfree b s) (\<lambda>s. Ok (Ret (ld s (mytf s + TF_A0)), s)))"

text \<open>
  \<open>wtime\<close> and \<open>rtime\<close> are locals of \<open>sys_waitx\<close>; when \<open>waitx\<close> does not set them they keep what
  memory holds there.
\<close>

definition sys_waitx :: "'a fs \<Rightarrow> (sysret \<times> 'a fs) res" where
  "sys_waitx s =
     bind_res (argaddr 0 s) (\<lambda>addr.
     bind_res (argaddr 1 s) (\<lambda>addr1.
     bind_res (argaddr 2 s) (\<lambda>addr2.
     bind_res (waitx (cur s) addr s) (\<lambda>(r, times, s).
     case r of
       None \<Rightarrow> Ok (Slept, s)
     | Some ret \<Rightarrow>
         let wt = obj_at s ''sys_waitx.wtime''; rt = obj_at s ''sys_waitx.rtime'';
             s = (case times of None \<Rightarrow> s
                  | Some (w, t) \<Rightarrow> s\<lparr>pm := store_le (store_le (pm s) wt w 4) rt t 4\<rparr>)
         in bind_res (copyout (mypt s) addr1 wt 4 s) (\<lambda>(c, s).
            if c < 0 then Ok (Ret (-1), s)
            else bind_res (copyout (mypt s) addr2 rt 4 s) (\<lambda>(c, s).
                 if c < 0 then Ok (Ret (-1), s) else Ok (iret ret, s)))))))"

end
