(* ===== verification/Exec.thy ===== *)
theory Exec
  imports Syscall
begin

text \<open>
  Loading a program, \<^verbatim>\<open>kernel/exec.c\<close>.  The arguments are the addresses of the argument strings in
  kernel memory, without the final null.
\<close>

definition flags2perm :: "u32 \<Rightarrow> u64" where
  "flags2perm flags =
     (let perm = (if flags AND 1 \<noteq> 0 then PTE_X else 0)
      in if flags AND 2 \<noteq> 0 then perm OR PTE_W else perm)"

primrec loadseg_loop :: "u64 \<Rightarrow> u64 \<Rightarrow> nat \<Rightarrow> u32 \<Rightarrow> u32 \<Rightarrow> u32 list \<Rightarrow> 'a fs \<Rightarrow> (int \<times> 'a fs) res" where
  "loadseg_loop pt va ip offset sz1 [] s = Ok (0, s)"
| "loadseg_loop pt va ip offset sz1 (i # is) s =
     bind_res (walkaddr pt (va + ucast i) s) (\<lambda>pa.
     if pa = 0 then Panic ''loadseg: address should exist''
     else let n = (if sz1 - i < 4096 then sz1 - i else 4096)
          in bind_res (readi ip False pa (offset + i) n s) (\<lambda>(r, s).
             if r \<noteq> n then Ok (-1, s) else loadseg_loop pt va ip offset sz1 is s))"

definition loadseg :: "u64 \<Rightarrow> u64 \<Rightarrow> nat \<Rightarrow> u32 \<Rightarrow> u32 \<Rightarrow> 'a fs \<Rightarrow> (int \<times> 'a fs) res" where
  "loadseg pt va ip offset sz1 s =
     loadseg_loop pt va ip offset sz1 (map (\<lambda>k. of_nat (4096 * k)) [0..<(unat sz1 + 4095) div 4096]) s"

text \<open>The program headers: \<open>k\<close> are left.  The result says whether all were loaded, and the size so far.\<close>

primrec exec_load :: "u64 \<Rightarrow> nat \<Rightarrow> nat \<Rightarrow> u32 \<Rightarrow> u64 \<Rightarrow> 'a fs \<Rightarrow> (bool \<times> u64 \<times> 'a fs) res" where
  "exec_load pt ip 0 off1 sz1 s = Ok (True, sz1, s)"
| "exec_load pt ip (Suc k) off1 sz1 s =
     (let ph = obj_at s ''exec.ph''
      in bind_res (readi ip False ph off1 56 s) (\<lambda>(r, s).
         let typ = load_le (pm s) ph 4 :: u32; flags = load_le (pm s) (ph + 4) 4 :: u32;
             phoff = ld s (ph + 8); vaddr = ld s (ph + 16); filesz = ld s (ph + 32); memsz = ld s (ph + 40)
         in if r \<noteq> 56 then Ok (False, sz1, s)
            else if typ \<noteq> 1 then exec_load pt ip k (off1 + 56) sz1 s
            else if memsz < filesz then Ok (False, sz1, s)
            else if vaddr + memsz < vaddr then Ok (False, sz1, s)
            else if vaddr mod PGSIZE \<noteq> 0 then Ok (False, sz1, s)
            else bind_res (uvmalloc pt sz1 (vaddr + memsz) (flags2perm flags) s) (\<lambda>(sz2, s).
                 if sz2 = 0 then Ok (False, sz1, s)
                 else bind_res (loadseg pt vaddr ip (ucast phoff) (ucast filesz) s) (\<lambda>(r, s).
                      if r < 0 then Ok (False, sz2, s) else exec_load pt ip k (off1 + 56) sz2 s))))"

text \<open>Pushing the argument strings: the stack pointers of those pushed so far are \<open>ustack\<close>.\<close>

primrec exec_push :: "u64 \<Rightarrow> u64 \<Rightarrow> u64 list \<Rightarrow> u64 \<Rightarrow> u64 list \<Rightarrow> 'a fs \<Rightarrow> (bool \<times> u64 \<times> u64 list \<times> 'a fs) res" where
  "exec_push pt stackbase [] sp1 ustack s = Ok (True, sp1, ustack, s)"
| "exec_push pt stackbase (arg # args) sp1 ustack s =
     (if length ustack \<ge> MAXARG then Ok (False, sp1, ustack, s)
      else bind_res (returns (map_option Ok (strlen (pm s) arg))) (\<lambda>len.
           let sp2 = sp1 - (of_nat len + 1); sp2 = sp2 - sp2 mod 16
           in if sp2 < stackbase then Ok (False, sp2, ustack, s)
              else bind_res (copyout pt sp2 arg (of_nat len + 1) s) (\<lambda>(r, s).
                   if r < 0 then Ok (False, sp2, ustack, s)
                   else exec_push pt stackbase args sp2 (ustack @ [sp2]) s)))"

definition store_words :: "u64 \<Rightarrow> u64 list \<Rightarrow> 'a fs \<Rightarrow> 'a fs" where
  "store_words a ws s = fold (\<lambda>(k, w). st (a + 8 * of_nat k) w) (enumerate 0 ws) s"

definition last_elem :: "u8 list \<Rightarrow> u8 list" where
  "last_elem path = rev (takeWhile (\<lambda>c. c \<noteq> SLASH) (rev path))"

text \<open>\<open>goto bad\<close>.\<close>

definition exec_bad :: "u64 \<Rightarrow> u64 \<Rightarrow> nat option \<Rightarrow> 'a fs \<Rightarrow> (u32 \<times> 'a fs) res" where
  "exec_bad pt sz1 ip s =
     bind_res (if pt \<noteq> 0 then proc_freepagetable pt sz1 s else Ok s) (\<lambda>s.
     bind_res (case ip of None \<Rightarrow> Ok s | Some i \<Rightarrow> bind_res (iunlockput i s) end_op) (\<lambda>s. Ok (-1, s)))"

text \<open>From the stack on: the program is loaded and its file released.\<close>

definition exec_stack :: "u8 list \<Rightarrow> u64 list \<Rightarrow> u64 \<Rightarrow> u64 \<Rightarrow> u64 \<Rightarrow> 'a fs \<Rightarrow> (u32 \<times> 'a fs) res" where
  "exec_stack path argv pt sz1 entry s =
     (let me = cur s; oldsz = sz (procs s me); sz1 = PGROUNDUP sz1
      in bind_res (uvmalloc pt sz1 (sz1 + 2 * PGSIZE) PTE_W s) (\<lambda>(sz2, s).
         if sz2 = 0 then exec_bad pt sz1 None s
         else bind_res (uvmclear pt (sz2 - 2 * PGSIZE) s) (\<lambda>s.
         let stackbase = sz2 - PGSIZE
         in bind_res (exec_push pt stackbase argv sz2 [] s) (\<lambda>(ok, sp1, ustack, s).
            if \<not> ok then exec_bad pt sz2 None s
            else
              let argc = length ustack; us = obj_at s ''exec.ustack'';
                  s = store_words us (ustack @ [0]) s;
                  sp2 = sp1 - of_nat (argc + 1) * 8; sp2 = sp2 - sp2 mod 16
              in if sp2 < stackbase then exec_bad pt sz2 None s
                 else bind_res (copyout pt sp2 us (of_nat (argc + 1) * 8) s) (\<lambda>(r, s).
                      if r < 0 then exec_bad pt sz2 None s
                      else
                        let s = st (mytf s + TF_A0 + 8) sp2 s;
                            s = pupd me (name_update (\<lambda>_. name_copy (last_elem path))) s;
                            oldpt = pagetable (procs s me);
                            s = pupd me (\<lambda>x. x\<lparr>pagetable := pt, sz := sz2\<rparr>) s;
                            s = st (mytf s + TF_SP) sp2 (st (mytf s + TF_EPC) entry s)
                        in bind_res (proc_freepagetable oldpt oldsz s) (\<lambda>s. Ok (of_nat argc, s)))))))"

definition exec :: "u8 list \<Rightarrow> u64 list \<Rightarrow> 'a fs \<Rightarrow> (u32 \<times> 'a fs) res" where
  "exec path argv s =
     bind_res (begin_op s) (\<lambda>s.
     bind_res (namei path s) (\<lambda>(ipo, s).
     case ipo of
       None \<Rightarrow> bind_res (end_op s) (\<lambda>s. Ok (-1, s))
     | Some ip \<Rightarrow>
         bind_res (ilock ip s) (\<lambda>s.
         let elf = obj_at s ''exec.elf''
         in bind_res (readi ip False elf 0 64 s) (\<lambda>(r, s).
            let entry = ld s (elf + 24); phoff = ld s (elf + 32); phnum = load_le (pm s) (elf + 56) 2 :: u16
            in if r \<noteq> 64 then exec_bad 0 0 (Some ip) s
               else if load_le (pm s) elf 4 \<noteq> (0x464C457F :: u32) then exec_bad 0 0 (Some ip) s
               else bind_res (proc_pagetable (cur s) s) (\<lambda>(pt, s).
                    if pt = 0 then exec_bad 0 0 (Some ip) s
                    else bind_res (exec_load pt ip (unat phnum) (ucast phoff) 0 s) (\<lambda>(ok, sz1, s).
                         if \<not> ok then exec_bad pt sz1 (Some ip) s
                         else bind_res (iunlockput ip s) (\<lambda>s.
                              bind_res (end_op s) (exec_stack path argv pt sz1 entry))))))))"

end
