(* ===== verification/Sysfile.thy ===== *)
theory Sysfile
  imports Exec Fcntl
begin

text \<open>The file system calls, \<^verbatim>\<open>kernel/sysfile.c\<close>.\<close>

definition argfd :: "nat \<Rightarrow> 'a fs \<Rightarrow> (nat \<times> nat) option res" where
  "argfd n s = bind_res (argint n s) (\<lambda>fd.
     if sint fd < 0 \<or> sint fd \<ge> int NOFILE then Ok None
     else case ofile (procs s (cur s)) (unat fd) of None \<Rightarrow> Ok None | Some f \<Rightarrow> Ok (Some (unat fd, f)))"

definition fdalloc :: "nat \<Rightarrow> 'a fs \<Rightarrow> nat option \<times> 'a fs" where
  "fdalloc f s = (case find (\<lambda>fd. ofile (procs s (cur s)) fd = None) [0..<NOFILE] of
     Some fd \<Rightarrow> (Some fd, pupd (cur s) (\<lambda>x. x\<lparr>ofile := (ofile x)(fd := Some f)\<rparr>) s)
   | None \<Rightarrow> (None, s))"

definition fail :: "'a fs \<Rightarrow> (sysret \<times> 'a fs) res" where "fail s = Ok (Ret (-1), s)"

definition sys_dup :: "'a fs \<Rightarrow> (sysret \<times> 'a fs) res" where
  "sys_dup s = bind_res (argfd 0 s) (\<lambda>r. case r of
     None \<Rightarrow> fail s
   | Some (_, f) \<Rightarrow> (case fdalloc f s of
       (None, s) \<Rightarrow> fail s
     | (Some fd, s) \<Rightarrow> bind_res (filedup f s) (\<lambda>s. Ok (Ret (of_nat fd), s))))"

definition sys_read :: "'a fs \<Rightarrow> (sysret \<times> 'a fs) res" where
  "sys_read s = bind_res (argaddr 1 s) (\<lambda>p. bind_res (argint 2 s) (\<lambda>n. bind_res (argfd 0 s) (\<lambda>r. case r of
     None \<Rightarrow> fail s | Some (_, f) \<Rightarrow> bind_res (fileread f p n s) (\<lambda>(v, s). Ok (iret v, s)))))"

definition sys_write :: "'a fs \<Rightarrow> (sysret \<times> 'a fs) res" where
  "sys_write s = bind_res (argaddr 1 s) (\<lambda>p. bind_res (argint 2 s) (\<lambda>n. bind_res (argfd 0 s) (\<lambda>r. case r of
     None \<Rightarrow> fail s | Some (_, f) \<Rightarrow> bind_res (filewrite f p n s) (\<lambda>(v, s). Ok (iret v, s)))))"

definition sys_close :: "'a fs \<Rightarrow> (sysret \<times> 'a fs) res" where
  "sys_close s = bind_res (argfd 0 s) (\<lambda>r. case r of
     None \<Rightarrow> fail s
   | Some (fd, f) \<Rightarrow>
       bind_res (fileclose f (pupd (cur s) (\<lambda>x. x\<lparr>ofile := (ofile x)(fd := None)\<rparr>) s)) (\<lambda>s. Ok (Ret 0, s)))"

definition sys_fstat :: "'a fs \<Rightarrow> (sysret \<times> 'a fs) res" where
  "sys_fstat s = bind_res (argaddr 1 s) (\<lambda>sta. bind_res (argfd 0 s) (\<lambda>r. case r of
     None \<Rightarrow> fail s | Some (_, f) \<Rightarrow> bind_res (filestat f sta s) (\<lambda>(v, s). Ok (iret v, s))))"

text \<open>\<open>end_op(); return -1\<close>, possibly after \<open>iunlockput\<close>.\<close>

definition end_fail :: "'a fs \<Rightarrow> (sysret \<times> 'a fs) res" where
  "end_fail s = bind_res (end_op s) fail"

definition put_fail :: "nat \<Rightarrow> 'a fs \<Rightarrow> (sysret \<times> 'a fs) res" where
  "put_fail ip s = bind_res (iunlockput ip s) end_fail"

definition link_bad :: "nat \<Rightarrow> 'a fs \<Rightarrow> (sysret \<times> 'a fs) res" where
  "link_bad ip s =
     bind_res (ilock ip s) (\<lambda>s.
     bind_res (iupdate ip (iupd ip (\<lambda>x. x\<lparr>nlink := nlink x - 1\<rparr>) s)) (put_fail ip))"

definition sys_link :: "'a fs \<Rightarrow> (sysret \<times> 'a fs) res" where
  "sys_link s =
     bind_res (argstr 0 (obj_at s ''sys_link.old'') MAXPATH s) (\<lambda>(old, s). case old of None \<Rightarrow> fail s | Some old \<Rightarrow>
     bind_res (argstr 1 (obj_at s ''sys_link.new'') MAXPATH s) (\<lambda>(new, s). case new of None \<Rightarrow> fail s | Some new \<Rightarrow>
     bind_res (begin_op s) (\<lambda>s.
     bind_res (namei old s) (\<lambda>(ipo, s). case ipo of None \<Rightarrow> end_fail s | Some ip \<Rightarrow>
     bind_res (ilock ip s) (\<lambda>s.
     if itype (inodes s ip) = T_DIR then put_fail ip s
     else bind_res (iupdate ip (iupd ip (\<lambda>x. x\<lparr>nlink := nlink x + 1\<rparr>) s)) (\<lambda>s.
          bind_res (iunlock ip s) (\<lambda>s.
          bind_res (nameiparent new s) (\<lambda>(dpo, elem, s). case dpo of None \<Rightarrow> link_bad ip s | Some dp \<Rightarrow>
          bind_res (ilock dp s) (\<lambda>s.
          bind_res (if idev (inodes s dp) \<noteq> idev (inodes s ip) then Ok (-1, s)
                    else dirlink dp elem (inum (inodes s ip)) s) (\<lambda>(r, s).
          if r < 0 then bind_res (iunlockput dp s) (link_bad ip)
          else bind_res (iunlockput dp s) (\<lambda>s.
               bind_res (iput ip s) (\<lambda>s.
               bind_res (end_op s) (\<lambda>s. Ok (Ret 0, s))))))))))))))"

primrec isdirempty_loop :: "nat \<Rightarrow> u32 list \<Rightarrow> 'a fs \<Rightarrow> (bool \<times> 'a fs) res" where
  "isdirempty_loop dp [] s = Ok (True, s)"
| "isdirempty_loop dp (off1 # offs) s =
     (let de = obj_at s ''isdirempty.de''
      in bind_res (readi dp False de off1 16 s) (\<lambda>(r, s).
         if r \<noteq> 16 then Panic ''isdirempty: readi''
         else if de_inum (pm s) de \<noteq> 0 then Ok (False, s) else isdirempty_loop dp offs s))"

definition isdirempty :: "nat \<Rightarrow> 'a fs \<Rightarrow> (bool \<times> 'a fs) res" where
  "isdirempty dp s = isdirempty_loop dp (drop 2 (dir_offs (isize (inodes s dp)))) s"

definition DOT :: "u8 list" where "DOT = [46]"
definition DOTDOT :: "u8 list" where "DOTDOT = [46, 46]"

text \<open>The part of \<open>sys_unlink\<close> that removes entry \<open>off1\<close> of \<open>dp\<close> for the locked inode \<open>ip\<close>.\<close>

definition unlink_entry :: "nat \<Rightarrow> nat \<Rightarrow> u32 \<Rightarrow> 'a fs \<Rightarrow> (sysret \<times> 'a fs) res" where
  "unlink_entry dp ip off1 s =
     (let de = obj_at s ''sys_unlink.de''; s = s\<lparr>pm := memset (pm s) de 0 16\<rparr>
      in bind_res (writei dp False de off1 16 s) (\<lambda>(r, s).
         if r \<noteq> 16 then Panic ''unlink: writei''
         else bind_res (if itype (inodes s ip) = T_DIR
                        then iupdate dp (iupd dp (\<lambda>x. x\<lparr>nlink := nlink x - 1\<rparr>) s) else Ok s) (\<lambda>s.
              bind_res (iunlockput dp s) (\<lambda>s.
              bind_res (iupdate ip (iupd ip (\<lambda>x. x\<lparr>nlink := nlink x - 1\<rparr>) s)) (\<lambda>s.
              bind_res (iunlockput ip s) (\<lambda>s.
              bind_res (end_op s) (\<lambda>s. Ok (Ret 0, s))))))))"

definition sys_unlink :: "'a fs \<Rightarrow> (sysret \<times> 'a fs) res" where
  "sys_unlink s =
     bind_res (argstr 0 (obj_at s ''sys_unlink.path'') MAXPATH s) (\<lambda>(path, s). case path of None \<Rightarrow> fail s | Some path \<Rightarrow>
     bind_res (begin_op s) (\<lambda>s.
     bind_res (nameiparent path s) (\<lambda>(dpo, elem, s). case dpo of None \<Rightarrow> end_fail s | Some dp \<Rightarrow>
     bind_res (ilock dp s) (\<lambda>s.
     if namecmp elem DOT = 0 \<or> namecmp elem DOTDOT = 0 then put_fail dp s
     else bind_res (dirlookup dp elem s) (\<lambda>(r, s). case r of None \<Rightarrow> put_fail dp s | Some (ip, off1) \<Rightarrow>
          bind_res (ilock ip s) (\<lambda>s.
          if sint (nlink (inodes s ip)) < 1 then Panic ''unlink: nlink < 1''
          else bind_res (if itype (inodes s ip) = T_DIR then isdirempty ip s else Ok (True, s)) (\<lambda>(empty, s).
               if \<not> empty then bind_res (iunlockput ip s) (put_fail dp)
               else unlink_entry dp ip off1 s)))))))"

definition create_fail :: "nat \<Rightarrow> nat \<Rightarrow> 'a fs \<Rightarrow> (nat option \<times> 'a fs) res" where
  "create_fail dp ip s =
     bind_res (iupdate ip (iupd ip (nlink_update (\<lambda>_. 0)) s)) (\<lambda>s.
     bind_res (iunlockput ip s) (\<lambda>s.
     bind_res (iunlockput dp s) (\<lambda>s. Ok (None, s))))"

definition create :: "u8 list \<Rightarrow> u16 \<Rightarrow> u16 \<Rightarrow> u16 \<Rightarrow> 'a fs \<Rightarrow> (nat option \<times> 'a fs) res" where
  "create path ty maj mnr s =
     bind_res (nameiparent path s) (\<lambda>(dpo, elem, s). case dpo of None \<Rightarrow> Ok (None, s) | Some dp \<Rightarrow>
     bind_res (ilock dp s) (\<lambda>s.
     bind_res (dirlookup dp elem s) (\<lambda>(r, s). case r of
       Some (ip, _) \<Rightarrow>
         bind_res (iunlockput dp s) (\<lambda>s.
         bind_res (ilock ip s) (\<lambda>s.
         if ty = T_FILE \<and> (itype (inodes s ip) = T_FILE \<or> itype (inodes s ip) = T_DEVICE) then Ok (Some ip, s)
         else bind_res (iunlockput ip s) (\<lambda>s. Ok (None, s))))
     | None \<Rightarrow>
         bind_res (ialloc (idev (inodes s dp)) ty s) (\<lambda>(ipo, s). case ipo of
           None \<Rightarrow> bind_res (iunlockput dp s) (\<lambda>s. Ok (None, s))
         | Some ip \<Rightarrow>
             bind_res (ilock ip s) (\<lambda>s.
             bind_res (iupdate ip (iupd ip (\<lambda>x. x\<lparr>imajor := maj, iminor := mnr, nlink := 1\<rparr>) s)) (\<lambda>s.
             bind_res (if ty = T_DIR
                       then bind_res (dirlink ip DOT (inum (inodes s ip)) s) (\<lambda>(r, s).
                            if r < 0 then Ok (-1, s) else dirlink ip DOTDOT (inum (inodes s dp)) s)
                       else Ok (0, s)) (\<lambda>(r, s).
             if r < 0 then create_fail dp ip s
             else bind_res (dirlink dp elem (inum (inodes s ip)) s) (\<lambda>(r, s).
                  if r < 0 then create_fail dp ip s
                  else bind_res (if ty = T_DIR then iupdate dp (iupd dp (\<lambda>x. x\<lparr>nlink := nlink x + 1\<rparr>) s) else Ok s) (\<lambda>s.
                       bind_res (iunlockput dp s) (\<lambda>s. Ok (Some ip, s)))))))))))"

text \<open>From the locked inode on.\<close>

definition open_inode :: "nat \<Rightarrow> u32 \<Rightarrow> 'a fs \<Rightarrow> (sysret \<times> 'a fs) res" where
  "open_inode ip omode s =
     (let x = inodes s ip
      in if itype x = T_DEVICE \<and> (sint (imajor x) < 0 \<or> sint (imajor x) \<ge> int NDEV) then put_fail ip s
         else case filealloc s of
           (None, s) \<Rightarrow> put_fail ip s
         | (Some f, s) \<Rightarrow> (case fdalloc f s of
             (None, s) \<Rightarrow> bind_res (fileclose f s) (put_fail ip)
           | (Some fd, s) \<Rightarrow>
               let s = (if itype (inodes s ip) = T_DEVICE
                        then fupd f (\<lambda>g. g\<lparr>ftype := FD_DEVICE, fmajor := imajor (inodes s ip)\<rparr>) s
                        else fupd f (\<lambda>g. g\<lparr>ftype := FD_INODE, foff := 0\<rparr>) s);
                   s = fupd f (\<lambda>g. g\<lparr>fip := ip, readable := (omode AND O_WRONLY = 0),
                                     writable := (omode AND O_WRONLY \<noteq> 0 \<or> omode AND O_RDWR \<noteq> 0)\<rparr>) s
               in bind_res (if omode AND O_TRUNC \<noteq> 0 \<and> itype (inodes s ip) = T_FILE then itrunc ip s else Ok s) (\<lambda>s.
                  bind_res (iunlock ip s) (\<lambda>s.
                  bind_res (end_op s) (\<lambda>s. Ok (Ret (of_nat fd), s))))))"

definition sys_open :: "'a fs \<Rightarrow> (sysret \<times> 'a fs) res" where
  "sys_open s =
     bind_res (argint 1 s) (\<lambda>omode.
     bind_res (argstr 0 (obj_at s ''sys_open.path'') MAXPATH s) (\<lambda>(path, s). case path of None \<Rightarrow> fail s | Some path \<Rightarrow>
     bind_res (begin_op s) (\<lambda>s.
     if omode AND O_CREATE \<noteq> 0
     then bind_res (create path T_FILE 0 0 s) (\<lambda>(ipo, s). case ipo of
            None \<Rightarrow> end_fail s | Some ip \<Rightarrow> open_inode ip omode s)
     else bind_res (namei path s) (\<lambda>(ipo, s). case ipo of
            None \<Rightarrow> end_fail s
          | Some ip \<Rightarrow> bind_res (ilock ip s) (\<lambda>s.
              if itype (inodes s ip) = T_DIR \<and> omode \<noteq> 0 then put_fail ip s else open_inode ip omode s)))))"

text \<open>What \<open>sys_mkdir\<close> and \<open>sys_mknod\<close> do with the result of \<open>create\<close>.\<close>

definition made :: "nat option \<times> 'a fs \<Rightarrow> (sysret \<times> 'a fs) res" where
  "made r = (case r of
     (None, s) \<Rightarrow> end_fail s
   | (Some ip, s) \<Rightarrow> bind_res (iunlockput ip s) (\<lambda>s. bind_res (end_op s) (\<lambda>s. Ok (Ret 0, s))))"

definition sys_mkdir :: "'a fs \<Rightarrow> (sysret \<times> 'a fs) res" where
  "sys_mkdir s =
     bind_res (begin_op s) (\<lambda>s.
     bind_res (argstr 0 (obj_at s ''sys_mkdir.path'') MAXPATH s) (\<lambda>(path, s). case path of None \<Rightarrow> end_fail s | Some path \<Rightarrow>
     bind_res (create path T_DIR 0 0 s) made))"

definition sys_mknod :: "'a fs \<Rightarrow> (sysret \<times> 'a fs) res" where
  "sys_mknod s =
     bind_res (begin_op s) (\<lambda>s.
     bind_res (argint 1 s) (\<lambda>maj.
     bind_res (argint 2 s) (\<lambda>mnr.
     bind_res (argstr 0 (obj_at s ''sys_mknod.path'') MAXPATH s) (\<lambda>(path, s). case path of None \<Rightarrow> end_fail s | Some path \<Rightarrow>
     bind_res (create path T_DEVICE (ucast maj) (ucast mnr) s) made))))"

definition sys_chdir :: "'a fs \<Rightarrow> (sysret \<times> 'a fs) res" where
  "sys_chdir s =
     bind_res (begin_op s) (\<lambda>s.
     bind_res (argstr 0 (obj_at s ''sys_chdir.path'') MAXPATH s) (\<lambda>(path, s). case path of None \<Rightarrow> end_fail s | Some path \<Rightarrow>
     bind_res (namei path s) (\<lambda>(ipo, s). case ipo of None \<Rightarrow> end_fail s | Some ip \<Rightarrow>
     bind_res (ilock ip s) (\<lambda>s.
     if itype (inodes s ip) \<noteq> T_DIR then put_fail ip s
     else bind_res (iunlock ip s) (\<lambda>s.
          bind_res (case cwd (procs s (cur s)) of None \<Rightarrow> null_deref | Some old \<Rightarrow> iput old s) (\<lambda>s.
          bind_res (end_op s) (\<lambda>s.
          Ok (Ret 0, pupd (cur s) (cwd_update (\<lambda>_. Some ip)) s))))))))"

primrec free_args :: "u64 list \<Rightarrow> 'a fs \<Rightarrow> 'a fs res" where
  "free_args [] s = Ok s"
| "free_args (a # as) s = bind_res (kfree a s) (free_args as)"

text \<open>
  The loop of \<open>sys_exec\<close>: \<open>k\<close> slots of \<open>argv\<close> are left, \<open>argv\<close> holds those filled.  The flag says
  whether the end of the user's array was reached.
\<close>

primrec fetch_args :: "u64 \<Rightarrow> nat \<Rightarrow> u64 list \<Rightarrow> 'a fs \<Rightarrow> (bool \<times> u64 list \<times> 'a fs) res" where
  "fetch_args uargv 0 argv s = Ok (False, argv, s)"
| "fetch_args uargv (Suc k) argv s =
     bind_res (fetchaddr (uargv + 8 * of_nat (length argv)) (obj_at s ''sys_exec.uarg'') s) (\<lambda>(r, s). case r of
       None \<Rightarrow> Ok (False, argv, s)
     | Some uarg \<Rightarrow>
         if uarg = 0 then Ok (True, argv, s)
         else bind_res (kalloc s) (\<lambda>(a, s).
              if a = 0 then Ok (False, argv, s)
              else bind_res (fetchstr uarg a 4096 s) (\<lambda>(t, s). case t of
                     None \<Rightarrow> Ok (False, argv @ [a], s)
                   | Some _ \<Rightarrow> fetch_args uargv k (argv @ [a]) s)))"

definition sys_exec :: "'a fs \<Rightarrow> (sysret \<times> 'a fs) res" where
  "sys_exec s =
     bind_res (argaddr 1 s) (\<lambda>uargv.
     bind_res (argstr 0 (obj_at s ''sys_exec.path'') MAXPATH s) (\<lambda>(path, s). case path of None \<Rightarrow> fail s | Some path \<Rightarrow>
     bind_res (fetch_args uargv MAXARG [] s) (\<lambda>(ok, argv, s).
     if \<not> ok then bind_res (free_args argv s) fail
     else bind_res (exec path argv s) (\<lambda>(ret, s).
          bind_res (free_args argv s) (\<lambda>s. Ok (iret ret, s))))))"

definition clear_fd :: "nat \<Rightarrow> 'a fs \<Rightarrow> 'a fs" where
  "clear_fd fd s = pupd (cur s) (\<lambda>x. x\<lparr>ofile := (ofile x)(fd := None)\<rparr>) s"

definition close_both :: "nat \<Rightarrow> nat \<Rightarrow> 'a fs \<Rightarrow> (sysret \<times> 'a fs) res" where
  "close_both rf wf1 s = bind_res (fileclose rf s) (\<lambda>s. bind_res (fileclose wf1 s) fail)"

definition sys_pipe :: "'a fs \<Rightarrow> (sysret \<times> 'a fs) res" where
  "sys_pipe s =
     bind_res (argaddr 0 s) (\<lambda>fdarray.
     bind_res (pipealloc s) (\<lambda>(r, s). case r of None \<Rightarrow> fail s | Some (rf, wf1) \<Rightarrow>
     (case fdalloc rf s of
        (None, s) \<Rightarrow> close_both rf wf1 s
      | (Some fd0, s) \<Rightarrow> (case fdalloc wf1 s of
          (None, s) \<Rightarrow> close_both rf wf1 (clear_fd fd0 s)
        | (Some fd1, s) \<Rightarrow>
            let a0 = obj_at s ''sys_pipe.fd0''; a1 = obj_at s ''sys_pipe.fd1'';
                s = s\<lparr>pm := store_le (store_le (pm s) a0 (of_nat fd0 :: u32) 4) a1 (of_nat fd1 :: u32) 4\<rparr>
            in bind_res (bind_res (copyout (mypt s) fdarray a0 4 s) (\<lambda>(r, s).
                   if r < 0 then Ok (r, s) else copyout (mypt s) (fdarray + 4) a1 4 s)) (\<lambda>(r, s).
               if r < 0 then close_both rf wf1 (clear_fd fd1 (clear_fd fd0 s)) else Ok (Ret 0, s))))))"

end
