(* ===== verification/Pagetable.thy ===== *)
theory Pagetable
  imports Vm "HOL-Library.Sublist"
begin

text \<open>
  What the page tables in memory mean.  A table page is reached from the root by a path of
  entry indices; \<open>vmap\<close> reads the leaf entry of a virtual address, 0 if there is none.  In a
  well-formed table all reached pages are different pages of the allocator with one reference
  each.  The lemmas here show what \<open>walk\<close> and a write to a leaf entry do to that meaning.
\<close>

section \<open>The meaning of a page table\<close>

primrec tbl :: "mem \<Rightarrow> u64 \<Rightarrow> nat list \<Rightarrow> u64 option" where
  "tbl m pt [] = Some pt"
| "tbl m pt (i # q) =
     (let e = load64 m (pt + 8 * of_nat i) in if has e PTE_V then tbl m (PTE2PA e) q else None)"

definition path :: "nat list \<Rightarrow> bool" where
  "path q \<longleftrightarrow> length q \<le> 2 \<and> (\<forall>i \<in> set q. i < 512)"

definition vpath :: "u64 \<Rightarrow> nat list" where
  "vpath va = [unat (PX 2 va), unat (PX 1 va)]"

definition vmap :: "'a st \<Rightarrow> u64 \<Rightarrow> u64 \<Rightarrow> u64" where
  "vmap s root va = (case tbl (pm s) root (vpath va) of None \<Rightarrow> 0 | Some t \<Rightarrow> ld s (t + 8 * PX 0 va))"

definition tables :: "'a st \<Rightarrow> u64 \<Rightarrow> u64 set" where
  "tables s root = {x. \<exists>q. path q \<and> tbl (pm s) root q = Some x}"

definition pt_wf :: "'a st \<Rightarrow> u64 \<Rightarrow> bool" where
  "pt_wf s root \<longleftrightarrow> kinv s
     \<and> (\<forall>q x. path q \<longrightarrow> tbl (pm s) root q = Some x \<longrightarrow> x \<in> kpages s \<and> kcnt s x = 1)
     \<and> (\<forall>q r x. path q \<longrightarrow> path r \<longrightarrow> tbl (pm s) root q = Some x \<longrightarrow> tbl (pm s) root r = Some x \<longrightarrow> q = r)"

section \<open>Entries of a table page\<close>

lemma kpages_aligned: "x \<in> kpages s \<Longrightarrow> pg_aligned x"
  by (simp add: kpages_def page_ok_def)

lemma pt_wfD:
  assumes "pt_wf s root"
  shows "kinv s" and "path q \<Longrightarrow> tbl (pm s) root q = Some x \<Longrightarrow> x \<in> kpages s"
    and "path q \<Longrightarrow> tbl (pm s) root q = Some x \<Longrightarrow> kcnt s x = 1"
    and "path q \<Longrightarrow> tbl (pm s) root q = Some x \<Longrightarrow> pg_aligned x"
    and "path q \<Longrightarrow> path r \<Longrightarrow> tbl (pm s) root q = Some x \<Longrightarrow> tbl (pm s) root r = Some x \<Longrightarrow> q = r"
  using assms kpages_aligned [of x s] unfolding pt_wf_def by blast+

lemma slot_offset:
  assumes "i < 512" "k < 8" shows "unat (8 * of_nat i + of_nat k :: u64) = 8 * i + k"
  using assms by (simp add: unat_word_ariths unat_of_nat)

lemma slot_page:
  assumes "pg_aligned t" "i < 512" "k < 8"
  shows "PGROUNDDOWN (t + 8 * of_nat i + of_nat k) = t"
proof -
  have "t + 8 * of_nat i + of_nat k - t = 8 * of_nat i + of_nat k" by simp
  then have "unat (t + 8 * of_nat i + of_nat k - t) = 8 * i + k"
    using slot_offset [OF assms(2,3)] by simp
  then have "unat (t + 8 * of_nat i + of_nat k - t) < 4096" using assms(2,3) by simp
  then show ?thesis by (simp only: page_bytes [OF assms(1)])
qed

lemma slot_page0: "pg_aligned t \<Longrightarrow> i < 512 \<Longrightarrow> PGROUNDDOWN (t + 8 * of_nat i) = t"
  using slot_page [of t i 0] by simp

lemma load64_page_cong:
  assumes "pg_aligned t" "i < 512" "\<And>a. PGROUNDDOWN a = t \<Longrightarrow> m' a = m a"
  shows "load64 m' (t + 8 * of_nat i) = load64 m (t + 8 * of_nat i)"
  using assms(3) slot_page [OF assms(1,2)] by (intro load64_cong) auto

lemma slot_inj:
  assumes "pg_aligned t" "pg_aligned u" "i < 512" "j < 512" "t + 8 * of_nat i = u + 8 * of_nat j"
  shows "t = u \<and> i = j"
proof -
  have tu: "t = u" using assms slot_page0 by metis
  then have "unat (8 * of_nat i :: u64) = unat (8 * of_nat j :: u64)" using assms(5) by simp
  then have "8 * i = 8 * j" using slot_offset [of i 0] slot_offset [of j 0] assms(3,4) by simp
  with tu show ?thesis by simp
qed

lemma slot_mod8:
  assumes "pg_aligned t" "i < 512" shows "unat (t + 8 * of_nat i) mod 8 = 0"
proof -
  have p: "unat t mod 8 = 0" by (rule pg_aligned_mod8 [OF assms(1)])
  have "unat (t + 8 * of_nat i) mod 8 = ((unat t + 8 * i) mod 2 ^ 64) mod 8"
    using slot_offset [of i 0] assms(2) by (simp add: unat_word_ariths)
  also have "\<dots> = (unat t + 8 * i) mod 8" by (rule mod_mod_cancel) simp
  also have "\<dots> = 0" using p by presburger
  finally show ?thesis .
qed

lemma load64_store64_slot:
  assumes "pg_aligned t" "pg_aligned u" "i < 512" "j < 512"
  shows "load64 (store64 m (t + 8 * of_nat i) v) (u + 8 * of_nat j) =
     (if t = u \<and> i = j then v else load64 m (u + 8 * of_nat j))"
proof (cases "t = u \<and> i = j")
  case False
  then have "t + 8 * of_nat i \<noteq> u + 8 * of_nat j" using slot_inj [OF assms] by blast
  then have "sep8 (t + 8 * of_nat i) (u + 8 * of_nat j)"
    by (intro sep8_aligned slot_mod8 assms)
  with False show ?thesis by (auto simp: load64_store64_other)
qed (simp add: load64_store64_same)

lemma store64_slot_page:
  assumes "pg_aligned t" "i < 512" "PGROUNDDOWN a \<noteq> t"
  shows "store64 m (t + 8 * of_nat i) v a = m a"
proof -
  have "\<not> unat (a - (t + 8 * of_nat i)) < 8"
  proof
    let ?k = "unat (a - (t + 8 * of_nat i))"
    assume k: "?k < 8"
    have "a = t + 8 * of_nat i + of_nat ?k" by (simp add: word_unat_eq_iff)
    then have "PGROUNDDOWN a = t" using slot_page [OF assms(1,2) k] by simp
    with assms(3) show False by simp
  qed
  then show ?thesis by (simp add: store64_apply)
qed

lemma memset_zero_load64:
  assumes "pg_aligned t" "i < 512"
  shows "load64 (memset m t 0 (ucast PGSIZE)) (t + 8 * of_nat i) = 0"
proof -
  have "load64 (memset m t 0 (ucast PGSIZE)) (t + 8 * of_nat i) = load64 (\<lambda>_. 0) (0 :: u64)"
    by (rule load64_cong) (simp add: memset_page_apply assms(1) slot_page [OF assms])
  also have "\<dots> = 0" by (rule bit_word_eqI) (simp add: bit_load64)
  finally show ?thesis .
qed

lemma PX_nat: "PX l va = of_nat (unat (PX l va))" by simp

lemma has_zero [simp]: "\<not> has 0 f" by (simp add: has_def)

lemma has_or [simp]: "has (a OR b) f \<longleftrightarrow> has a f \<or> has b f"
  by (auto simp: has_def bit_eq_iff bit_simps)

lemma has_flag_self [simp]:
  "has PTE_V PTE_V" "has PTE_R PTE_R" "has PTE_W PTE_W" "has PTE_X PTE_X" "has PTE_U PTE_U" "has PTE_COW PTE_COW"
  by (simp_all add: has_def pte_bit_defs)

lemma flag_small [simp]:
  "drop_bit 10 PTE_V = 0" "drop_bit 10 PTE_R = 0" "drop_bit 10 PTE_W = 0" "drop_bit 10 PTE_X = 0"
  "drop_bit 10 PTE_U = 0" "drop_bit 10 PTE_COW = 0"
  by (simp_all add: pte_bit_defs drop_bit_eq_div)

lemma page_high_bits:
  assumes "z < PHYSTOP" shows "drop_bit 56 z = 0"
proof -
  have "unat z < 2281701376" using assms by (simp add: word_less_nat_alt PHYSTOP_nat)
  then have "unat (drop_bit 56 z) = 0" by (simp add: drop_bit_eq_div unat_div)
  then show ?thesis by (simp add: unat_eq_0)
qed

lemma PTE2PA_page:
  assumes "z \<in> kpages s" "drop_bit 10 fl = 0" shows "PTE2PA (PA2PTE z OR fl) = z"
  using assms by (intro PTE2PA_PA2PTE) (auto simp: kpages_def page_ok_def page_high_bits)

section \<open>The allocator and writes to pages in use\<close>

lemma pm_upd_simps [simp]:
  "kpages (s\<lparr>pm := m\<rparr>) = kpages s" "kcnt (s\<lparr>pm := m\<rparr>) = kcnt s"
  by (simp_all add: kpages_def kcnt_def page_ok_def fun_eq_iff)

lemma kinv_write:
  assumes "kinv s" and "\<And>a. PGROUNDDOWN a \<in> kpages s \<Longrightarrow> kcnt s (PGROUNDDOWN a) = 0 \<Longrightarrow> m a = pm s a"
  shows "kinv (s\<lparr>pm := m\<rparr>)"
proof -
  obtain fl where fl: "kmem_inv (kpages s) s fl" using assms(1) by (auto simp: kinv_def)
  have "load64 (pm s) q = load64 m q" if q: "q \<in> set fl" for q
  proof -
    have qp: "q \<in> kpages s" using fl q by (auto simp: kmem_inv_def)
    have "kcnt s q = 0" using kcnt_zero [OF fl qp] q by simp
    then have "m a = pm s a" if "PGROUNDDOWN a = q" for a using assms(2) [of a] qp that by simp
    then show ?thesis using load64_page_cong [OF kpages_aligned [OF qp], of 0 m "pm s"] by simp
  qed
  then have "chain m (freelist s) fl" using chain_cong [of fl "pm s" m] fl by (simp add: kmem_inv_def)
  then have "kmem_inv (kpages s) (s\<lparr>pm := m\<rparr>) fl" using fl by (simp add: kmem_inv_def page_ok_def)
  then show ?thesis by (auto simp: kinv_def)
qed

lemma kinv_write_used:
  assumes "kinv s" "p \<in> kpages s" "0 < kcnt s p" and "\<And>a. PGROUNDDOWN a \<noteq> p \<Longrightarrow> m a = pm s a"
  shows "kinv (s\<lparr>pm := m\<rparr>)"
  using assms by (intro kinv_write) (auto, metis less_numeral_extra(3))

section \<open>Paths under a change of memory\<close>

lemma tbl_snoc:
  "tbl m pt (q @ [i]) = (case tbl m pt q of None \<Rightarrow> None
     | Some x \<Rightarrow> let e = load64 m (x + 8 * of_nat i) in if has e PTE_V then Some (PTE2PA e) else None)"
  by (induction q arbitrary: pt) (auto simp: Let_def)

lemma path_snocD: "path (q @ [i]) \<Longrightarrow> path q \<and> i < 512 \<and> length q < 2"
  by (auto simp: path_def)

lemma tbl_frame:
  assumes "\<And>q i x. P (q @ [i]) \<Longrightarrow> path (q @ [i]) \<Longrightarrow> tbl m root q = Some x \<Longrightarrow>
      load64 m' (x + 8 * of_nat i) = load64 m (x + 8 * of_nat i)"
    and "\<And>q i. P (q @ [i]) \<Longrightarrow> P q" "path q" "P q"
  shows "tbl m' root q = tbl m root q"
  using assms(3,4)
proof (induction q rule: rev_induct)
  case (snoc i q)
  then have "tbl m' root q = tbl m root q" using assms(2) path_snocD by blast
  then show ?case using assms(1) snoc.prems by (auto simp: tbl_snoc Let_def split: option.splits)
qed simp

lemma path_vpath [simp]: "path (vpath va)"
  by (simp add: path_def vpath_def PX_less)

lemma vmap_frame:
  assumes "pt_wf s root" "\<And>a. PGROUNDDOWN a \<in> tables s root \<Longrightarrow> pm s' a = pm s a"
  shows "path q \<Longrightarrow> tbl (pm s') root q = tbl (pm s) root q" "vmap s' root va = vmap s root va"
    "tables s' root = tables s root"
proof -
  have ld: "load64 (pm s') (x + 8 * of_nat i) = load64 (pm s) (x + 8 * of_nat i)"
    if "path q" "tbl (pm s) root q = Some x" "i < 512" for q x i
    using that assms by (intro load64_page_cong) (auto simp: tables_def dest: pt_wfD(4))
  have t: "tbl (pm s') root q = tbl (pm s) root q" if "path q" for q
    by (rule tbl_frame [where P = "\<lambda>_. True"]) (use that ld path_snocD in blast)+
  then show "path q \<Longrightarrow> tbl (pm s') root q = tbl (pm s) root q" .
  show "tables s' root = tables s root" using t by (auto simp: tables_def)
  show "vmap s' root va = vmap s root va"
    using t [of "vpath va"] ld [of "vpath va" _ "unat (PX 0 va)"]
    by (auto simp: vmap_def ld_def PX_less split: option.splits)
qed

section \<open>What a walk may change\<close>

text \<open>
  \<open>vm_frame root s s'\<close>: the step from \<open>s\<close> to \<open>s'\<close> only added table pages below \<open>root\<close>, taken
  from the unreferenced ones, and wrote only to table pages of \<open>root\<close> and to unreferenced pages.
\<close>

definition vm_frame :: "u64 \<Rightarrow> 'a st \<Rightarrow> 'a st \<Rightarrow> bool" where
  "vm_frame root s s' \<longleftrightarrow> kpages s' = kpages s \<and> tables s root \<subseteq> tables s' root
     \<and> (\<forall>p \<in> tables s' root - tables s root. p \<in> kpages s \<and> kcnt s p = 0)
     \<and> kcnt s' = (\<lambda>p. if p \<in> tables s' root - tables s root then 1 else kcnt s p)
     \<and> (\<forall>a. 0 < kcnt s (PGROUNDDOWN a) \<longrightarrow> PGROUNDDOWN a \<notin> tables s root \<longrightarrow> pm s' a = pm s a)"

lemma vm_frame_refl: "vm_frame root s s"
  by (simp add: vm_frame_def)

lemma vm_frame_trans:
  assumes a: "vm_frame root s s1" and b: "vm_frame root s1 s2" shows "vm_frame root s s2"
proof -
  let ?T = "tables s root" and ?T1 = "tables s1 root" and ?T2 = "tables s2 root"
  have sub: "?T \<subseteq> ?T1" "?T1 \<subseteq> ?T2" and kp: "kpages s1 = kpages s" "kpages s2 = kpages s1"
    using a b by (auto simp: vm_frame_def)
  have c1: "kcnt s1 p = (if p \<in> ?T1 - ?T then 1 else kcnt s p)" for p using a by (simp add: vm_frame_def)
  have c2: "kcnt s2 p = (if p \<in> ?T2 - ?T1 then 1 else kcnt s1 p)" for p using b by (simp add: vm_frame_def)
  have n1: "p \<in> ?T1 - ?T \<Longrightarrow> p \<in> kpages s \<and> kcnt s p = 0" for p using a by (simp add: vm_frame_def)
  have n2: "p \<in> ?T2 - ?T1 \<Longrightarrow> p \<in> kpages s1 \<and> kcnt s1 p = 0" for p using b by (simp add: vm_frame_def)
  have n: "p \<in> kpages s \<and> kcnt s p = 0" if "p \<in> ?T2 - ?T" for p
    using that n1 [of p] n2 [of p] c1 [of p] kp by (cases "p \<in> ?T1") auto
  moreover have "kcnt s2 = (\<lambda>p. if p \<in> ?T2 - ?T then 1 else kcnt s p)"
    using c1 c2 sub by (auto simp: fun_eq_iff)
  moreover have "pm s2 a = pm s a" if "0 < kcnt s (PGROUNDDOWN a)" "PGROUNDDOWN a \<notin> ?T" for a
  proof -
    have "PGROUNDDOWN a \<notin> ?T1" using that n1 by fastforce
    moreover have "0 < kcnt s1 (PGROUNDDOWN a)" using that c1 by simp
    ultimately have "pm s2 a = pm s1 a" using b by (simp add: vm_frame_def)
    also have "\<dots> = pm s a" using a that by (simp add: vm_frame_def)
    finally show ?thesis .
  qed
  ultimately show ?thesis using sub kp unfolding vm_frame_def by auto
qed

text \<open>The postcondition shared by everything that extends a table.\<close>

definition grown :: "u64 \<Rightarrow> 'a st \<Rightarrow> 'a st \<Rightarrow> bool" where
  "grown root s s' \<longleftrightarrow> pt_wf s' root \<and> (\<forall>va. vmap s' root va = vmap s root va) \<and> vm_frame root s s'"

lemma grown_refl: "pt_wf s root \<Longrightarrow> grown root s s"
  by (simp add: grown_def vm_frame_refl)

lemma grown_trans: "grown root s s1 \<Longrightarrow> grown root s1 s2 \<Longrightarrow> grown root s s2"
  by (auto simp: grown_def intro: vm_frame_trans)

lemma tbl_invalid: "tbl m root q = Some x \<Longrightarrow> \<not> has (load64 m (x + 8 * of_nat i)) PTE_V \<Longrightarrow> tbl m root (q @ i # r) = None"
  by (induction q arbitrary: root) (auto simp: Let_def split: if_splits)

text \<open>Linking a zeroed page into an invalid entry adds one table page and nothing below it.\<close>

lemma tbl_grow:
  assumes r: "path (q @ [i])" and x: "tbl m root q = Some x" and inv: "\<not> has (load64 m (x + 8 * of_nat i)) PTE_V"
    and e: "has (load64 m' (x + 8 * of_nat i)) PTE_V" "PTE2PA (load64 m' (x + 8 * of_nat i)) = z"
    and zero: "\<And>j. j < 512 \<Longrightarrow> load64 m' (z + 8 * of_nat j) = 0"
    and other: "\<And>p y j. path p \<Longrightarrow> tbl m root p = Some y \<Longrightarrow> j < 512 \<Longrightarrow> p @ [j] \<noteq> q @ [i] \<Longrightarrow>
      load64 m' (y + 8 * of_nat j) = load64 m (y + 8 * of_nat j)"
    and p: "path p"
  shows "tbl m' root p = (if p = q @ [i] then Some z else tbl m root p)"
proof -
  let ?r = "q @ [i]"
  have same: "tbl m' root p = tbl m root p" if "path p" "\<not> prefix ?r p" for p
  proof (rule tbl_frame [where P = "\<lambda>p. \<not> prefix ?r p"])
    show "load64 m' (y + 8 * of_nat j) = load64 m (y + 8 * of_nat j)"
      if "\<not> prefix ?r (p @ [j])" "path (p @ [j])" "tbl m root p = Some y" for p j y
      using that path_snocD [of p j] by (intro other) auto
  qed (use that in auto)
  have new: "tbl m' root ?r = Some z"
    using same [of q] path_snocD [OF r] x e by (auto simp: tbl_snoc dest: prefix_length_le)
  show ?thesis
  proof (cases "prefix ?r p")
    case True
    then obtain w where w: "p = ?r @ w" by (auto elim: prefixE)
    then have old: "tbl m root p = None" using tbl_invalid [OF x inv] by simp
    show ?thesis
    proof (cases w)
      case (Cons j w')
      then have "w' = []" "j < 512" using p w by (auto simp: path_def)
      then have "tbl m' root p = None" using w Cons new zero [of j] tbl_snoc [of m' root ?r j] by simp
      then show ?thesis using old w Cons by simp
    qed (use w new in simp)
  next
    case False then show ?thesis using same [OF p False] by auto
  qed
qed

lemma walk_grow:
  assumes wf: "pt_wf s root" and q: "path (q @ [i])" and x: "tbl (pm s) root q = Some x"
    and inv: "\<not> has (ld s (x + 8 * of_nat i)) PTE_V" and al: "kalloc s = Ok (z, s1)" "z \<noteq> 0"
    and s': "s' = st (x + 8 * of_nat i) (PA2PTE z OR PTE_V) (zero_page z s1)"
  shows "grown root s s'" and "tbl (pm s') root (q @ [i]) = Some z" and "tables s' root = insert z (tables s root)"
proof -
  note A = kmem.alloc_page [OF pt_wfD(1) [OF wf] al]
  note Q = path_snocD [OF q]
  have xk: "x \<in> kpages s" "kcnt s x = 1" "pg_aligned x" using pt_wfD(2,3,4) [OF wf _ x] Q by blast+
  have za: "pg_aligned z" and zx: "z \<noteq> x" using A(1,2) kpages_aligned xk(2) by auto
  have ztab: "path r \<Longrightarrow> tbl (pm s) root r \<noteq> Some z" for r using pt_wfD(3) [OF wf] A(2) by fastforce
  have mem: "pm s' = store64 (memset (pm s1) z 0 (ucast PGSIZE)) (x + 8 * of_nat i) (PA2PTE z OR PTE_V)"
    by (simp add: s' st_def zero_page_def)
  have other: "pm s' a = pm s a" if "PGROUNDDOWN a \<noteq> x" "PGROUNDDOWN a \<noteq> z" for a
    using that A(6) by (simp add: mem store64_slot_page xk Q memset_page_apply za)
  have tabld: "load64 (pm s') (y + 8 * of_nat j) = load64 (pm s) (y + 8 * of_nat j)"
    if y: "path p" "tbl (pm s) root p = Some y" "j < 512" "p @ [j] \<noteq> q @ [i]" for p y j
  proof -
    have ya: "pg_aligned y" using pt_wfD(4) [OF wf] y by blast
    have "\<not> (x = y \<and> i = j)" using pt_wfD(5) [OF wf _ y(1) x] y Q by auto
    then have "load64 (pm s') (y + 8 * of_nat j) = load64 (memset (pm s1) z 0 (ucast PGSIZE)) (y + 8 * of_nat j)"
      using xk ya Q y(3) by (auto simp: mem load64_store64_slot)
    also have "\<dots> = load64 (pm s) (y + 8 * of_nat j)"
      using A(6) ztab y by (intro load64_page_cong ya y(3)) (auto simp: memset_page_apply za)
    finally show ?thesis .
  qed
  have zld: "load64 (pm s') (z + 8 * of_nat j) = 0" if "j < 512" for j
    using zx xk za Q that by (auto simp: mem load64_store64_slot memset_zero_load64)
  have eld: "load64 (pm s') (x + 8 * of_nat i) = PA2PTE z OR PTE_V" by (simp add: mem load64_store64_same)
  have tbl': "tbl (pm s') root p = (if p = q @ [i] then Some z else tbl (pm s) root p)" if "path p" for p
    using tabld zld inv A(1) that
    by (intro tbl_grow [OF q x]) (auto simp: eld ld_def PTE2PA_page)
  then show "tbl (pm s') root (q @ [i]) = Some z" using q by simp
  have kc: "kcnt s' = (kcnt s)(z := 1)" "kpages s' = kpages s"
    using A by (simp_all add: s' st_def zero_page_def)
  have "kinv (zero_page z s1)" unfolding zero_page_def
    using A za by (intro kinv_write_used [where p = z]) (auto simp: memset_page_apply)
  then have "kinv s'" unfolding s' st_def
    using A xk zx Q by (intro kinv_write_used [where p = x]) (auto simp: store64_slot_page zero_page_def)
  then have wf': "pt_wf s' root"
    using tbl' ztab A(1) kc pt_wfD(2,3,5) [OF wf] unfolding pt_wf_def by (auto split: if_splits)
  have "tbl (pm s) root (q @ [i]) = None" using tbl_invalid [OF x] inv by (simp add: ld_def)
  then have up: "tbl (pm s') root p = Some y" if "path p" "tbl (pm s) root p = Some y" for p y
    using tbl' [OF that(1)] that(2) by auto
  show tabs: "tables s' root = insert z (tables s root)"
    using up tbl' q unfolding tables_def by (auto split: if_splits)
  have "z \<notin> tables s root" "x \<in> tables s root" using ztab x Q by (auto simp: tables_def)
  moreover from this have "pm s' a = pm s a" if "0 < kcnt s (PGROUNDDOWN a)" "PGROUNDDOWN a \<notin> tables s root" for a
    using that A(2) by (intro other) auto
  ultimately have fr: "vm_frame root s s'"
    using kc tabs A(1,2) unfolding vm_frame_def by (auto simp: fun_eq_iff)
  have "vmap s' root va = vmap s root va" for va
  proof -
    have "vpath va @ [unat (PX 0 va)] \<noteq> q @ [i]" using Q by (auto simp: vpath_def)
    then have "tbl (pm s) root (vpath va) = Some t \<Longrightarrow> ld s' (t + 8 * PX 0 va) = ld s (t + 8 * PX 0 va)" for t
      using tabld [OF path_vpath, of va t "unat (PX 0 va)"] by (simp add: PX_less ld_def)
    then show ?thesis
      using tbl' [OF path_vpath, of va] \<open>tbl (pm s) root (q @ [i]) = None\<close> zld [of "unat (PX 0 va)"]
      by (auto simp: vmap_def ld_def PX_less split: option.splits if_splits)
  qed
  then show "grown root s s'" using wf' fr by (simp add: grown_def)
qed

section \<open>walk\<close>

lemma walk_no_alloc:
  assumes "va < MAXVA"
  shows "walk root va False s =
     Ok (case tbl (pm s) root (vpath va) of None \<Rightarrow> 0 | Some t \<Rightarrow> t + 8 * PX 0 va, s)"
  using assms by (simp add: walk_def vpath_def ld_def Let_def numeral_2_eq_2 not_le)

definition vpre :: "nat \<Rightarrow> u64 \<Rightarrow> nat list" where
  "vpre l va = take (2 - l) (vpath va)"

lemma vpre_simps: "vpre 2 va = []" "vpre 0 va = vpath va"
  by (simp_all add: vpre_def vpath_def)

lemma vpre_Suc: "Suc l \<le> 2 \<Longrightarrow> vpre l va = vpre (Suc l) va @ [unat (PX (Suc l) va)]"
proof -
  assume "Suc l \<le> 2"
  then have "l = 0 \<or> l = 1" by auto
  then show ?thesis by (auto simp: vpre_def vpath_def numeral_2_eq_2)
qed

lemma path_vpre: "path (vpre l va)"
  by (auto simp: path_def vpre_def vpath_def PX_less dest!: in_set_takeD)

text \<open>At most \<open>d\<close> table pages are added.\<close>

definition growth :: "nat \<Rightarrow> u64 \<Rightarrow> 'a st \<Rightarrow> 'a st \<Rightarrow> bool" where
  "growth d root s s' \<longleftrightarrow> (\<exists>ps. length ps \<le> d \<and> tables s' root \<subseteq> tables s root \<union> set ps)"

lemma growth_refl: "tables s' root = tables s root \<Longrightarrow> growth d root s s'"
  unfolding growth_def by (intro exI [of _ "[]"]) simp

lemma growth_trans: "growth d root s s1 \<Longrightarrow> growth e root s1 s2 \<Longrightarrow> growth (d + e) root s s2"
proof -
  assume "growth d root s s1" "growth e root s1 s2"
  then obtain ps qs where "length ps \<le> d" "tables s1 root \<subseteq> tables s root \<union> set ps"
    "length qs \<le> e" "tables s2 root \<subseteq> tables s1 root \<union> set qs" by (auto simp: growth_def)
  then show ?thesis unfolding growth_def by (intro exI [of _ "ps @ qs"]) auto
qed

text \<open>
  \<open>walk\<close> with allocation does not panic below \<open>MAXVA\<close>.  It returns the address of the leaf
  entry, or 0 when the allocator has no page left, and keeps every translation either way.
\<close>

lemma walk_loop_alloc:
  assumes "l \<le> 2" "pt_wf s root" "tbl (pm s) root (vpre l va) = Some pt"
  shows "\<exists>a s'. walk_loop l pt va True s = Ok (a, s') \<and> grown root s s' \<and> growth l root s s'
     \<and> (a \<noteq> 0 \<longrightarrow> (\<exists>t. tbl (pm s') root (vpath va) = Some t \<and> a = t + 8 * PX 0 va))
     \<and> (a = 0 \<longrightarrow> (\<forall>p \<in> kpages s'. 0 < kcnt s' p))"
  using assms
proof (induction l arbitrary: s pt)
  case 0
  have "pt + 8 * PX 0 va \<noteq> 0"
  proof
    assume "pt + 8 * PX 0 va = 0"
    then have "PGROUNDDOWN 0 = pt" using slot_page0 [of pt "unat (PX 0 va)"] pt_wfD(4) [OF 0(2) path_vpre 0(3)]
      by (simp add: PX_less)
    then show False using kmem.zero_not_page [OF pt_wfD(1) [OF 0(2)]] pt_wfD(2) [OF 0(2) path_vpre 0(3)]
      by (simp add: PGROUNDDOWN_def)
  qed
  then show ?case using 0 by (auto simp: grown_refl growth_refl vpre_simps)
next
  case (Suc l)
  let ?i = "unat (PX (Suc l) va)" and ?pte = "pt + 8 * PX (Suc l) va"
  have v: "vpre l va = vpre (Suc l) va @ [?i]" using vpre_Suc Suc.prems(1) .
  show ?case
  proof (cases "has (ld s ?pte) PTE_V")
    case True
    then have "tbl (pm s) root (vpre l va) = Some (PTE2PA (ld s ?pte))"
      using Suc.prems(3) by (simp add: v tbl_snoc ld_def)
    moreover have "growth l root s s' \<Longrightarrow> growth (Suc l) root s s'" for s' :: "'a st"
      by (auto simp: growth_def le_Suc_eq)
    ultimately show ?thesis using Suc.IH [of s] Suc.prems True by fastforce
  next
    case False
    obtain z s1 where al: "kalloc s = Ok (z, s1)" "kinv s1"
      using kmem.alloc_total [OF pt_wfD(1) [OF Suc.prems(2)]] by blast
    show ?thesis
    proof (cases "z = 0")
      case True
      then show ?thesis using False al kmem.alloc_fail [OF pt_wfD(1) [OF Suc.prems(2)], of s1]
          kmem.alloc_zero_iff [OF pt_wfD(1) [OF Suc.prems(2)] al(1)] Suc.prems(2)
        by (auto simp: grown_refl growth_refl)
    next
      case z: False
      define s' where "s' = st (pt + 8 * of_nat ?i) (PA2PTE z OR PTE_V) (zero_page z s1)"
      have G: "grown root s s'" "tbl (pm s') root (vpre l va) = Some z" "tables s' root = insert z (tables s root)"
        using walk_grow [OF Suc.prems(2) path_vpre [of l va, unfolded v] Suc.prems(3) _ al(1) z s'_def] False
        by (simp_all add: v)
      have g1: "growth 1 root s s'" unfolding growth_def using G(3) by (intro exI [of _ "[z]"]) auto
      have "pt_wf s' root" using G(1) by (simp add: grown_def)
      then obtain a s2 where "walk_loop l z va True s' = Ok (a, s2)" "grown root s' s2" "growth l root s' s2"
        "a \<noteq> 0 \<longrightarrow> (\<exists>t. tbl (pm s2) root (vpath va) = Some t \<and> a = t + 8 * PX 0 va)"
        "a = 0 \<longrightarrow> (\<forall>p \<in> kpages s2. 0 < kcnt s2 p)"
        using Suc.IH [OF _ _ G(2)] Suc.prems(1) by auto
      then show ?thesis using False al z grown_trans [OF G(1)] growth_trans [OF g1]
        by (simp add: s'_def)
    qed
  qed
qed

lemma walk_alloc:
  assumes "pt_wf s root" "va < MAXVA"
  shows "\<exists>a s'. walk root va True s = Ok (a, s') \<and> grown root s s' \<and> growth 2 root s s'
     \<and> (a \<noteq> 0 \<longrightarrow> (\<exists>t. tbl (pm s') root (vpath va) = Some t \<and> a = t + 8 * PX 0 va))
     \<and> (a = 0 \<longrightarrow> (\<forall>p \<in> kpages s'. 0 < kcnt s' p))"
  using walk_loop_alloc [of 2 s root va root] assms
  by (simp add: walk_def vpre_simps not_le)

section \<open>Writing a leaf entry\<close>

lemma same_page_PX:
  assumes "va < MAXVA" "vb < MAXVA"
  shows "PGROUNDDOWN va = PGROUNDDOWN vb \<longleftrightarrow> vpath va = vpath vb \<and> PX 0 va = PX 0 vb"
proof
  assume "PGROUNDDOWN va = PGROUNDDOWN vb"
  then show "vpath va = vpath vb \<and> PX 0 va = PX 0 vb"
    using PGROUNDDOWN_PX [of _ va] PGROUNDDOWN_PX [of _ vb] by (simp add: vpath_def)
next
  assume *: "vpath va = vpath vb \<and> PX 0 va = PX 0 vb"
  have "PGROUNDDOWN va < MAXVA" "PGROUNDDOWN vb < MAXVA"
    using PGROUNDDOWN_le [of va] PGROUNDDOWN_le [of vb] assms by auto
  moreover have "PX 0 va = PX 0 vb" "PX 1 va = PX 1 vb" "PX 2 va = PX 2 vb"
    using * by (simp_all add: vpath_def flip: word_unat_eq_iff)
  ultimately show "PGROUNDDOWN va = PGROUNDDOWN vb"
    by - (rule va_indices_eq, simp_all add: PGROUNDDOWN_PX)
qed

lemma set_leaf:
  assumes wf: "pt_wf s root" and t: "tbl (pm s) root (vpath va) = Some t"
    and s': "s' = st (t + 8 * PX 0 va) v s"
  shows "pt_wf s' root" "tables s' root = tables s root" "kpages s' = kpages s" "kcnt s' = kcnt s"
    and "PGROUNDDOWN a \<notin> tables s root \<Longrightarrow> pm s' a = pm s a"
    and "va < MAXVA \<Longrightarrow> vb < MAXVA \<Longrightarrow>
      vmap s' root vb = (if PGROUNDDOWN vb = PGROUNDDOWN va then v else vmap s root vb)"
proof -
  let ?i = "unat (PX 0 va)"
  have tk: "t \<in> kpages s" "kcnt s t = 1" "pg_aligned t" using pt_wfD(2,3,4) [OF wf path_vpath t] by auto
  have mem: "pm s' = store64 (pm s) (t + 8 * of_nat ?i) v" by (simp add: s' st_def)
  have tl: "load64 (pm s') (y + 8 * of_nat j) = (if p = vpath va \<and> j = ?i then v else load64 (pm s) (y + 8 * of_nat j))"
    if "path p" "tbl (pm s) root p = Some y" "j < 512" for p y j
  proof -
    have "pg_aligned y" by (rule pt_wfD(4) [OF wf that(1,2)])
    moreover have "t = y \<longleftrightarrow> p = vpath va"
      using pt_wfD(5) [OF wf that(1) path_vpath [of va] that(2)] t that(2) by auto
    ultimately show ?thesis
      unfolding mem load64_store64_slot [OF tk(3) \<open>pg_aligned y\<close> PX_less that(3)] by auto
  qed
  have tbl': "tbl (pm s') root p = tbl (pm s) root p" if "path p" for p
  proof (rule tbl_frame [where P = "\<lambda>_. True"])
    show "load64 (pm s') (y + 8 * of_nat j) = load64 (pm s) (y + 8 * of_nat j)"
      if "path (p @ [j])" "tbl (pm s) root p = Some y" for p j y
      using path_snocD [OF that(1)] tl [OF _ that(2)] by (auto simp: vpath_def)
  qed (use that in auto)
  show kc: "kpages s' = kpages s" "kcnt s' = kcnt s" by (simp_all add: s' st_def)
  have "kinv s'" unfolding s' st_def using tk pt_wfD(1) [OF wf] store64_slot_page [OF tk(3), of ?i]
    by (intro kinv_write_used [where p = t]) (auto simp: PX_less)
  then show "pt_wf s' root" using tbl' kc pt_wfD(2,3,5) [OF wf] unfolding pt_wf_def by auto
  show "tables s' root = tables s root" using tbl' by (auto simp: tables_def)
  have "t \<in> tables s root" using t path_vpath [of va] unfolding tables_def by blast
  then show "PGROUNDDOWN a \<notin> tables s root \<Longrightarrow> pm s' a = pm s a"
    using store64_slot_page [OF tk(3), of ?i a] by (auto simp: mem PX_less)
  show "vmap s' root vb = (if PGROUNDDOWN vb = PGROUNDDOWN va then v else vmap s root vb)"
    if "va < MAXVA" "vb < MAXVA"
  proof (cases "tbl (pm s) root (vpath vb)")
    case None
    then have "vpath vb \<noteq> vpath va" using t by auto
    then show ?thesis using None tbl' [of "vpath vb"] same_page_PX [OF that(2,1)] by (simp add: vmap_def)
  next
    case (Some y)
    have "load64 (pm s') (y + 8 * of_nat (unat (PX 0 vb))) =
       (if vpath vb = vpath va \<and> unat (PX 0 vb) = ?i then v else load64 (pm s) (y + 8 * of_nat (unat (PX 0 vb))))"
      by (rule tl [OF path_vpath Some PX_less])
    moreover have "unat (PX 0 vb) = ?i \<longleftrightarrow> PX 0 vb = PX 0 va" by (simp only: word_unat_eq_iff)
    ultimately show ?thesis using Some tbl' [of "vpath vb"] same_page_PX [OF that(2,1)]
      by (simp add: vmap_def ld_def)
  qed
qed

section \<open>mappages\<close>

text \<open>Mapping one page adds exactly one translation, or fails for lack of memory.\<close>

lemma mappages_page:
  assumes wf: "pt_wf s root" and va: "va < MAXVA" "pg_aligned va" and inv: "\<not> has (vmap s root va) PTE_V"
  shows "\<exists>r s'. mappages root va PGSIZE pa perm s = Ok (r, s') \<and> pt_wf s' root \<and> vm_frame root s s'
     \<and> growth 2 root s s'
     \<and> (r = 0 \<and> (\<forall>vb < MAXVA. vmap s' root vb =
                    (if PGROUNDDOWN vb = va then PA2PTE pa OR perm OR PTE_V else vmap s root vb))
      \<or> r = -1 \<and> (\<forall>vb. vmap s' root vb = vmap s root vb) \<and> (\<forall>p \<in> kpages s'. 0 < kcnt s' p))"
proof -
  have last: "PGROUNDDOWN (va + PGSIZE - 1) = va"
  proof -
    have "unat (va + PGSIZE - 1 - va) = 4095" by (simp add: PGSIZE_def)
    then show ?thesis using page_bytes [OF va(2), of "va + PGSIZE - 1"] by simp
  qed
  have down: "PGROUNDDOWN va = va" using va(2) by (rule PGROUNDDOWN_aligned)
  obtain a s1 where W: "walk root va True s = Ok (a, s1)" "grown root s s1"
    "a \<noteq> 0 \<longrightarrow> (\<exists>t. tbl (pm s1) root (vpath va) = Some t \<and> a = t + 8 * PX 0 va)"
    "a = 0 \<longrightarrow> (\<forall>p \<in> kpages s1. 0 < kcnt s1 p)" "growth 2 root s s1"
    using walk_alloc [OF wf va(1)] by blast
  have G: "pt_wf s1 root" "\<And>vb. vmap s1 root vb = vmap s root vb" "vm_frame root s s1"
    using W(2) by (simp_all add: grown_def)
  have run: "mappages root va PGSIZE pa perm s =
     (if a = 0 then Ok (-1, s1) else if has (ld s1 a) PTE_V then Panic ''mappages: remap''
      else Ok (0, st a (PA2PTE pa OR perm OR PTE_V) s1))"
    using W(1) by (simp add: mappages_def last down mappages_loop.simps [of root va] Let_def) (simp add: PGSIZE_def)
  show ?thesis
  proof (cases "a = 0")
    case True then show ?thesis using run G W(4,5) by auto
  next
    case False
    then obtain t where t: "tbl (pm s1) root (vpath va) = Some t" "a = t + 8 * PX 0 va" using W(3) by blast
    have "ld s1 a = vmap s root va" using t G(2) [of va] by (simp add: vmap_def)
    then have r: "mappages root va PGSIZE pa perm s = Ok (0, st a (PA2PTE pa OR perm OR PTE_V) s1)"
      using run False inv by simp
    define s2 where "s2 = st (t + 8 * PX 0 va) (PA2PTE pa OR perm OR PTE_V) s1"
    note L = set_leaf [OF G(1) t(1) s2_def]
    have "vm_frame root s1 s2" using L(2-5) by (auto simp: vm_frame_def)
    then have "vm_frame root s s2" using vm_frame_trans G(3) by blast
    moreover have "growth 2 root s s2" using W(5) L(2) by (simp add: growth_def)
    ultimately show ?thesis using r t(2) L(1,6) va G(2) by (auto simp: down s2_def)
  qed
qed

end
