(* ===== verification/Uvm.thy ===== *)
theory Uvm
  imports Pagetable
begin

text \<open>
  Unmapping, copy-on-write sharing and freeing of user address spaces.  Pages are numbered:
  page \<open>j\<close> starts at virtual address \<open>4096 * j\<close>.  Reference counts are tracked exactly: how many
  of a range of pages map a given physical page.
\<close>

section \<open>Page numbers\<close>

definition pgn :: "nat \<Rightarrow> u64" where "pgn j = 4096 * of_nat j"

definition NPG :: nat where "NPG = 67108864"

lemma unat_pgn: "j \<le> NPG \<Longrightarrow> unat (pgn j) = 4096 * j"
  by (simp add: pgn_def NPG_def unat_word_ariths unat_of_nat)

lemma pgn_less_MAXVA: "j < NPG \<Longrightarrow> pgn j < MAXVA"
  by (simp add: word_less_nat_alt unat_pgn MAXVA_eq(2)) (simp add: NPG_def)

lemma pgn_aligned: "j \<le> NPG \<Longrightarrow> pg_aligned (pgn j)"
  by (simp add: pg_aligned_unat unat_pgn)

lemma PGROUNDDOWN_pgn: "j \<le> NPG \<Longrightarrow> PGROUNDDOWN (pgn j) = pgn j"
  by (simp add: pgn_aligned PGROUNDDOWN_aligned)

lemma pgn_Suc: "pgn (Suc j) = pgn j + PGSIZE"
  by (simp add: pgn_def PGSIZE_def distrib_left)

lemma pgn_inj: "i \<le> NPG \<Longrightarrow> j \<le> NPG \<Longrightarrow> pgn i = pgn j \<longleftrightarrow> i = j"
  by (metis mult_cancel1 unat_pgn zero_neq_numeral)

lemma pgn_of_va: "va < MAXVA \<Longrightarrow> PGROUNDDOWN va = pgn (unat va div 4096) \<and> unat va div 4096 < NPG"
proof -
  assume "va < MAXVA"
  then have l: "unat va < 274877906944" by (simp add: word_less_nat_alt MAXVA_eq(2))
  then have "unat va div 4096 < NPG" by (simp add: NPG_def)
  then show ?thesis by (simp add: word_unat_eq_iff unat_PGROUNDDOWN unat_pgn)
qed

lemma pgn_le: "i \<le> NPG \<Longrightarrow> j \<le> NPG \<Longrightarrow> pgn i \<le> pgn j \<longleftrightarrow> i \<le> j"
  by (simp add: word_le_nat_alt unat_pgn)

lemma pgn_less: "i \<le> NPG \<Longrightarrow> j \<le> NPG \<Longrightarrow> pgn i < pgn j \<longleftrightarrow> i < j"
  by (simp add: word_less_nat_alt unat_pgn)

text \<open>The physical page behind page \<open>j\<close>, and how many of the pages \<open>[i..<k]\<close> map \<open>p\<close>.\<close>

definition upa :: "'a st \<Rightarrow> u64 \<Rightarrow> nat \<Rightarrow> u64" where
  "upa s root j = PTE2PA (vmap s root (pgn j))"

definition mapcnt :: "'a st \<Rightarrow> u64 \<Rightarrow> nat \<Rightarrow> nat \<Rightarrow> u64 \<Rightarrow> nat" where
  "mapcnt s root i k p = length (filter (\<lambda>j. upa s root j = p) [i..<k])"

lemma mapcnt_empty [simp]: "mapcnt s root i i p = 0"
  by (simp add: mapcnt_def)

lemma mapcnt_first: "i < k \<Longrightarrow> mapcnt s root i k p = (if upa s root i = p then 1 else 0) + mapcnt s root (Suc i) k p"
  by (simp add: mapcnt_def upt_conv_Cons)

lemma mapcnt_last: "i \<le> k \<Longrightarrow> mapcnt s root i (Suc k) p = mapcnt s root i k p + (if upa s root k = p then 1 else 0)"
  by (simp add: mapcnt_def)

lemma mapcnt_cong:
  "(\<And>j. i \<le> j \<Longrightarrow> j < k \<Longrightarrow> upa s root j = upa s' root' j) \<Longrightarrow> mapcnt s root i k p = mapcnt s' root' i k p"
  unfolding mapcnt_def by (rule arg_cong [of _ _ length], rule filter_cong) auto

lemma mapcnt_pos: "i \<le> j \<Longrightarrow> j < k \<Longrightarrow> 0 < mapcnt s root i k (upa s root j)"
  by (auto simp: mapcnt_def filter_empty_conv)

lemma mapcnt_le: "mapcnt s root i k p \<le> k - i"
  using length_filter_le [of "\<lambda>j. upa s root j = p" "[i..<k]"] by (simp add: mapcnt_def)

section \<open>Well-formedness under changes elsewhere\<close>

lemma pt_wf_frame:
  assumes wf: "pt_wf s root" and "kinv s'" "kpages s' = kpages s"
    and "\<forall>p \<in> tables s root. kcnt s' p = kcnt s p"
    and pm: "\<forall>a. PGROUNDDOWN a \<in> tables s root \<longrightarrow> pm s' a = pm s a"
  shows "pt_wf s' root" "tables s' root = tables s root" "vmap s' root va = vmap s root va"
    "path q \<Longrightarrow> tbl (pm s') root q = tbl (pm s) root q"
proof -
  show F: "path q \<Longrightarrow> tbl (pm s') root q = tbl (pm s) root q" for q
    by (rule vmap_frame(1) [OF wf]) (use pm in auto)
  show "tables s' root = tables s root" by (rule vmap_frame(3) [OF wf]) (use pm in auto)
  show "vmap s' root va = vmap s root va" by (rule vmap_frame(2) [OF wf]) (use pm in auto)
  have "x \<in> tables s root" if "path q" "tbl (pm s) root q = Some x" for q x
    using that by (auto simp: tables_def)
  then show "pt_wf s' root" using assms(2-4) F pt_wfD(2,3,5) [OF wf] unfolding pt_wf_def by auto
qed

lemma tables_used: "pt_wf s root \<Longrightarrow> p \<in> tables s root \<Longrightarrow> p \<in> kpages s \<and> kcnt s p = 1"
  using pt_wfD(2,3) by (fastforce simp: tables_def)

lemma vmap_valid_tbl:
  assumes "has (vmap s root va) f"
  shows "\<exists>t. tbl (pm s) root (vpath va) = Some t \<and> vmap s root va = ld s (t + 8 * PX 0 va)"
  using assms by (auto simp: vmap_def split: option.splits)

text \<open>A lookup of a mapped page finds the leaf entry.\<close>

lemma walk_mapped:
  assumes wf: "pt_wf s root" and va: "va < MAXVA" and v: "has (vmap s root va) f"
  shows "\<exists>t. tbl (pm s) root (vpath va) = Some t \<and> walk root va False s = Ok (t + 8 * PX 0 va, s)
     \<and> t + 8 * PX 0 va \<noteq> 0 \<and> ld s (t + 8 * PX 0 va) = vmap s root va"
proof -
  obtain t where t: "tbl (pm s) root (vpath va) = Some t" "vmap s root va = ld s (t + 8 * PX 0 va)"
    using vmap_valid_tbl [OF v] by blast
  have "t + 8 * PX 0 va \<noteq> 0"
  proof
    assume "t + 8 * PX 0 va = 0"
    then have "PGROUNDDOWN 0 = t"
      using slot_page0 [of t "unat (PX 0 va)"] pt_wfD(4) [OF wf path_vpath t(1)] by (simp add: PX_less)
    then show False using kmem.zero_not_page [OF pt_wfD(1) [OF wf]] pt_wfD(2) [OF wf path_vpath t(1)]
      by (simp add: PGROUNDDOWN_def)
  qed
  then show ?thesis using t by (simp add: walk_no_alloc [OF va])
qed

section \<open>uvmunmap\<close>

text \<open>The pages \<open>[i..<k]\<close> are mapped to pages in use, with enough references to drop them all.\<close>

definition mapped :: "'a st \<Rightarrow> u64 \<Rightarrow> nat \<Rightarrow> nat \<Rightarrow> bool" where
  "mapped s root i k \<longleftrightarrow>
     (\<forall>j. i \<le> j \<and> j < k \<longrightarrow> has (vmap s root (pgn j)) PTE_V \<and> PTE_FLAGS (vmap s root (pgn j)) \<noteq> PTE_V
        \<and> upa s root j \<in> kpages s - tables s root)
     \<and> (\<forall>p. mapcnt s root i k p \<le> kcnt s p)"

lemma uvmunmap_loop_free:
  assumes "pt_wf s root" "mapped s root i k" "i \<le> k" "k \<le> NPG"
  shows "\<exists>s'. uvmunmap_loop root (pgn i) (pgn k) True s = Ok s' \<and> pt_wf s' root
     \<and> tables s' root = tables s root \<and> kpages s' = kpages s
     \<and> (\<forall>p. kcnt s' p = kcnt s p - mapcnt s root i k p)
     \<and> (\<forall>a. PGROUNDDOWN a \<notin> tables s root \<and> 0 < kcnt s' (PGROUNDDOWN a) \<longrightarrow> pm s' a = pm s a)
     \<and> (\<forall>va < MAXVA. vmap s' root va = (if i \<le> unat va div 4096 \<and> unat va div 4096 < k then 0 else vmap s root va))"
  using assms
proof (induction "k - i" arbitrary: i s)
  case 0
  then have "k = i" by simp
  then show ?case using 0 by (intro exI [of _ s]) (auto simp: uvmunmap_loop.simps [of root "pgn i"])
next
  case (Suc n)
  then have ik: "i < k" "i < NPG" by auto
  let ?pa = "upa s root i"
  have M: "has (vmap s root (pgn i)) PTE_V" "PTE_FLAGS (vmap s root (pgn i)) \<noteq> PTE_V"
    "?pa \<in> kpages s" "?pa \<notin> tables s root" "mapcnt s root i k p \<le> kcnt s p" for p
    using Suc.prems(2) ik by (auto simp: mapped_def)
  have pos: "0 < kcnt s ?pa" using M(5) [of ?pa] mapcnt_pos [of i i k s root] ik by simp
  obtain t where t: "tbl (pm s) root (vpath (pgn i)) = Some t"
    "walk root (pgn i) False s = Ok (t + 8 * PX 0 (pgn i), s)" "t + 8 * PX 0 (pgn i) \<noteq> 0"
    "ld s (t + 8 * PX 0 (pgn i)) = vmap s root (pgn i)"
    using walk_mapped [OF Suc.prems(1) pgn_less_MAXVA [OF ik(2)] M(1)] by blast
  obtain s1 where F: "kfree ?pa s = Ok s1" "kinv s1" "kpages s1 = kpages s"
    "kcnt s1 = (kcnt s)(?pa := kcnt s ?pa - 1)"
    "\<forall>a. PGROUNDDOWN a \<noteq> ?pa \<or> 1 < kcnt s ?pa \<longrightarrow> pm s1 a = pm s a"
    using kmem.free_used [OF pt_wfD(1) [OF Suc.prems(1)] M(3) pos] by blast
  have fr: "\<forall>p \<in> tables s root. kcnt s1 p = kcnt s p" "\<forall>a. PGROUNDDOWN a \<in> tables s root \<longrightarrow> pm s1 a = pm s a"
    using M(4) F(4,5) by (auto, metis)
  note W1 = pt_wf_frame [OF Suc.prems(1) F(2,3) fr]
  have t1: "tbl (pm s1) root (vpath (pgn i)) = Some t"
    using W1(4) t(1) by simp
  define s2 where "s2 = st (t + 8 * PX 0 (pgn i)) 0 s1"
  note L = set_leaf [OF W1(1) t1 s2_def]
  have step: "uvmunmap_loop root (pgn i) (pgn k) True s = uvmunmap_loop root (pgn (Suc i)) (pgn k) True s2"
    using ik Suc.prems(4) t M(1,2) F(1)
    by (subst uvmunmap_loop.simps) (simp add: pgn_less upa_def pgn_Suc s2_def)
  have v2: "vmap s2 root va = (if unat va div 4096 = i then 0 else vmap s root va)" if "va < MAXVA" for va
    using L(6) [OF pgn_less_MAXVA [OF ik(2)] that] W1(3) pgn_of_va [OF that] ik
    by (simp add: PGROUNDDOWN_pgn pgn_inj)
  have u2: "upa s2 root j = upa s root j" if "i < j" "j < NPG" for j
    using v2 [OF pgn_less_MAXVA [OF that(2)]] that by (simp add: upa_def unat_pgn)
  have mc: "mapcnt s2 root (Suc i) k p = mapcnt s root (Suc i) k p" for p
    using u2 Suc.prems(4) by (intro mapcnt_cong) auto
  have kc2: "kcnt s2 p = kcnt s p - (if ?pa = p then 1 else 0)" for p
    using L(4) F(4) by auto
  have mf: "mapcnt s root i k p = (if ?pa = p then 1 else 0) + mapcnt s root (Suc i) k p" for p
    by (rule mapcnt_first [OF ik(1)])
  have m2: "mapped s2 root (Suc i) k"
    unfolding mapped_def
  proof (intro conjI allI impI)
    fix j assume j: "Suc i \<le> j \<and> j < k"
    then have "vmap s2 root (pgn j) = vmap s root (pgn j)" "upa s2 root j = upa s root j"
      using v2 [of "pgn j"] u2 [of j] Suc.prems(4) by (auto simp: pgn_less_MAXVA unat_pgn)
    then show "has (vmap s2 root (pgn j)) PTE_V" "PTE_FLAGS (vmap s2 root (pgn j)) \<noteq> PTE_V"
      "upa s2 root j \<in> kpages s2 - tables s2 root"
      using Suc.prems(2) j L(2,3) W1(2) F(3) by (auto simp: mapped_def)
  next
    show "mapcnt s2 root (Suc i) k p \<le> kcnt s2 p" for p
      using M(5) [of p] mf [of p] kc2 [of p] mc [of p] by (simp split: if_splits)
  qed
  have n: "n = k - Suc i" "Suc i \<le> k" using Suc.hyps(2) ik by auto
  obtain s' where S: "uvmunmap_loop root (pgn (Suc i)) (pgn k) True s2 = Ok s'" "pt_wf s' root"
    "tables s' root = tables s2 root" "kpages s' = kpages s2"
    "\<forall>p. kcnt s' p = kcnt s2 p - mapcnt s2 root (Suc i) k p"
    "\<forall>a. PGROUNDDOWN a \<notin> tables s2 root \<and> 0 < kcnt s' (PGROUNDDOWN a) \<longrightarrow> pm s' a = pm s2 a"
    "\<forall>va < MAXVA. vmap s' root va = (if Suc i \<le> unat va div 4096 \<and> unat va div 4096 < k then 0 else vmap s2 root va)"
    using Suc.hyps(1) [OF n(1) L(1) m2 n(2) Suc.prems(4)] by blast
  have kc': "kcnt s' p = kcnt s p - mapcnt s root i k p" for p
    using S(5) kc2 [of p] mc [of p] mf [of p] by simp
  moreover have "pm s' a = pm s a" if "PGROUNDDOWN a \<notin> tables s root" "0 < kcnt s' (PGROUNDDOWN a)" for a
  proof -
    have "PGROUNDDOWN a \<noteq> ?pa \<or> 1 < kcnt s ?pa" using that(2) kc' [of ?pa] mf [of ?pa] by auto
    then have "pm s1 a = pm s a" using F(5) by blast
    moreover have "pm s2 a = pm s1 a" using L(5) that(1) W1(2) by simp
    ultimately show ?thesis using S(6) that L(2) W1(2) by simp
  qed
  moreover have "vmap s' root va = (if i \<le> unat va div 4096 \<and> unat va div 4096 < k then 0 else vmap s root va)"
    if "va < MAXVA" for va
    using S(7) v2 [OF that] that ik by (auto simp: less_eq_Suc_le)
  ultimately show ?case using S(1-4) step L(2,3) W1(2) F(3) by (intro exI [of _ s']) simp
qed

section \<open>uvmcopy\<close>

definition cowpte :: "u64 \<Rightarrow> u64" where "cowpte e = (e AND NOT PTE_W) OR PTE_COW"

text \<open>The entry that \<open>uvmcopy\<close> gives the child for a parent entry \<open>e\<close>.\<close>

definition childpte :: "u64 \<Rightarrow> u64" where
  "childpte e = PA2PTE (PTE2PA e) OR PTE_FLAGS (cowpte e) OR PTE_V"

text \<open>The parent's first \<open>n\<close> pages are mapped, the child's are not, and no count can overflow.\<close>

definition fork_ready :: "'a st \<Rightarrow> u64 \<Rightarrow> u64 \<Rightarrow> nat \<Rightarrow> bool" where
  "fork_ready s old new n \<longleftrightarrow> pt_wf s old \<and> pt_wf s new \<and> tables s old \<inter> tables s new = {} \<and> n \<le> NPG
     \<and> (\<forall>j < n. has (vmap s old (pgn j)) PTE_V \<and> \<not> has (vmap s new (pgn j)) PTE_V
          \<and> upa s old j \<in> kpages s \<and> upa s old j \<notin> tables s old \<and> upa s old j \<notin> tables s new
          \<and> 0 < kcnt s (upa s old j))
     \<and> (\<forall>p. kcnt s p + n < 2 ^ 31)"

text \<open>The state when the parent's first \<open>m\<close> pages are marked and the child's first \<open>k\<close> mapped.\<close>

definition cow_upto :: "'a st \<Rightarrow> 'a st \<Rightarrow> u64 \<Rightarrow> u64 \<Rightarrow> nat \<Rightarrow> nat \<Rightarrow> bool" where
  "cow_upto s0 s old new m k \<longleftrightarrow> pt_wf s old \<and> pt_wf s new \<and> kpages s = kpages s0
     \<and> tables s old = tables s0 old \<and> tables s0 old \<inter> tables s new = {} \<and> tables s0 new \<subseteq> tables s new
     \<and> (\<forall>p \<in> tables s new - tables s0 new. p \<in> kpages s0 \<and> kcnt s0 p = 0)
     \<and> (\<forall>p. kcnt s p = (if p \<in> tables s new - tables s0 new then 1 else kcnt s0 p) + mapcnt s0 old 0 k p)
     \<and> (\<forall>a. 0 < kcnt s0 (PGROUNDDOWN a) \<and> PGROUNDDOWN a \<notin> tables s0 old \<union> tables s0 new \<longrightarrow> pm s a = pm s0 a)
     \<and> (\<forall>va < MAXVA. vmap s old va = (if unat va div 4096 < m then cowpte (vmap s0 old va) else vmap s0 old va))
     \<and> (\<forall>va < MAXVA. vmap s new va = (if unat va div 4096 < k then childpte (vmap s0 old va) else vmap s0 new va))"

lemma vmap_PGROUNDDOWN: "vmap s root (PGROUNDDOWN va) = vmap s root va"
  by (simp only: vmap_def vpath_def PGROUNDDOWN_PX)

lemma vmap_pgn: "va < MAXVA \<Longrightarrow> vmap s root va = vmap s root (pgn (unat va div 4096))"
  using pgn_of_va [of va] vmap_PGROUNDDOWN [of s root va] by simp

lemma bit_PTE:
  "bit PTE_V n \<longleftrightarrow> n = 0" "bit PTE_R n \<longleftrightarrow> n = 1" "bit PTE_W n \<longleftrightarrow> n = 2"
  "bit PTE_X n \<longleftrightarrow> n = 3" "bit PTE_U n \<longleftrightarrow> n = 4" "bit PTE_COW n \<longleftrightarrow> n = 8"
  unfolding pte_bit_defs bit_push_bit_iff bit_1_iff by auto

lemma PTE2PA_cowpte: "PTE2PA (cowpte e) = PTE2PA e"
  unfolding cowpte_def PTE2PA_def
  by (rule bit_word_eqI) (auto simp: bit_simps bit_PTE)

lemma mapcnt_not: "(\<And>j. i \<le> j \<Longrightarrow> j < k \<Longrightarrow> upa s root j \<noteq> p) \<Longrightarrow> mapcnt s root i k p = 0"
  by (auto simp: mapcnt_def filter_empty_conv)

text \<open>Marking one entry of the parent.\<close>

lemma cow_mark:
  assumes C: "cow_upto s0 s old new k k" and R: "fork_ready s0 old new n" and k: "k < n"
  shows "\<exists>pte s2. walk old (pgn k) False s = Ok (pte, s) \<and> pte \<noteq> 0 \<and> ld s pte = vmap s0 old (pgn k)
     \<and> s2 = st pte (ld (st pte (ld s pte AND NOT PTE_W) s) pte OR PTE_COW) (st pte (ld s pte AND NOT PTE_W) s)
     \<and> ld s2 pte = cowpte (vmap s0 old (pgn k)) \<and> cow_upto s0 s2 old new (Suc k) k
     \<and> tables s2 new = tables s new"
proof -
  have kN: "k < NPG" using k R by (simp add: fork_ready_def)
  have wf: "pt_wf s old" "pt_wf s new" and dis: "tables s old \<inter> tables s new = {}"
    using C unfolding cow_upto_def by auto
  have e: "vmap s old (pgn k) = vmap s0 old (pgn k)"
    using C kN by (simp add: cow_upto_def pgn_less_MAXVA unat_pgn)
  have v: "has (vmap s old (pgn k)) PTE_V" using R k by (simp add: e fork_ready_def)
  obtain t where t: "tbl (pm s) old (vpath (pgn k)) = Some t"
    "walk old (pgn k) False s = Ok (t + 8 * PX 0 (pgn k), s)" "t + 8 * PX 0 (pgn k) \<noteq> 0"
    "ld s (t + 8 * PX 0 (pgn k)) = vmap s old (pgn k)"
    using walk_mapped [OF wf(1) pgn_less_MAXVA [OF kN] v] by blast
  let ?pte = "t + 8 * PX 0 (pgn k)"
  define s1 where "s1 = st ?pte (ld s ?pte AND NOT PTE_W) s"
  define s2 where "s2 = st ?pte (ld s1 ?pte OR PTE_COW) s1"
  note L1 = set_leaf [OF wf(1) t(1) s1_def]
  have l1: "ld s1 ?pte = ld s ?pte AND NOT PTE_W" by (simp add: s1_def ld_def st_def load64_store64_same)
  have s2: "s2 = st ?pte (cowpte (vmap s0 old (pgn k))) s"
    by (simp add: s2_def l1 t(4) e cowpte_def)
       (simp add: s1_def st_def store64_def store_le_def fun_eq_iff)
  note L = set_leaf [OF wf(1) t(1) s2]
  have fr: "\<forall>p \<in> tables s new. kcnt s2 p = kcnt s p" "\<forall>a. PGROUNDDOWN a \<in> tables s new \<longrightarrow> pm s2 a = pm s a"
    using L(4,5) dis by auto
  note W = pt_wf_frame [OF wf(2) pt_wfD(1) [OF L(1)] L(3) fr]
  have "vmap s2 old va = (if unat va div 4096 < Suc k then cowpte (vmap s0 old va) else vmap s0 old va)"
    if "va < MAXVA" for va
    using L(6) [OF pgn_less_MAXVA [OF kN] that] C that pgn_of_va [OF that] kN vmap_pgn [OF that, of s0 old]
    by (auto simp: cow_upto_def PGROUNDDOWN_pgn pgn_inj less_Suc_eq)
  moreover have "pm s2 a = pm s0 a"
    if "0 < kcnt s0 (PGROUNDDOWN a)" "PGROUNDDOWN a \<notin> tables s0 old \<union> tables s0 new" for a
    using that L(5) [of a] C by (auto simp: cow_upto_def)
  ultimately have "cow_upto s0 s2 old new (Suc k) k"
    using C L(1-4) W unfolding cow_upto_def by simp
  moreover have "ld s2 ?pte = cowpte (vmap s0 old (pgn k))" by (simp add: s2 ld_def st_def load64_store64_same)
  ultimately show ?thesis using t e s2_def s1_def W(2) by (intro exI [of _ ?pte] exI [of _ s2]) simp
qed

text \<open>Mapping the page into the child: one more reference, or a child with \<open>k\<close> pages.\<close>

lemma cow_map:
  assumes C: "cow_upto s0 s old new m k" and R: "fork_ready s0 old new n" and k: "k < n"
    and fl: "flags = PTE_FLAGS (cowpte (vmap s0 old (pgn k)))"
  shows "\<exists>r s3. mappages new (pgn k) PGSIZE (upa s0 old k) flags s = Ok (r, s3)
     \<and> (r = 0 \<and> (\<exists>s4. incRef (upa s0 old k) s3 = Ok s4 \<and> cow_upto s0 s4 old new m (Suc k) \<and> growth 2 new s s4)
       \<or> r = -1 \<and> cow_upto s0 s3 old new m k \<and> growth 2 new s s3 \<and> (\<forall>p \<in> kpages s3. 0 < kcnt s3 p))"
proof -
  let ?pa = "upa s0 old k"
  have kN: "k < NPG" using k R by (simp add: fork_ready_def)
  have D: "pt_wf s old" "pt_wf s new" "kpages s = kpages s0" "tables s old = tables s0 old"
    "tables s0 old \<inter> tables s new = {}" "tables s0 new \<subseteq> tables s new"
    "\<forall>p \<in> tables s new - tables s0 new. p \<in> kpages s0 \<and> kcnt s0 p = 0"
    "\<forall>p. kcnt s p = (if p \<in> tables s new - tables s0 new then 1 else kcnt s0 p) + mapcnt s0 old 0 k p"
    "\<forall>a. 0 < kcnt s0 (PGROUNDDOWN a) \<and> PGROUNDDOWN a \<notin> tables s0 old \<union> tables s0 new \<longrightarrow> pm s a = pm s0 a"
    "\<forall>va < MAXVA. vmap s old va = (if unat va div 4096 < m then cowpte (vmap s0 old va) else vmap s0 old va)"
    "\<forall>va < MAXVA. vmap s new va = (if unat va div 4096 < k then childpte (vmap s0 old va) else vmap s0 new va)"
    using C unfolding cow_upto_def by auto
  have P: "?pa \<in> kpages s0" "?pa \<notin> tables s0 old" "?pa \<notin> tables s0 new" "0 < kcnt s0 ?pa"
    "kcnt s0 ?pa + n < 2 ^ 31"
    using R k by (auto simp: fork_ready_def)
  have "\<not> has (vmap s new (pgn k)) PTE_V"
    using D(11) R k kN by (simp add: pgn_less_MAXVA unat_pgn fork_ready_def)
  then obtain r s3 where M: "mappages new (pgn k) PGSIZE ?pa flags s = Ok (r, s3)" "pt_wf s3 new" "vm_frame new s s3"
    "r = 0 \<and> (\<forall>vb < MAXVA. vmap s3 new vb =
        (if PGROUNDDOWN vb = pgn k then PA2PTE ?pa OR flags OR PTE_V else vmap s new vb))
      \<or> r = -1 \<and> (\<forall>vb. vmap s3 new vb = vmap s new vb) \<and> (\<forall>p \<in> kpages s3. 0 < kcnt s3 p)"
    "growth 2 new s s3"
    using mappages_page [OF D(2) pgn_less_MAXVA [OF kN] pgn_aligned, of ?pa flags] kN by auto
  have V: "kpages s3 = kpages s" "tables s new \<subseteq> tables s3 new"
    "\<And>p. p \<in> tables s3 new - tables s new \<Longrightarrow> p \<in> kpages s \<and> kcnt s p = 0"
    "\<And>p. kcnt s3 p = (if p \<in> tables s3 new - tables s new then 1 else kcnt s p)"
    "\<And>a. 0 < kcnt s (PGROUNDDOWN a) \<Longrightarrow> PGROUNDDOWN a \<notin> tables s new \<Longrightarrow> pm s3 a = pm s a"
    using M(3) by (auto simp: vm_frame_def)
  have old1: "p \<in> tables s0 old \<Longrightarrow> kcnt s p = 1" for p using tables_used [OF D(1)] D(4) by auto
  have fresh: "p \<in> tables s3 new - tables s0 new \<Longrightarrow> p \<in> kpages s0 \<and> kcnt s0 p = 0" for p
    using V(3) [of p] D(3,7,8) by (cases "p \<in> tables s new") (auto split: if_splits)
  have "kcnt s3 p = kcnt s p" if "p \<in> tables s old" for p
    using that old1 [of p] V(3) [of p] V(4) [of p] D(4) by auto
  moreover have "pm s3 a = pm s a" if "PGROUNDDOWN a \<in> tables s old" for a
    using that old1 [of "PGROUNDDOWN a"] V(5) [of a] D(4,5) by auto
  ultimately have fr: "\<forall>p \<in> tables s old. kcnt s3 p = kcnt s p"
    "\<forall>a. PGROUNDDOWN a \<in> tables s old \<longrightarrow> pm s3 a = pm s a" by blast+
  note W = pt_wf_frame [OF D(1) pt_wfD(1) [OF M(2)] V(1) fr]
  have kc3: "kcnt s3 p = (if p \<in> tables s3 new - tables s0 new then 1 else kcnt s0 p) + mapcnt s0 old 0 k p" for p
    using V(2) V(3) [of p] V(4) [of p] D(6,8) by (cases "p \<in> tables s new") auto
  have "p \<notin> tables s3 new" if "p \<in> tables s0 old" for p using that D(5) V(3) [of p] old1 [of p] by auto
  then have dis3: "tables s0 old \<inter> tables s3 new = {}" by blast
  have pm3: "pm s3 a = pm s0 a" if "0 < kcnt s0 (PGROUNDDOWN a)" "PGROUNDDOWN a \<notin> tables s0 old \<union> tables s0 new" for a
  proof -
    have "PGROUNDDOWN a \<notin> tables s new" using that D(7) by auto
    moreover have "0 < kcnt s (PGROUNDDOWN a)" using that(1) D(8) by auto
    ultimately show ?thesis using V(5) D(9) that by auto
  qed
  have base: "pt_wf s3 old" "pt_wf s3 new" "kpages s3 = kpages s0" "tables s3 old = tables s0 old"
    "tables s0 new \<subseteq> tables s3 new"
    "vmap s3 old va = vmap s old va" for va
    using W M(2) V(1,2) D(3,4,6) by auto
  show ?thesis
  proof (cases "r = 0")
    case False
    then have *: "\<forall>vb. vmap s3 new vb = vmap s new vb" "r = -1" "\<forall>p \<in> kpages s3. 0 < kcnt s3 p" using M(4) by auto
    then have "cow_upto s0 s3 old new m k"
      using base dis3 fresh kc3 pm3 D(10,11) unfolding cow_upto_def by simp
    then show ?thesis using M(1,5) * by blast
  next
    case True
    have pa3: "?pa \<in> kpages s3" "?pa \<notin> tables s3 old" "?pa \<notin> tables s3 new"
      using P base fresh [of ?pa] by auto
    have "mapcnt s0 old 0 k ?pa \<le> k" using mapcnt_le [of s0 old 0 k ?pa] by simp
    then have cb: "0 < kcnt s3 ?pa" "kcnt s3 ?pa < 2 ^ 31 - 1" using kc3 [of ?pa] pa3 P(4,5) k by auto
    obtain s4 where I: "incRef ?pa s3 = Ok s4" "kinv s4" "kpages s4 = kpages s3"
      "kcnt s4 = (kcnt s3)(?pa := kcnt s3 ?pa + 1)" "pm s4 = pm s3"
      using kmem.share_used [OF pt_wfD(1) [OF M(2)] pa3(1) cb] by blast
    have f4: "\<forall>p \<in> tables s3 old. kcnt s4 p = kcnt s3 p" "\<forall>a. PGROUNDDOWN a \<in> tables s3 old \<longrightarrow> pm s4 a = pm s3 a"
      "\<forall>p \<in> tables s3 new. kcnt s4 p = kcnt s3 p" "\<forall>a. PGROUNDDOWN a \<in> tables s3 new \<longrightarrow> pm s4 a = pm s3 a"
      using I(4,5) pa3 by auto
    note W4 = pt_wf_frame [OF base(1) I(2,3) f4(1,2)] and W5 = pt_wf_frame [OF base(2) I(2,3) f4(3,4)]
    have "vmap s4 new va = (if unat va div 4096 < Suc k then childpte (vmap s0 old va) else vmap s0 new va)"
      if "va < MAXVA" for va
      using M(4) True D(11) that pgn_of_va [OF that] kN vmap_pgn [OF that, of s0 old] W5(3) [of va]
      by (auto simp: pgn_inj less_Suc_eq childpte_def upa_def fl)
    moreover have "kcnt s4 p = (if p \<in> tables s4 new - tables s0 new then 1 else kcnt s0 p) + mapcnt s0 old 0 (Suc k) p" for p
      using kc3 [of p] I(4) W5(2) mapcnt_last [of 0 k s0 old p] pa3(3) by auto
    ultimately have "cow_upto s0 s4 old new m (Suc k)"
      using W4 W5 base dis3 fresh pm3 I(3,5) D(10) unfolding cow_upto_def by simp
    moreover have "growth 2 new s s4" using M(5) W5(2) by (simp add: growth_def)
    ultimately show ?thesis using M(1) True I(1) by blast
  qed
qed

lemma flags_small: "drop_bit 10 (PTE_FLAGS e) = 0"
proof -
  have m: "(0x3FF::u64) = mask 10" by (simp add: mask_eq_exp_minus_1)
  show ?thesis unfolding PTE_FLAGS_def m by (rule bit_word_eqI) (auto simp: bit_simps)
qed

lemma bit_PTE_FLAGS: "bit (PTE_FLAGS e) n \<longleftrightarrow> n < 10 \<and> bit e n"
proof -
  have m: "(0x3FF::u64) = mask 10" by (simp add: mask_eq_exp_minus_1)
  show ?thesis unfolding PTE_FLAGS_def m by (auto simp: bit_simps dest: bit_imp_le_length)
qed

lemma PTE2PA_childpte: "PTE2PA e \<in> kpages s \<Longrightarrow> PTE2PA (childpte e) = PTE2PA e"
  unfolding childpte_def by (rule PTE2PA_page) (auto simp: drop_bit_or flags_small)

lemma PTE_FLAGS_childpte: "PTE_FLAGS (childpte e) = PTE_FLAGS (cowpte e) OR PTE_V"
proof -
  have "PTE_FLAGS (childpte e) = (PTE_FLAGS (cowpte e) OR PTE_V) AND 0x3FF"
    unfolding childpte_def by (simp add: PTE_FLAGS_PA2PTE)
  also have "\<dots> = PTE_FLAGS (PTE_FLAGS (cowpte e) OR PTE_V)" by (simp add: PTE_FLAGS_def)
  also have "\<dots> = PTE_FLAGS (cowpte e) OR PTE_V"
    by (rule bit_word_eqI) (auto simp: bit_PTE_FLAGS bit_simps bit_PTE)
  finally show ?thesis .
qed

lemma childpte_not_table: "PTE_FLAGS (childpte e) \<noteq> PTE_V"
proof
  assume "PTE_FLAGS (childpte e) = PTE_V"
  then have "bit (PTE_FLAGS (cowpte e) OR PTE_V) 8 = bit PTE_V 8" by (simp only: PTE_FLAGS_childpte)
  then show False unfolding cowpte_def bit_or_iff bit_PTE bit_PTE_FLAGS by simp
qed

lemma childpte_valid [simp]: "has (childpte e) PTE_V"
  by (simp add: childpte_def)

text \<open>What is left when \<open>uvmcopy\<close> runs out of memory.\<close>

definition cow_failed :: "'a st \<Rightarrow> 'a st \<Rightarrow> u64 \<Rightarrow> u64 \<Rightarrow> nat \<Rightarrow> bool" where
  "cow_failed s0 s old new n \<longleftrightarrow> pt_wf s old \<and> pt_wf s new
     \<and> (\<forall>j < n. \<not> has (vmap s new (pgn j)) PTE_V)
     \<and> (\<forall>p. kcnt s p = (if p \<in> tables s new - tables s0 new then 1 else kcnt s0 p))
     \<and> (\<forall>a. 0 < kcnt s0 (PGROUNDDOWN a) \<and> PGROUNDDOWN a \<notin> tables s0 old \<union> tables s0 new \<longrightarrow> pm s a = pm s0 a)
     \<and> (\<forall>va < MAXVA. vmap s old va = vmap s0 old va \<or> vmap s old va = cowpte (vmap s0 old va))"

lemma cow_undo:
  assumes C: "cow_upto s0 s old new m k" and R: "fork_ready s0 old new n" and k: "k \<le> n"
  shows "\<exists>s'. uvmunmap new 0 (pgn k div PGSIZE) True s = Ok s' \<and> cow_failed s0 s' old new n
     \<and> tables s' new = tables s new \<and> (\<forall>p. 0 < kcnt s p \<longrightarrow> 0 < kcnt s' p)"
proof -
  have kN: "k \<le> NPG" using k R by (simp add: fork_ready_def)
  have D: "pt_wf s old" "pt_wf s new" "kpages s = kpages s0" "tables s old = tables s0 old"
    "tables s0 old \<inter> tables s new = {}"
    "\<forall>p \<in> tables s new - tables s0 new. p \<in> kpages s0 \<and> kcnt s0 p = 0"
    "\<forall>p. kcnt s p = (if p \<in> tables s new - tables s0 new then 1 else kcnt s0 p) + mapcnt s0 old 0 k p"
    using C unfolding cow_upto_def by auto
  have U: "upa s0 old j \<in> kpages s0" "upa s0 old j \<notin> tables s0 old" "upa s0 old j \<notin> tables s0 new"
    "0 < kcnt s0 (upa s0 old j)" "\<not> has (vmap s0 new (pgn j)) PTE_V" if "j < n" for j
    using R that by (auto simp: fork_ready_def)
  have vn: "vmap s new (pgn j) = (if j < k then childpte (vmap s0 old (pgn j)) else vmap s0 new (pgn j))" if "j < n" for j
    using C R that by (simp add: cow_upto_def fork_ready_def pgn_less_MAXVA unat_pgn)
  have un: "upa s new j = upa s0 old j" if "j < k" for j
    using vn [of j] U(1) [of j] that k by (simp add: upa_def PTE2PA_childpte)
  have mc: "mapcnt s new 0 k p = mapcnt s0 old 0 k p" for p using un by (intro mapcnt_cong) auto
  have "upa s0 old j \<notin> tables s new" if "j < k" for j using D(6) U(3,4) [of j] that k by force
  then have "mapped s new 0 k"
    using vn un U(1) k D(3,7) mc by (auto simp: mapped_def childpte_not_table)
  then obtain s' where S: "uvmunmap_loop new (pgn 0) (pgn k) True s = Ok s'" "pt_wf s' new"
    "tables s' new = tables s new" "kpages s' = kpages s" "\<forall>p. kcnt s' p = kcnt s p - mapcnt s new 0 k p"
    "\<forall>a. PGROUNDDOWN a \<notin> tables s new \<and> 0 < kcnt s' (PGROUNDDOWN a) \<longrightarrow> pm s' a = pm s a"
    "\<forall>va < MAXVA. vmap s' new va = (if 0 \<le> unat va div 4096 \<and> unat va div 4096 < k then 0 else vmap s new va)"
    using uvmunmap_loop_free [OF D(2), of 0 k] kN by blast
  have "pgn k div PGSIZE * PGSIZE = pgn k"
    using PGROUNDDOWN_pgn [OF kN] by (simp add: PGROUNDDOWN_div PGSIZE_def)
  then have run: "uvmunmap new 0 (pgn k div PGSIZE) True s = Ok s'"
    using S(1) by (simp add: uvmunmap_def) (simp add: pgn_def)
  have kc: "kcnt s' p = (if p \<in> tables s' new - tables s0 new then 1 else kcnt s0 p)" for p
    using S(3,5) D(7) mc [of p] by simp
  have ot: "p \<in> tables s old \<Longrightarrow> mapcnt s0 old 0 k p = 0" for p
    using U(2) k D(4) by (intro mapcnt_not) auto
  have fr: "\<forall>p \<in> tables s old. kcnt s' p = kcnt s p" using S(5) ot mc by simp
  then have fr2: "\<forall>a. PGROUNDDOWN a \<in> tables s old \<longrightarrow> pm s' a = pm s a"
    using S(6) D(4,5) tables_used [OF D(1)] by (metis disjoint_iff zero_less_one)
  note W = pt_wf_frame [OF D(1) pt_wfD(1) [OF S(2)] S(4) fr fr2]
  have "pm s' a = pm s0 a" if "0 < kcnt s0 (PGROUNDDOWN a)" "PGROUNDDOWN a \<notin> tables s0 old \<union> tables s0 new" for a
  proof -
    have nt: "PGROUNDDOWN a \<notin> tables s new" using that D(6) by auto
    then have "pm s' a = pm s a" using S(3,6) that(1) kc [of "PGROUNDDOWN a"] by auto
    then show ?thesis using C that by (simp add: cow_upto_def)
  qed
  moreover have "\<not> has (vmap s' new (pgn j)) PTE_V" if "j < n" for j
    using S(7) vn [OF that] U(5) [OF that] that R by (auto simp: pgn_less_MAXVA fork_ready_def unat_pgn)
  moreover have "vmap s' old va = vmap s0 old va \<or> vmap s' old va = cowpte (vmap s0 old va)" if "va < MAXVA" for va
    using C that W(3) by (auto simp: cow_upto_def)
  ultimately have "cow_failed s0 s' old new n" using W(1) S(2) kc unfolding cow_failed_def by blast
  moreover have "0 < kcnt s' p" if "0 < kcnt s p" for p
  proof (cases "mapcnt s0 old 0 k p = 0")
    case True then show ?thesis using that S(5) mc by simp
  next
    case False
    then obtain j where "j < k" "upa s0 old j = p" using mapcnt_not [of 0 k s0 old p] by auto
    then show ?thesis using U(4) [of j] k kc [of p] by auto
  qed
  ultimately show ?thesis using run S(3) by blast
qed

lemma growth_mono:
  "growth d root s s1 \<Longrightarrow> tables s2 root = tables s1 root \<Longrightarrow> d \<le> e \<Longrightarrow> growth e root s s2"
  unfolding growth_def by (metis le_trans)

lemma pgn_less_sz:
  assumes "unat sz \<le> 4096 * NPG" "n = (unat sz + 4095) div 4096" "k \<le> n"
  shows "pgn k < sz \<longleftrightarrow> k < n"
proof -
  have "k \<le> NPG" using assms by (simp add: NPG_def)
  then show ?thesis using assms(2) by (simp add: word_less_nat_alt unat_pgn) linarith
qed

lemma uvmcopy_loop_cow:
  assumes R: "fork_ready s0 old new n" and sz: "unat sz \<le> 4096 * NPG" "n = (unat sz + 4095) div 4096"
  shows "cow_upto s0 s old new k k \<Longrightarrow> k \<le> n \<Longrightarrow> growth (2 * k) new s0 s \<Longrightarrow>
    \<exists>r s'. uvmcopy_loop old new (pgn k) sz s = Ok (r, s') \<and> growth (2 * n) new s0 s'
      \<and> (r = 0 \<and> cow_upto s0 s' old new n n
        \<or> r = -1 \<and> cow_failed s0 s' old new n \<and> (\<forall>p \<in> kpages s0. 0 < kcnt s' p))"
proof (induction "n - k" arbitrary: k s)
  case 0
  then have "k = n" by simp
  then show ?case using 0 pgn_less_sz [OF sz] by (simp add: uvmcopy_loop.simps [of old new "pgn n"])
next
  case (Suc d)
  then have kn: "k < n" by simp
  obtain pte s2 where W: "walk old (pgn k) False s = Ok (pte, s)" "pte \<noteq> 0" "ld s pte = vmap s0 old (pgn k)"
    "s2 = st pte (ld (st pte (ld s pte AND NOT PTE_W) s) pte OR PTE_COW) (st pte (ld s pte AND NOT PTE_W) s)"
    "ld s2 pte = cowpte (vmap s0 old (pgn k))" "cow_upto s0 s2 old new (Suc k) k" "tables s2 new = tables s new"
    using cow_mark [OF Suc.prems(1) R kn] by blast
  obtain r s3 where M: "mappages new (pgn k) PGSIZE (upa s0 old k) (PTE_FLAGS (ld s2 pte)) s2 = Ok (r, s3)"
    "r = 0 \<and> (\<exists>s4. incRef (upa s0 old k) s3 = Ok s4 \<and> cow_upto s0 s4 old new (Suc k) (Suc k) \<and> growth 2 new s2 s4)
       \<or> r = -1 \<and> cow_upto s0 s3 old new (Suc k) k \<and> growth 2 new s2 s3 \<and> (\<forall>p \<in> kpages s3. 0 < kcnt s3 p)"
    using cow_map [OF W(6) R kn] W(5) by metis
  have g2: "growth (2 * k) new s0 s2" using Suc.prems(3) W(7) by (simp add: growth_def)
  have g3: "growth (2 * Suc k) new s0 s'" if "growth 2 new s2 s'" for s'
    using growth_trans [OF g2 that] by (simp add: add.commute)
  have v: "has (ld s pte) PTE_V" using R kn W(3) by (simp add: fork_ready_def)
  have step: "uvmcopy_loop old new (pgn k) sz s =
     (if r \<noteq> 0 then bind_res (uvmunmap new 0 (pgn k div PGSIZE) True s3) (\<lambda>s4. Ok (-1, s4))
      else bind_res (incRef (upa s0 old k) s3) (uvmcopy_loop old new (pgn (Suc k)) sz))"
    using pgn_less_sz [OF sz, of k] kn W(1,2) v M(1)
    by (subst uvmcopy_loop.simps) (simp add: W(3) upa_def pgn_Suc Let_def flip: W(4) [unfolded W(3)])
  show ?case
  proof (cases "r = 0")
    case True
    then obtain s4 where I: "incRef (upa s0 old k) s3 = Ok s4" "cow_upto s0 s4 old new (Suc k) (Suc k)"
      "growth 2 new s2 s4" using M(2) by auto
    have "d = n - Suc k" "Suc k \<le> n" using Suc.hyps(2) kn by auto
    then show ?thesis using Suc.hyps(1) [OF _ I(2) _ g3 [OF I(3)]] step True I(1) by simp
  next
    case False
    then have f: "cow_upto s0 s3 old new (Suc k) k" "growth 2 new s2 s3" "\<forall>p \<in> kpages s3. 0 < kcnt s3 p" "r = -1"
      using M(2) by auto
    obtain s' where u: "uvmunmap new 0 (pgn k div PGSIZE) True s3 = Ok s'" "cow_failed s0 s' old new n"
      "tables s' new = tables s3 new" "\<forall>p. 0 < kcnt s3 p \<longrightarrow> 0 < kcnt s' p"
      using cow_undo [OF f(1) R] kn by auto
    have "growth (2 * n) new s0 s'" using kn by (intro growth_mono [OF g3 [OF f(2)] u(3)]) simp
    moreover have "kpages s3 = kpages s0" using f(1) by (simp add: cow_upto_def)
    ultimately show ?thesis using step False u f(3) by auto
  qed
qed

end
