(* ===== verification/Cow.thy ===== *)
theory Cow
  imports Uvm
begin

text \<open>
  The copy-on-write page fault of \<open>usertrap\<close> in \<^verbatim>\<open>kernel/trap.c\<close>, and what it means for the
  processes that share pages after \<open>fork\<close>: the faulting process gets a private copy, nobody
  else sees a difference.
\<close>

section \<open>Model\<close>

text \<open>
  The branch of \<open>usertrap\<close> for \<open>scause\<close> 15 on the faulting address \<open>stval\<close>.  The address goes
  through an \<open>int\<close>: it is cut to 32 bits and widened with its sign.  The flag says that the
  process is killed.
\<close>

definition fault_va :: "u64 \<Rightarrow> u64" where
  "fault_va stval = scast (ucast stval :: u32)"

definition store_fault :: "u64 \<Rightarrow> u64 \<Rightarrow> 'a st \<Rightarrow> (bool \<times> 'a st) res" where
  "store_fault pagetable stval s =
     (let va = fault_va stval
      in if sint va \<ge> sint MAXVA then Ok (True, s)
         else if va = 0 then Ok (True, s)
         else bind_res (walk pagetable va False s) (\<lambda>(pte, s).
           if pte = 0 then Ok (True, s)
           else if \<not> has (ld s pte) PTE_W \<and> \<not> has (ld s pte) PTE_COW then Ok (True, s)
           else if has (ld s pte) PTE_W \<or> \<not> has (ld s pte) PTE_U \<or> \<not> has (ld s pte) PTE_V then Ok (True, s)
           else bind_res (kalloc s) (\<lambda>(new, s).
             if new = 0 then Ok (True, s)
             else let s1 = s\<lparr>pm := memmove (pm s) new (PTE2PA (ld s pte)) (ucast PGSIZE)\<rparr>;
                      old = PTE2PA (ld s1 pte);
                      s2 = st pte (PA2PTE new OR PTE_V OR PTE_R OR PTE_W OR PTE_U OR PTE_X) s1;
                      s3 = st pte (ld s2 pte AND NOT PTE_COW) s2
                  in bind_res (kfree old s3) (\<lambda>s4. Ok (False, s4)))))"

text \<open>The byte a process sees at a virtual address, and a store to it.\<close>

definition uaddr :: "'a st \<Rightarrow> u64 \<Rightarrow> u64 \<Rightarrow> u64" where
  "uaddr s root va = PTE2PA (vmap s root va) + (va - PGROUNDDOWN va)"

definition ubyte :: "'a st \<Rightarrow> u64 \<Rightarrow> u64 \<Rightarrow> u8" where
  "ubyte s root va = pm s (uaddr s root va)"

definition ustore :: "u64 \<Rightarrow> u64 \<Rightarrow> u8 \<Rightarrow> 'a st \<Rightarrow> 'a st" where
  "ustore root va b s = s\<lparr>pm := (pm s)(uaddr s root va := b)\<rparr>"

section \<open>Facts\<close>

lemma sint_small:
  assumes "unat (w::'a::len word) < 2 ^ n" "n < LENGTH('a)" shows "sint w = uint w"
proof -
  have "int (unat w) < int (2 ^ n)" using assms(1) by (simp only: of_nat_less_iff)
  then have "uint w < 2 ^ n" by (simp only: uint_nat of_nat_power of_nat_numeral)
  moreover have "(2::int) ^ n \<le> 2 ^ (LENGTH('a) - 1)" using assms(2) by (intro power_increasing) auto
  ultimately have u: "uint w < 2 ^ (LENGTH('a) - 1)" by linarith
  have "signed_take_bit (LENGTH('a) - 1) (uint w) = uint w"
    by (rule signed_take_bit_int_eq_self [OF _ u]) (rule order_trans [of _ 0], simp_all)
  then show ?thesis by (simp add: sint_uint)
qed

lemma fault_va_small:
  assumes "unat va < 2 ^ 31" shows "fault_va va = va"
proof -
  have u: "unat (ucast va :: u32) = unat va" using assms by (simp add: unsigned_ucast_eq take_bit_nat_eq_self)
  have "sint (ucast va :: u32) = uint (ucast va :: u32)" by (rule sint_small [where n = 31]) (use u assms in simp_all)
  also have "\<dots> = int (unat va)" using u by (metis uint_nat)
  finally have "fault_va va = word_of_int (int (unat va))" by (simp add: fault_va_def scast_eq)
  then show ?thesis by simp
qed

lemma fault_va_negative:
  assumes "bit va 31" shows "MAXVA \<le> fault_va va" "sint (fault_va va) < 0"
proof -
  have b: "bit (fault_va va) n" if "31 \<le> n" "n < 64" for n
    using assms that by (auto simp: fault_va_def bit_simps min_def)
  show "sint (fault_va va) < 0" using b [of 63] bit_last_iff [of "fault_va va"] by simp
  have "\<not> fault_va va < MAXVA" using va_bit [of "fault_va va" 40] b [of 40] by auto
  then show "MAXVA \<le> fault_va va" by simp
qed

lemma sint_MAXVA: "sint MAXVA = 2 ^ 38"
  by (simp add: MAXVA_eq(2))

lemma sint_below_MAXVA:
  assumes "va < MAXVA" shows "sint va < sint MAXVA"
proof -
  have l: "unat va < 2 ^ 38" using assms by (simp add: word_less_nat_alt MAXVA_eq(2))
  have "sint va = uint va" by (rule sint_small [OF l]) simp
  also have "\<dots> = int (unat va)" by (simp only: uint_nat)
  also have "\<dots> < int (2 ^ 38)" using l by (simp only: of_nat_less_iff)
  finally show ?thesis by (simp add: sint_MAXVA)
qed

lemma offset_page: "pg_aligned p \<Longrightarrow> PGROUNDDOWN (p + (va - PGROUNDDOWN va)) = p"
  using page_bytes [of p "p + (va - PGROUNDDOWN va)"] by (simp add: unat_page_offset)

lemma page_copy:
  assumes "new \<in> kpages s" "pa \<in> kpages s" "m' = memmove m new pa (ucast PGSIZE)"
  shows "PGROUNDDOWN a \<noteq> new \<Longrightarrow> m' a = m a" and "unat k < 4096 \<Longrightarrow> m' (new + k) = m (pa + k)"
proof -
  have na: "pg_aligned new" "unat new < 2281701376" "unat pa < 2281701376"
    using assms(1,2) by (auto simp: kpages_def page_ok_def word_less_nat_alt PHYSTOP_nat)
  have u: "unat (ucast PGSIZE :: u32) = 4096" by (simp add: PGSIZE_def)
  have m: "m' = copied m new pa 4096"
    using memmove_copied [of pa "ucast PGSIZE" new m] na assms(3) by (simp add: u)
  show "PGROUNDDOWN a \<noteq> new \<Longrightarrow> m' a = m a" using page_bytes [OF na(1), of a] by (simp add: m copied_apply)
  show "unat k < 4096 \<Longrightarrow> m' (new + k) = m (pa + k)" by (simp add: m copied_apply)
qed

text \<open>The page of a valid entry of a process is in use and is not a page-table page.\<close>

definition user_page :: "'a st \<Rightarrow> u64 \<Rightarrow> u64 \<Rightarrow> bool" where
  "user_page s root va \<longleftrightarrow> va < MAXVA \<and> has (vmap s root va) PTE_V
     \<and> PTE2PA (vmap s root va) \<in> kpages s \<and> 0 < kcnt s (PTE2PA (vmap s root va))"

definition PTE_NEW :: "u64 \<Rightarrow> u64" where
  "PTE_NEW new = (PA2PTE new OR PTE_V OR PTE_R OR PTE_W OR PTE_U OR PTE_X) AND NOT PTE_COW"

lemma PTE_NEW_page: "new \<in> kpages s \<Longrightarrow> PTE2PA (PTE_NEW new) = new"
proof -
  assume n: "new \<in> kpages s"
  have "PTE2PA (PTE_NEW new) = PTE2PA (PA2PTE new OR PTE_V OR PTE_R OR PTE_W OR PTE_U OR PTE_X)"
    unfolding PTE_NEW_def PTE2PA_def by (rule bit_word_eqI) (auto simp: bit_simps bit_PTE)
  also have "\<dots> = new" by (rule PTE2PA_page [OF n]) (simp add: drop_bit_or)
  finally show ?thesis .
qed

lemma has_bit: "has e PTE_V \<longleftrightarrow> bit e 0" "has e PTE_W \<longleftrightarrow> bit e 2" "has e PTE_U \<longleftrightarrow> bit e 4" "has e PTE_COW \<longleftrightarrow> bit e 8"
proof -
  have *: "has e f \<longleftrightarrow> bit e k" if "\<And>n. bit f n \<longleftrightarrow> n = k" for f k
    using bit_eq_iff [of "e AND f" 0] by (auto simp: has_def bit_and_iff that dest: bit_imp_le_length)
  show "has e PTE_V \<longleftrightarrow> bit e 0" "has e PTE_W \<longleftrightarrow> bit e 2" "has e PTE_U \<longleftrightarrow> bit e 4" "has e PTE_COW \<longleftrightarrow> bit e 8"
    by (rule *, rule bit_PTE)+
qed

lemma PTE_NEW_flags: "has (PTE_NEW new) PTE_V" "has (PTE_NEW new) PTE_W" "has (PTE_NEW new) PTE_U" "\<not> has (PTE_NEW new) PTE_COW"
  unfolding has_bit PTE_NEW_def by (auto simp: bit_simps bit_PTE)

text \<open>
  The private copy: with \<open>pte\<close> the leaf entry of \<open>va\<close>, the steps of the handler after its checks
  end in a state where the page of \<open>va\<close> is \<open>new\<close> with the old page's bytes.
\<close>

lemma private_copy:
  assumes wf: "pt_wf s root" and va: "va < MAXVA" and up: "user_page s root va"
    and nt: "PTE2PA (vmap s root va) \<notin> tables s root"
    and al: "kalloc s = Ok (new, s1)" "new \<noteq> 0" and pte: "tbl (pm s) root (vpath va) = Some t" "pte = t + 8 * PX 0 va"
    and s2: "s2 = s1\<lparr>pm := memmove (pm s1) new (PTE2PA (ld s1 pte)) (ucast PGSIZE)\<rparr>"
    and s3: "s3 = st pte (PTE_NEW new) s2"
  shows "ld s2 pte = vmap s root va"
    and "\<exists>s4. kfree (PTE2PA (vmap s root va)) s3 = Ok s4 \<and> pt_wf s4 root \<and> kpages s4 = kpages s
       \<and> new \<in> kpages s \<and> kcnt s new = 0 \<and> tables s4 root = tables s root
       \<and> kcnt s4 = (kcnt s)(new := 1, PTE2PA (vmap s root va) := kcnt s (PTE2PA (vmap s root va)) - 1)
       \<and> (\<forall>vb < MAXVA. vmap s4 root vb = (if PGROUNDDOWN vb = PGROUNDDOWN va then PTE_NEW new else vmap s root vb))
       \<and> (\<forall>k. unat k < 4096 \<longrightarrow> pm s4 (new + k) = pm s (PTE2PA (vmap s root va) + k))
       \<and> (\<forall>a. PGROUNDDOWN a \<notin> tables s root \<and> PGROUNDDOWN a \<noteq> new
            \<and> (PGROUNDDOWN a \<noteq> PTE2PA (vmap s root va) \<or> 1 < kcnt s (PTE2PA (vmap s root va))) \<longrightarrow> pm s4 a = pm s a)"
proof -
  let ?e = "vmap s root va"
  let ?pa = "PTE2PA ?e"
  have U: "?pa \<in> kpages s" "0 < kcnt s ?pa" using up by (auto simp: user_page_def)
  note A = kmem.alloc_page [OF pt_wfD(1) [OF wf] al]
  have new_t: "new \<notin> tables s root" using tables_used [OF wf] A(2) by fastforce
  have npa: "new \<noteq> ?pa" using A(2) U(2) by auto
  have fr: "\<forall>p \<in> tables s root. kcnt s1 p = kcnt s p" "\<forall>a. PGROUNDDOWN a \<in> tables s root \<longrightarrow> pm s1 a = pm s a"
    using A(5,6) new_t by (auto, metis)
  note W1 = pt_wf_frame [OF wf A(3,4) fr]
  have e: "ld s pte = ?e" "ld s1 pte = ?e"
    using pte W1(3) [of va] W1(4) [OF path_vpath, of va] by (auto simp: vmap_def)
  have s2': "s2 = s1\<lparr>pm := memmove (pm s1) new ?pa (ucast PGSIZE)\<rparr>" by (simp add: s2 e)
  note PC = page_copy [OF A(1) U(1) refl, where m = "pm s1"]
  have i2: "kinv s2" unfolding s2' using A PC(1) by (intro kinv_write_used [where p = new]) auto
  have k2: "kpages s2 = kpages s1" by (simp add: s2')
  have fr2: "\<forall>p \<in> tables s1 root. kcnt s2 p = kcnt s1 p" "\<forall>a. PGROUNDDOWN a \<in> tables s1 root \<longrightarrow> pm s2 a = pm s1 a"
    using PC(1) new_t W1(2) by (auto simp: s2', metis)
  note W2 = pt_wf_frame [OF W1(1) i2 k2 fr2]
  have t2: "tbl (pm s2) root (vpath va) = Some t" using W2(4) W1(4) pte by simp
  show "ld s2 pte = ?e" using t2 W2(3) [of va] W1(3) [of va] pte(2) by (simp add: vmap_def)
  note L = set_leaf [OF W2(1) t2, of s3 "PTE_NEW new"]
  have s3': "s3 = st (t + 8 * PX 0 va) (PTE_NEW new) s2" by (simp add: s3 pte)
  note L = L [OF s3']
  have c3: "kcnt s3 = (kcnt s)(new := 1)" "kpages s3 = kpages s" "tables s3 root = tables s root"
    using L(2-4) A(4,5) W1(2) W2(2) by (auto simp: s2')
  have pa3: "?pa \<in> kpages s3" "0 < kcnt s3 ?pa" "kcnt s3 ?pa = kcnt s ?pa" using c3 U npa by auto
  obtain s4 where F: "kfree ?pa s3 = Ok s4" "kinv s4" "kpages s4 = kpages s3" "kcnt s4 = (kcnt s3)(?pa := kcnt s3 ?pa - 1)"
    "\<forall>a. PGROUNDDOWN a \<noteq> ?pa \<or> 1 < kcnt s3 ?pa \<longrightarrow> pm s4 a = pm s3 a"
    using kmem.free_used [OF pt_wfD(1) [OF L(1)] pa3(1,2)] by blast
  have fr4: "\<forall>p \<in> tables s3 root. kcnt s4 p = kcnt s3 p" "\<forall>a. PGROUNDDOWN a \<in> tables s3 root \<longrightarrow> pm s4 a = pm s3 a"
    using F(4,5) nt c3(3) by (auto, metis)
  note W4 = pt_wf_frame [OF L(1) F(2,3) fr4]
  have na: "pg_aligned new" using A(1) by (rule kpages_aligned)
  have "pm s4 (new + k) = pm s (?pa + k)" if k: "unat k < 4096" for k
  proof -
    have pn: "PGROUNDDOWN (new + k) = new" "PGROUNDDOWN (?pa + k) = ?pa"
      using page_bytes [OF na, of "new + k"] page_bytes [OF kpages_aligned [OF U(1)], of "?pa + k"] k by auto
    have "pm s4 (new + k) = pm s3 (new + k)" using F(5) pn npa by auto
    also have "\<dots> = pm s2 (new + k)" using L(5) pn new_t W1(2) W2(2) by auto
    also have "\<dots> = pm s1 (?pa + k)" using PC(2) [OF k] by (simp add: s2')
    also have "\<dots> = pm s (?pa + k)" using A(6) pn npa by auto
    finally show ?thesis .
  qed
  moreover have "pm s4 a = pm s a" if "PGROUNDDOWN a \<notin> tables s root" "PGROUNDDOWN a \<noteq> new"
    "PGROUNDDOWN a \<noteq> ?pa \<or> 1 < kcnt s ?pa" for a
  proof -
    have "pm s4 a = pm s3 a" using F(5) that(3) pa3(3) by auto
    also have "\<dots> = pm s2 a" using L(5) that(1) W1(2) W2(2) by auto
    also have "\<dots> = pm s a" using PC(1) A(6) that(2) by (simp add: s2')
    finally show ?thesis .
  qed
  moreover have "vmap s4 root vb = (if PGROUNDDOWN vb = PGROUNDDOWN va then PTE_NEW new else vmap s root vb)"
    if "vb < MAXVA" for vb
    using L(6) [OF va that] W1(3) W2(3) W4(3) by simp
  ultimately show "\<exists>s4. kfree ?pa s3 = Ok s4 \<and> pt_wf s4 root \<and> kpages s4 = kpages s
       \<and> new \<in> kpages s \<and> kcnt s new = 0 \<and> tables s4 root = tables s root
       \<and> kcnt s4 = (kcnt s)(new := 1, ?pa := kcnt s ?pa - 1)
       \<and> (\<forall>vb < MAXVA. vmap s4 root vb = (if PGROUNDDOWN vb = PGROUNDDOWN va then PTE_NEW new else vmap s root vb))
       \<and> (\<forall>k. unat k < 4096 \<longrightarrow> pm s4 (new + k) = pm s (?pa + k))
       \<and> (\<forall>a. PGROUNDDOWN a \<notin> tables s root \<and> PGROUNDDOWN a \<noteq> new
            \<and> (PGROUNDDOWN a \<noteq> ?pa \<or> 1 < kcnt s ?pa) \<longrightarrow> pm s4 a = pm s a)"
    using F(1,3,4) W4(1,2) c3 A(1,2) pa3(3) npa by (intro exI [of _ s4]) simp
qed

lemma ld_st_same: "ld (st a v s) a = v"
  by (simp add: ld_def st_def load64_store64_same)

lemma st_st: "st a v (st a u s) = st a v s"
  by (simp add: st_def store64_def store_le_def fun_eq_iff)

text \<open>
  A store fault on a shared copy-on-write page, seen from the faulting table \<open>w\<close> and from
  another table \<open>x\<close>.
\<close>

lemma store_fault_shared:
  assumes wf: "pt_wf s w" "pt_wf s x" and dis: "tables s w \<inter> tables s x = {}"
    and va: "unat va < 2 ^ 31" "va \<noteq> 0"
    and e: "has (vmap s w va) PTE_V" "has (vmap s w va) PTE_U" "has (vmap s w va) PTE_COW" "\<not> has (vmap s w va) PTE_W"
    and pa: "PTE2PA (vmap s w va) \<in> kpages s" "PTE2PA (vmap s w va) \<notin> tables s w" "1 < kcnt s (PTE2PA (vmap s w va))"
    and avail: "\<exists>q \<in> kpages s. kcnt s q = 0"
  shows "\<exists>new s2. store_fault w va s = Ok (False, s2) \<and> new \<in> kpages s \<and> kcnt s new = 0
     \<and> pt_wf s2 w \<and> pt_wf s2 x \<and> tables s2 w = tables s w \<and> tables s2 x = tables s x
     \<and> kcnt s2 = (kcnt s)(new := 1, PTE2PA (vmap s w va) := kcnt s (PTE2PA (vmap s w va)) - 1)
     \<and> (\<forall>vb. vmap s2 x vb = vmap s x vb)
     \<and> (\<forall>vb < MAXVA. vmap s2 w vb = (if PGROUNDDOWN vb = PGROUNDDOWN va then PTE_NEW new else vmap s w vb))
     \<and> (\<forall>k. unat k < 4096 \<longrightarrow> pm s2 (new + k) = pm s (PTE2PA (vmap s w va) + k))
     \<and> (\<forall>a. PGROUNDDOWN a \<notin> tables s w \<and> PGROUNDDOWN a \<noteq> new \<longrightarrow> pm s2 a = pm s a)"
proof -
  let ?pa = "PTE2PA (vmap s w va)"
  have vm: "va < MAXVA" using va(1) by (simp add: word_less_nat_alt MAXVA_eq(2))
  obtain t where t: "tbl (pm s) w (vpath va) = Some t" "walk w va False s = Ok (t + 8 * PX 0 va, s)"
    "t + 8 * PX 0 va \<noteq> 0" "ld s (t + 8 * PX 0 va) = vmap s w va"
    using walk_mapped [OF wf(1) vm e(1)] by blast
  obtain new s1 where al: "kalloc s = Ok (new, s1)" using kmem.alloc_total [OF pt_wfD(1) [OF wf(1)]] by blast
  have new: "new \<noteq> 0" using kmem.alloc_zero_iff [OF pt_wfD(1) [OF wf(1)] al] avail by auto
  let ?pte = "t + 8 * PX 0 va"
  define s2 where "s2 = s1\<lparr>pm := memmove (pm s1) new (PTE2PA (ld s1 ?pte)) (ucast PGSIZE)\<rparr>"
  have up: "user_page s w va" using vm e(1) pa by (simp add: user_page_def)
  note P = private_copy [OF wf(1) vm up pa(2) al new t(1) refl s2_def refl]
  obtain s4 where S: "kfree ?pa (st ?pte (PTE_NEW new) s2) = Ok s4" "new \<in> kpages s" "kcnt s new = 0"
    "kcnt s4 = (kcnt s)(new := 1, ?pa := kcnt s ?pa - 1)"
    "\<forall>vb < MAXVA. vmap s4 w vb = (if PGROUNDDOWN vb = PGROUNDDOWN va then PTE_NEW new else vmap s w vb)"
    "\<forall>k. unat k < 4096 \<longrightarrow> pm s4 (new + k) = pm s (?pa + k)"
    "\<forall>a. PGROUNDDOWN a \<notin> tables s w \<and> PGROUNDDOWN a \<noteq> new
            \<and> (PGROUNDDOWN a \<noteq> ?pa \<or> 1 < kcnt s ?pa) \<longrightarrow> pm s4 a = pm s a"
    "pt_wf s4 w" "tables s4 w = tables s w" "kpages s4 = kpages s"
    using P(2) by blast
  have run: "store_fault w va s = Ok (False, s4)"
    using sint_below_MAXVA [OF vm] va(2) t(2-4) e al new S(1) P(1)
    by (simp add: store_fault_def Let_def fault_va_small [OF va(1)] ld_st_same st_st flip: s2_def)
       (simp add: PTE_NEW_def)
  have tx: "p \<noteq> new \<and> p \<noteq> ?pa \<and> p \<notin> tables s w" if "p \<in> tables s x" for p
    using tables_used [OF wf(2) that] S(3) pa(3) dis that by auto
  have "\<forall>p \<in> tables s x. kcnt s4 p = kcnt s p" "\<forall>a. PGROUNDDOWN a \<in> tables s x \<longrightarrow> pm s4 a = pm s a"
    using tx S(4,7) by auto
  note X = pt_wf_frame [OF wf(2) pt_wfD(1) [OF S(8)] S(10) this]
  show ?thesis using run S(2-9) pa(3) X(1-3) by (intro exI [of _ new] exI [of _ s4]) simp
qed

lemma ubyte_ustore:
  assumes "pt_wf s r" "PGROUNDDOWN (uaddr s w va) \<notin> tables s r"
  shows "ubyte (ustore w va b s) r vb = (if uaddr s r vb = uaddr s w va then b else ubyte s r vb)"
proof -
  have "vmap (ustore w va b s) r vb = vmap s r vb"
    by (rule vmap_frame(2) [OF assms(1)]) (use assms(2) in \<open>auto simp: ustore_def\<close>)
  then show ?thesis by (simp add: ubyte_def uaddr_def) (simp add: ustore_def uaddr_def)
qed

text \<open>What a process with at most \<open>n\<close> pages sees after \<open>uvmcopy\<close>, as parent or as child.\<close>

lemma cow_view:
  assumes C: "cow_upto s s1 old new n n" and R: "fork_ready s old new n" and x: "x = old \<or> x = new"
    and vb: "unat vb div 4096 < n"
  shows "pt_wf s1 x" "vb < MAXVA" "PTE2PA (vmap s1 x vb) = upa s old (unat vb div 4096)"
    "has (vmap s1 x vb) PTE_V" "has (vmap s1 x vb) PTE_COW" "\<not> has (vmap s1 x vb) PTE_W"
    "has (vmap s1 x vb) PTE_U \<longleftrightarrow> has (vmap s old vb) PTE_U"
    "upa s old (unat vb div 4096) \<in> kpages s1" "upa s old (unat vb div 4096) \<notin> tables s1 old"
    "upa s old (unat vb div 4096) \<notin> tables s1 new" "1 < kcnt s1 (upa s old (unat vb div 4096))"
    "ubyte s1 x vb = ubyte s old vb"
proof -
  let ?j = "unat vb div 4096" and ?e = "vmap s old vb"
  have nN: "n \<le> NPG" using R by (simp add: fork_ready_def)
  show vm: "vb < MAXVA" using vb nN by (simp add: word_less_nat_alt MAXVA_eq(2) NPG_def)
  have ej: "?e = vmap s old (pgn ?j)" by (rule vmap_pgn [OF vm])
  then have upaj: "upa s old ?j = PTE2PA ?e" by (simp add: upa_def)
  have F: "has ?e PTE_V" "upa s old ?j \<in> kpages s" "upa s old ?j \<notin> tables s old" "upa s old ?j \<notin> tables s new"
    "0 < kcnt s (upa s old ?j)" using R vb ej by (auto simp: fork_ready_def)
  have D: "pt_wf s1 old" "pt_wf s1 new" "kpages s1 = kpages s" "tables s1 old = tables s old"
    "\<forall>p \<in> tables s1 new - tables s new. p \<in> kpages s \<and> kcnt s p = 0"
    "\<forall>p. kcnt s1 p = (if p \<in> tables s1 new - tables s new then 1 else kcnt s p) + mapcnt s old 0 n p"
    "\<forall>a. 0 < kcnt s (PGROUNDDOWN a) \<and> PGROUNDDOWN a \<notin> tables s old \<union> tables s new \<longrightarrow> pm s1 a = pm s a"
    "vmap s1 old vb = cowpte ?e" "vmap s1 new vb = childpte ?e"
    using C vm vb unfolding cow_upto_def by auto
  show "pt_wf s1 x" using x D by auto
  show q: "PTE2PA (vmap s1 x vb) = upa s old ?j"
    using x D(8,9) PTE2PA_childpte F(2) upaj by (auto simp: PTE2PA_cowpte)
  have cf: "bit (childpte e) n = (bit (cowpte e) n \<or> n = 0)" if "n < 10" for e n
    using arg_cong [OF PTE_FLAGS_childpte [of e], of "\<lambda>w. bit w n"] that
    by (simp add: bit_PTE_FLAGS bit_or_iff bit_PTE)
  have cb: "bit (cowpte ?e) 0" "bit (cowpte ?e) 8" "\<not> bit (cowpte ?e) 2" "bit (cowpte ?e) 4 = bit ?e 4"
    using F(1) unfolding has_bit cowpte_def by (auto simp: bit_simps bit_PTE)
  show "has (vmap s1 x vb) PTE_V" "has (vmap s1 x vb) PTE_COW" "\<not> has (vmap s1 x vb) PTE_W"
    "has (vmap s1 x vb) PTE_U \<longleftrightarrow> has (vmap s old vb) PTE_U"
    using x D(8,9) cb cf unfolding has_bit by auto
  show "upa s old ?j \<in> kpages s1" "upa s old ?j \<notin> tables s1 old" using F D by auto
  show nn: "upa s old ?j \<notin> tables s1 new" using F D(5) by auto
  show "1 < kcnt s1 (upa s old ?j)" using D(6) nn F(5) mapcnt_pos [of 0 ?j n s old] vb by auto
  have "PGROUNDDOWN (upa s old ?j + (vb - PGROUNDDOWN vb)) = upa s old ?j"
    by (rule offset_page [OF kpages_aligned [OF F(2)]])
  then show "ubyte s1 x vb = ubyte s old vb"
    using D(7) F q by (simp add: ubyte_def uaddr_def upaj)
qed

lemma uvmcopy_cow:
  assumes "fork_ready s old new n" "unat sz \<le> 4096 * NPG" "n = (unat sz + 4095) div 4096"
  shows "\<exists>r s'. uvmcopy old new sz s = Ok (r, s') \<and> growth (2 * n) new s s'
      \<and> (r = 0 \<and> cow_upto s s' old new n n
        \<or> r = -1 \<and> cow_failed s s' old new n \<and> (\<forall>p \<in> kpages s. 0 < kcnt s' p))"
proof -
  have c: "cow_upto s s old new 0 0" using assms(1) by (auto simp: cow_upto_def fork_ready_def)
  have z: "pgn 0 = 0" by (simp add: pgn_def)
  show ?thesis using uvmcopy_loop_cow [OF assms c] by (simp add: uvmcopy_def z growth_refl)
qed

text \<open>The pages nobody refers to; a copy takes at most two of them per page, for page tables.\<close>

definition free_pages :: "'a st \<Rightarrow> u64 set" where
  "free_pages s = {p \<in> kpages s. kcnt s p = 0}"

lemma card_free_growth:
  assumes g: "growth d new s s'" and "kpages s' = kpages s"
    and c: "\<And>p. p \<notin> tables s' new - tables s new \<Longrightarrow> kcnt s p = 0 \<Longrightarrow> kcnt s' p = 0"
  shows "card (free_pages s) \<le> card (free_pages s') + d"
proof -
  obtain ps where ps: "length ps \<le> d" "tables s' new \<subseteq> tables s new \<union> set ps" using g by (auto simp: growth_def)
  have "free_pages s \<subseteq> free_pages s' \<union> set ps" using c ps(2) assms(2) by (auto simp: free_pages_def)
  then have "card (free_pages s) \<le> card (free_pages s' \<union> set ps)" by (intro card_mono) auto
  also have "\<dots> \<le> card (free_pages s') + card (set ps)" by (rule card_Un_le)
  also have "\<dots> \<le> card (free_pages s') + d" using ps(1) card_length [of ps] by linarith
  finally show ?thesis .
qed

section \<open>A small address space\<close>

text \<open>
  Eight pages: a root with its two tables and one writable user page, an empty root, and three
  free pages.
\<close>

definition demo_mem :: "u64 \<Rightarrow> mem" where
  "demo_mem f = store64 (store64 (store64 (store64 (store64 (\<lambda>_. 0)
     (0x87FF9000 + 8 * of_nat 0) (PA2PTE 0x87FFA000 OR PTE_V))
     (0x87FFA000 + 8 * of_nat 0) (PA2PTE 0x87FFB000 OR PTE_V))
     (0x87FFB000 + 8 * of_nat 0) (PA2PTE 0x87FFC000 OR PTE_V OR PTE_R OR PTE_U OR f))
     (0x87FFE000 + 8 * of_nat 0) 0x87FFF000)
     (0x87FFF000 + 8 * of_nat 0) 0x87FF8000"

definition demo :: "u64 \<Rightarrow> kst" where
  "demo f = \<lparr>pm = (demo_mem f), freelist = 0x87FFE000,
     refs = (\<lambda>i. if 0x87FF9 \<le> i \<and> i < 0x87FFE then 1 else 0), kend = 0x87FF8000\<rparr>"

lemma demo_pages: "kpages (demo f) = {0x87FF8000, 0x87FF9000, 0x87FFA000, 0x87FFB000, 0x87FFC000, 0x87FFD000, 0x87FFE000, 0x87FFF000}"
    (is "_ = ?S")
proof -
  have "p \<in> ?S" if p: "page_ok (demo f) p" for p
  proof -
    obtain j where j: "unat p = 4096 * j" using page_ok_multiple [OF p] by blast
    have "2281668608 \<le> 4096 * j" "4096 * j < 2281701376"
      using p by (simp_all add: page_ok_def demo_def word_le_nat_alt word_less_nat_alt PHYSTOP_nat j)
    then have "j \<in> {557048, 557049, 557050, 557051, 557052, 557053, 557054, 557055}" by auto
    then show ?thesis by (auto simp: j word_unat_eq_iff)
  qed
  moreover have "page_ok (demo f) p" if "p \<in> ?S" for p
    using that by (auto simp: page_ok_def demo_def pg_aligned_def PGSIZE_def PHYSTOP_def KERNBASE_def)
  ultimately show ?thesis unfolding kpages_def by blast
qed

lemma demo_cnt: "kcnt (demo f) p = (if p \<in> {0x87FF9000, 0x87FFA000, 0x87FFB000, 0x87FFC000, 0x87FFD000} then 1 else 0)"
proof (cases "p \<in> kpages (demo f)")
  case True
  have r: "refs (demo f) = (\<lambda>i. if 0x87FF9 \<le> i \<and> i < 0x87FFE then 1 else 0)" by (simp add: demo_def)
  have "page_ok (demo f) p" using True by (simp add: kpages_def)
  then have k: "kcnt (demo f) p = (if 0x87FF9 \<le> pgidx p \<and> pgidx p < 0x87FFE then 1 else 0)"
    by (simp add: kcnt_def r)
  from True have "p = 0x87FF8000 \<or> p = 0x87FF9000 \<or> p = 0x87FFA000 \<or> p = 0x87FFB000 \<or> p = 0x87FFC000 \<or> p = 0x87FFD000
    \<or> p = 0x87FFE000 \<or> p = 0x87FFF000" by (simp add: demo_pages)
  then show ?thesis unfolding k by (elim disjE) (simp_all add: pgidx_def)
next
  case False
  then show ?thesis using demo_pages by (auto simp: kcnt_def kpages_def)
qed

lemma load64_zero_mem: "load64 (\<lambda>_. 0) a = 0"
  by (rule bit_word_eqI) (simp add: bit_load64)

lemma demo_aligned:
  "pg_aligned 0x87FF9000" "pg_aligned 0x87FFA000" "pg_aligned 0x87FFB000" "pg_aligned 0x87FFC000"
  "pg_aligned 0x87FFD000" "pg_aligned 0x87FFE000" "pg_aligned 0x87FFF000" "pg_aligned 0x87FF8000"
  by (simp_all add: pg_aligned_def PGSIZE_def)

lemma demo_load:
  assumes "pg_aligned u" "j < 512"
  shows "load64 (demo_mem f) (u + 8 * of_nat j) =
     (if j \<noteq> 0 then 0
      else if u = 0x87FF9000 then PA2PTE 0x87FFA000 OR PTE_V
      else if u = 0x87FFA000 then PA2PTE 0x87FFB000 OR PTE_V
      else if u = 0x87FFB000 then PA2PTE 0x87FFC000 OR PTE_V OR PTE_R OR PTE_U OR f
      else if u = 0x87FFE000 then 0x87FFF000 else if u = 0x87FFF000 then 0x87FF8000 else 0)"
  unfolding demo_mem_def
  by (subst load64_store64_slot [OF _ assms(1) _ assms(2)]; (simp add: demo_aligned; fail)?)+
     (simp add: load64_zero_mem)

lemma demo_kinv: "kinv (demo f)"
proof -
  have l: "load64 (demo_mem f) 0x87FFE000 = 0x87FFF000" "load64 (demo_mem f) 0x87FFF000 = 0x87FF8000" "load64 (demo_mem f) 0x87FF8000 = 0"
    using demo_load [OF demo_aligned(6), of 0] demo_load [OF demo_aligned(7), of 0] demo_load [OF demo_aligned(8), of 0]
    by simp_all
  have ch: "chain (pm (demo f)) (freelist (demo f)) [0x87FFE000, 0x87FFF000, 0x87FF8000]"
    by (simp add: demo_def l)
  have "0 \<le> sint (refs (demo f) i)" for i by (simp add: demo_def)
  moreover have "refs (demo f) (pgidx p) = 0 \<longleftrightarrow> p \<in> set [0x87FFE000, 0x87FFF000, 0x87FF8000]" if "p \<in> kpages (demo f)" for p
  proof -
    have "refs (demo f) (pgidx p) = 0 \<longleftrightarrow> kcnt (demo f) p = 0"
      using that by (simp add: kcnt_def kpages_def) (simp add: demo_def)
    then show ?thesis using that unfolding demo_pages by (auto simp: demo_cnt)
  qed
  moreover have "set [0x87FFE000, 0x87FFF000, 0x87FF8000] \<subseteq> kpages (demo f)" by (simp add: demo_pages)
  moreover have "0 < kend (demo f)" by (simp add: demo_def)
  ultimately have "kmem_inv (kpages (demo f)) (demo f) [0x87FFE000, 0x87FFF000, 0x87FF8000]"
    using ch by (auto simp: kmem_inv_def kpages_def)
  then show ?thesis by (auto simp: kinv_def)
qed

lemma demo_pte: "PTE2PA (PA2PTE 0x87FFA000 OR PTE_V) = 0x87FFA000" "PTE2PA (PA2PTE 0x87FFB000 OR PTE_V) = 0x87FFB000"
  "drop_bit 10 f = 0 \<Longrightarrow> PTE2PA (PA2PTE 0x87FFC000 OR PTE_V OR PTE_R OR PTE_U OR f) = 0x87FFC000"
  by (rule PTE2PA_page [of _ "demo f"]; simp add: demo_pages drop_bit_or)+

lemma path_cases:
  assumes "path q" obtains "q = []" | i where "q = [i]" "i < 512" | i j where "q = [i, j]" "i < 512" "j < 512"
proof (cases q)
  case Nil then show ?thesis using that(1) by simp
next
  case (Cons i r)
  show ?thesis
  proof (cases r)
    case Nil then show ?thesis using that(2) assms Cons by (simp add: path_def)
  next
    case (Cons j r')
    then have "r' = []" "i < 512" "j < 512" using assms \<open>q = i # r\<close> by (auto simp: path_def)
    then show ?thesis using that(3) Cons \<open>q = i # r\<close> by simp
  qed
qed

lemma demo_first:
  "load64 (demo_mem f) 0x87FF9000 = PA2PTE 0x87FFA000 OR PTE_V" "load64 (demo_mem f) 0x87FFA000 = PA2PTE 0x87FFB000 OR PTE_V"
  "load64 (demo_mem f) 0x87FFB000 = PA2PTE 0x87FFC000 OR PTE_V OR PTE_R OR PTE_U OR f" "load64 (demo_mem f) 0x87FFD000 = 0"
  using demo_load [OF demo_aligned(1), of 0] demo_load [OF demo_aligned(2), of 0]
    demo_load [OF demo_aligned(3), of 0] demo_load [OF demo_aligned(5), of 0] by simp_all

lemma demo_rest:
  assumes "0 < i" "i < 512"
  shows "load64 (demo_mem f) (0x87FF9000 + 8 * of_nat i) = 0" "load64 (demo_mem f) (0x87FFA000 + 8 * of_nat i) = 0"
    "load64 (demo_mem f) (0x87FFD000 + 8 * of_nat i) = 0"
  using demo_load [OF demo_aligned(1) assms(2)] demo_load [OF demo_aligned(2) assms(2)]
    demo_load [OF demo_aligned(5) assms(2)] assms(1) by simp_all

lemma demo_tbl1:
  assumes "i < 512"
  shows "tbl (demo_mem f) 0x87FF9000 (i # q) = (if i = 0 then tbl (demo_mem f) 0x87FFA000 q else None)"
    "tbl (demo_mem f) 0x87FFA000 (i # q) = (if i = 0 then tbl (demo_mem f) 0x87FFB000 q else None)"
    "tbl (demo_mem f) 0x87FFD000 (i # q) = None"
  using assms demo_rest [of i]
  by (cases "i = 0"; simp add: Let_def demo_first demo_pte)+

lemma demo_tbl:
  assumes "path q"
  shows "tbl (demo_mem f) 0x87FF9000 q = (if q = [] then Some 0x87FF9000 else if q = [0] then Some 0x87FFA000
      else if q = [0, 0] then Some 0x87FFB000 else None)"
    and "tbl (demo_mem f) 0x87FFD000 q = (if q = [] then Some 0x87FFD000 else None)"
  using assms
  by (cases rule: path_cases; simp add: demo_tbl1 del: tbl.simps(2))+

lemma demo_wf: "pt_wf (demo f) 0x87FF9000" "pt_wf (demo f) 0x87FFD000"
  using demo_kinv demo_tbl unfolding pt_wf_def
  by (auto simp: demo_def [THEN arg_cong [of _ _ pm]] demo_pages demo_cnt split: if_splits)

lemma demo_tables: "tables (demo f) 0x87FF9000 = {0x87FF9000, 0x87FFA000, 0x87FFB000}" "tables (demo f) 0x87FFD000 = {0x87FFD000}"
proof -
  have p: "path []" "path [0]" "path [0, 0]" by (simp_all add: path_def)
  have pm: "pm (demo f) = (demo_mem f)" by (simp add: demo_def)
  show "tables (demo f) 0x87FF9000 = {0x87FF9000, 0x87FFA000, 0x87FFB000}"
    unfolding tables_def pm using demo_tbl(1) p by (auto split: if_splits) (metis list.distinct(1) not_Cons_self2)+
  show "tables (demo f) 0x87FFD000 = {0x87FFD000}"
    unfolding tables_def pm using demo_tbl(2) p by (auto split: if_splits)
qed

lemma demo_vmap: "vmap (demo f) 0x87FF9000 (pgn 0) = PA2PTE 0x87FFC000 OR PTE_V OR PTE_R OR PTE_U OR f"
  "vmap (demo f) 0x87FFD000 (pgn 0) = 0"
proof -
  have v: "vpath (pgn 0) = [0, 0]" "PX 0 (pgn 0) = 0" by (simp_all add: vpath_def pgn_def PX_def)
  have p: "path [0, 0]" by (simp add: path_def)
  have pm: "pm (demo f) = (demo_mem f)" by (simp add: demo_def)
  show "vmap (demo f) 0x87FF9000 (pgn 0) = PA2PTE 0x87FFC000 OR PTE_V OR PTE_R OR PTE_U OR f"
    "vmap (demo f) 0x87FFD000 (pgn 0) = 0"
    by (simp_all add: vmap_def v ld_def pm demo_tbl [OF p] demo_first del: tbl.simps)
qed

lemma demo_fork_ready: "drop_bit 10 f = 0 \<Longrightarrow> fork_ready (demo f) 0x87FF9000 0x87FFD000 1"
  using demo_wf
  by (simp add: fork_ready_def demo_tables demo_vmap upa_def demo_pte demo_pages demo_cnt NPG_def)

lemma demo_fork_ready_W: "fork_ready (demo PTE_W) 0x87FF9000 0x87FFD000 1"
  by (rule demo_fork_ready) simp

lemma uvmcopy_shares:
  assumes "fork_ready s old new n" "unat sz \<le> 4096 * NPG" "n = (unat sz + 4095) div 4096"
  shows "\<exists>r s'. uvmcopy old new sz s = Ok (r, s') \<and> pt_wf s' old \<and> pt_wf s' new
     \<and> (\<forall>j < n. \<forall>k. unat k < 4096 \<longrightarrow> pm s' (upa s old j + k) = pm s (upa s old j + k))
     \<and> (r = 0 \<and> (\<forall>j < n. upa s' old j = upa s old j \<and> upa s' new j = upa s old j
              \<and> (\<forall>x \<in> {old, new}. has (vmap s' x (pgn j)) PTE_V \<and> has (vmap s' x (pgn j)) PTE_COW
                                   \<and> \<not> has (vmap s' x (pgn j)) PTE_W))
           \<and> (\<forall>p. p \<notin> tables s' new \<longrightarrow> kcnt s' p = kcnt s p + mapcnt s old 0 n p)
       \<or> r = -1 \<and> (\<forall>j < n. \<not> has (vmap s' new (pgn j)) PTE_V)
           \<and> (\<forall>p. p \<notin> tables s' new \<longrightarrow> kcnt s' p = kcnt s p) \<and> card (free_pages s) \<le> 2 * n)"
proof -
  obtain r s' where U: "uvmcopy old new sz s = Ok (r, s')"
    "r = 0 \<and> cow_upto s s' old new n n \<or> r = -1 \<and> cow_failed s s' old new n \<and> (\<forall>p \<in> kpages s. 0 < kcnt s' p)"
    "growth (2 * n) new s s'"
    using uvmcopy_cow [OF assms] by blast
  have P: "upa s old j \<in> kpages s" "0 < kcnt s (upa s old j)" "upa s old j \<notin> tables s old \<union> tables s new" if "j < n" for j
    using assms(1) that by (auto simp: fork_ready_def)
  have "PGROUNDDOWN (upa s old j + k) = upa s old j" if "j < n" "unat k < 4096" for j k
    using page_bytes [OF kpages_aligned [OF P(1)], of j "upa s old j + k"] that by simp
  then have bytes: "pm s' (upa s old j + k) = pm s (upa s old j + k)" if "j < n" "unat k < 4096" for j k
    using U(2) P(2,3) [OF that(1)] that unfolding cow_upto_def cow_failed_def by auto
  show ?thesis
  proof (cases "r = 0")
    case True
    then have C: "cow_upto s s' old new n n" using U(2) by simp
    have "unat (pgn j) div 4096 = j" if "j < n" for j
      using that assms(1) by (simp add: fork_ready_def unat_pgn)
    then have V: "x = old \<or> x = new \<Longrightarrow> upa s' x j = upa s old j \<and> has (vmap s' x (pgn j)) PTE_V
        \<and> has (vmap s' x (pgn j)) PTE_COW \<and> \<not> has (vmap s' x (pgn j)) PTE_W" if "j < n" for x j
      using cow_view [OF C assms(1), of x "pgn j"] that by (simp add: upa_def)
    show ?thesis using U(1) True C bytes V unfolding cow_upto_def
      by (intro exI [of _ 0] exI [of _ s']) auto
  next
    case False
    then have f: "cow_failed s s' old new n" "r = -1" "\<forall>p \<in> kpages s. 0 < kcnt s' p" using U(2) by auto
    have "card (free_pages s) \<le> 2 * n"
    proof -
      obtain ps where ps: "length ps \<le> 2 * n" "tables s' new \<subseteq> tables s new \<union> set ps" using U(3) by (auto simp: growth_def)
      have "kcnt s' p = (if p \<in> tables s' new - tables s new then 1 else kcnt s p)" for p
        using f(1) by (simp add: cow_failed_def)
      then have "free_pages s \<subseteq> set ps" using f(3) ps(2) by (force simp: free_pages_def)
      then have "card (free_pages s) \<le> card (set ps)" by (intro card_mono) auto
      then show ?thesis using ps(1) card_length [of ps] by linarith
    qed
    then show ?thesis using U(1) bytes f unfolding cow_failed_def
      by (intro exI [of _ "-1"] exI [of _ s']) auto
  qed
qed

lemma fork_counts:
  assumes "cow_upto s s1 old new n n" "fork_ready s old new n" "p \<notin> tables s1 new - tables s new" "kcnt s p = 0"
  shows "kcnt s1 p = 0"
proof -
  have "mapcnt s old 0 n p = 0" using assms(2,4) by (intro mapcnt_not) (auto simp: fork_ready_def)
  then show ?thesis using assms(1,3,4) by (simp add: cow_upto_def)
qed

lemma fork_room:
  assumes R: "fork_ready s old new n" and sz: "unat sz \<le> 4096 * NPG" "n = (unat sz + 4095) div 4096"
    and U: "uvmcopy old new sz s = Ok (0, s1)" and mem: "2 * n < card (free_pages s)"
  shows "cow_upto s s1 old new n n" "\<exists>q \<in> kpages s1. kcnt s1 q = 0"
proof -
  show C: "cow_upto s s1 old new n n" using uvmcopy_cow [OF R sz] U by auto
  have g: "growth (2 * n) new s s1" using uvmcopy_cow [OF R sz] U by auto
  have "card (free_pages s) \<le> card (free_pages s1) + 2 * n"
    using C by (intro card_free_growth [OF g] fork_counts [OF C R]) (auto simp: cow_upto_def)
  then have "0 < card (free_pages s1)" using mem by simp
  then show "\<exists>q \<in> kpages s1. kcnt s1 q = 0" by (auto simp: free_pages_def card_gt_0_iff)
qed

section \<open>Properties\<close>



text \<open>
  C1: fork isolation.  After a successful \<open>uvmcopy\<close>, when parent or child stores to a user
  page it faults, gets a private copy, and completes the store.  Then it reads back the byte
  it wrote and its old bytes elsewhere, and the other process still sees every byte the
  parent had at the fork.  (The fault address must be nonzero and below 2 GiB,
  and enough pages must be free.)
\<close>

theorem fork_write_isolated:
  assumes R: "fork_ready s old new n" and sz: "unat sz \<le> 4096 * NPG" "n = (unat sz + 4095) div 4096"
    and U: "uvmcopy old new sz s = Ok (0, s1)"
    and wx: "(w = old \<and> x = new) \<or> (w = new \<and> x = old)"
    and va: "unat va div 4096 < n" "va \<noteq> 0" "unat va < 2 ^ 31" "has (vmap s old va) PTE_U"
    and mem: "2 * n < card (free_pages s)"
  shows "\<exists>s2. store_fault w va s1 = Ok (False, s2) \<and> has (vmap s2 w va) PTE_W
     \<and> ubyte (ustore w va b s2) w va = b
     \<and> (\<forall>vb. unat vb div 4096 < n \<longrightarrow> ubyte (ustore w va b s2) x vb = ubyte s old vb)
     \<and> (\<forall>vb. unat vb div 4096 < n \<and> vb \<noteq> va \<longrightarrow> ubyte (ustore w va b s2) w vb = ubyte s old vb)"
proof -
  have C: "cow_upto s s1 old new n n" and avail: "\<exists>q \<in> kpages s1. kcnt s1 q = 0"
    using fork_room [OF R sz U mem] by auto
  have wo: "w = old \<or> w = new" "x = old \<or> x = new" using wx by auto
  note W = cow_view [OF C R wo(1)] and X = cow_view [OF C R wo(2)]
  have dis: "tables s1 w \<inter> tables s1 x = {}" using C wx unfolding cow_upto_def by auto
  let ?P = "\<lambda>vb. upa s old (unat vb div 4096)"
  have nw: "?P vb \<notin> tables s1 w" if "unat vb div 4096 < n" for vb :: u64 using W(9,10) [OF that] wo by auto
  obtain new' s2 where S: "store_fault w va s1 = Ok (False, s2)" "new' \<in> kpages s1" "kcnt s1 new' = 0"
    "\<forall>vb. vmap s2 x vb = vmap s1 x vb"
    "\<forall>vb < MAXVA. vmap s2 w vb = (if PGROUNDDOWN vb = PGROUNDDOWN va then PTE_NEW new' else vmap s1 w vb)"
    "\<forall>k. unat k < 4096 \<longrightarrow> pm s2 (new' + k) = pm s1 (PTE2PA (vmap s1 w va) + k)"
    "\<forall>a. PGROUNDDOWN a \<notin> tables s1 w \<and> PGROUNDDOWN a \<noteq> new' \<longrightarrow> pm s2 a = pm s1 a"
    "pt_wf s2 w" "pt_wf s2 x" "tables s2 w = tables s1 w" "tables s2 x = tables s1 x"
    using store_fault_shared [OF W(1) [OF va(1)] X(1) [OF va(1)] dis va(3,2) W(4) [OF va(1)] _ W(5,6) [OF va(1)] _ _ _ avail]
      W(3,7,8,11) [OF va(1)] nw [OF va(1)] va(4) by auto
  have na: "pg_aligned new'" using S(2) by (rule kpages_aligned)
  have vw: "vmap s2 w va = PTE_NEW new'" using S(5) W(2) [OF va(1)] by simp
  have addr: "uaddr s2 w vb = new' + (vb - PGROUNDDOWN vb)" if "PGROUNDDOWN vb = PGROUNDDOWN va" for vb
  proof -
    have "vmap s2 w vb = PTE_NEW new'" using that vw vmap_PGROUNDDOWN [of s2 w] by metis
    then show ?thesis by (simp add: uaddr_def PTE_NEW_page [OF S(2)])
  qed
  have pn: "PGROUNDDOWN (new' + (vb - PGROUNDDOWN vb)) = new'" for vb by (rule offset_page [OF na])
  have nt: "new' \<notin> tables s1 w" "new' \<notin> tables s1 x"
    using tables_used [OF W(1) [OF va(1)]] tables_used [OF X(1) [OF va(1)]] S(3) by fastforce+
  have store: "ubyte (ustore w va b s2) r vb = (if uaddr s2 r vb = uaddr s2 w va then b else ubyte s2 r vb)"
    if "r = w \<or> r = x" for r vb
  proof (rule ubyte_ustore)
    show "pt_wf s2 r" "PGROUNDDOWN (uaddr s2 w va) \<notin> tables s2 r"
      using that S(8-11) nt pn by (auto simp: addr)
  qed
  have shared: "uaddr s2 r vb \<noteq> uaddr s2 w va \<and> ubyte s2 r vb = ubyte s old vb"
    if "unat vb div 4096 < n" "vmap s2 r vb = vmap s1 r vb" "r = old \<or> r = new" for r vb
  proof -
    note V = cow_view [OF C R that(3,1)]
    have pa: "PGROUNDDOWN (uaddr s2 r vb) = ?P vb" "uaddr s2 r vb = uaddr s1 r vb"
      using offset_page [OF kpages_aligned [OF V(8)]] V(3) that(2) by (simp_all add: uaddr_def)
    have pq: "?P vb \<noteq> new'" using V(11) S(3) by auto
    then show ?thesis using pa pn nw [OF that(1)] S(7) V(12) by (auto simp: ubyte_def addr)
  qed
  have own: "ubyte s2 w vb = ubyte s old vb" if "PGROUNDDOWN vb = PGROUNDDOWN va" for vb
  proof -
    have e: "vmap s1 w vb = vmap s1 w va" using that vmap_PGROUNDDOWN [of s1 w vb] vmap_PGROUNDDOWN [of s1 w va] by simp
    have "unat vb div 4096 = unat va div 4096" using arg_cong [OF that, of unat] by (simp add: unat_PGROUNDDOWN)
    then have "ubyte s1 w vb = ubyte s old vb" using W(12) [of vb] va(1) by simp
    then show ?thesis using addr [OF that] S(6) e by (simp add: ubyte_def uaddr_def unat_page_offset)
  qed
  have "ubyte (ustore w va b s2) w vb = ubyte s old vb" if "unat vb div 4096 < n" "vb \<noteq> va" for vb
  proof (cases "PGROUNDDOWN vb = PGROUNDDOWN va")
    case True
    then show ?thesis using that(2) own [OF True] store [of w vb] addr [OF True] addr [of va] by simp
  next
    case False
    then show ?thesis using shared [OF that(1) _ wo(1)] S(5) W(2) [OF that(1)] store [of w vb] by simp
  qed
  moreover have "ubyte (ustore w va b s2) x vb = ubyte s old vb" if "unat vb div 4096 < n" for vb
    using shared [OF that _ wo(2)] S(4) store [of x vb] by simp
  ultimately show ?thesis using S(1) store [of w va] vw PTE_NEW_flags(2) by (intro exI [of _ s2]) simp
qed

lemma demo_free: "free_pages (demo f) = {0x87FF8000, 0x87FFE000, 0x87FFF000}"
  unfolding free_pages_def demo_pages by (auto simp: demo_cnt)

theorem fork_write_isolated_witness:
  "\<exists>s1 s2. uvmcopy 0x87FF9000 0x87FFD000 4096 (demo PTE_W) = Ok (0, s1) \<and> store_fault 0x87FFD000 0x10 s1 = Ok (False, s2)
     \<and> ubyte (ustore 0x87FFD000 0x10 0xAB s2) 0x87FFD000 0x10 = 0xAB
     \<and> ubyte (ustore 0x87FFD000 0x10 0xAB s2) 0x87FF9000 0x10 = ubyte (demo PTE_W) 0x87FF9000 0x10"
proof -
  have free: "card (free_pages (demo PTE_W)) = 3" by (simp add: demo_free)
  obtain r s1 where U: "uvmcopy 0x87FF9000 0x87FFD000 4096 (demo PTE_W) = Ok (r, s1)" "r = 0"
    using uvmcopy_cow [OF demo_fork_ready_W, of 4096] uvmcopy_shares [OF demo_fork_ready_W, of 4096] free by (auto simp: NPG_def)
  have "vmap (demo PTE_W) 0x87FF9000 0x10 = vmap (demo PTE_W) 0x87FF9000 (pgn 0)"
    using vmap_pgn [of "0x10" "demo PTE_W" "0x87FF9000"] by (simp add: MAXVA_eq(2))
  then have u: "has (vmap (demo PTE_W) 0x87FF9000 0x10) PTE_U" by (simp add: demo_vmap)
  show ?thesis
    using fork_write_isolated [OF demo_fork_ready_W _ _ U(1) [unfolded U(2)], of "0x87FFD000" "0x87FF9000" "0x10" "0xAB"] U u free
    by (auto simp: NPG_def)
qed

text \<open>
  C11: the fault address is kept in an \<open>int\<close>.  A user store to any unmapped or protected address
  whose bit 31 is set, for instance 0x80000000, passes the two checks of the handler and
  makes \<open>walk\<close> panic: the process brings the kernel down instead of being killed.
\<close>

theorem store_fault_bit31_panics:
  assumes "bit stval 31"
  shows "store_fault pagetable stval s = Panic ''walk''"
proof -
  have "sint (fault_va stval) < sint MAXVA" using fault_va_negative(2) [OF assms] by (simp add: sint_MAXVA)
  moreover have "fault_va stval \<noteq> 0" using fault_va_negative(2) [OF assms] by auto
  ultimately show ?thesis
    using fault_va_negative(1) [OF assms] by (simp add: store_fault_def Let_def walk_def)
qed

theorem store_fault_bit31_panics_witness:
  "(0x80000000 :: u64) < MAXVA \<and> store_fault 0x87FF9000 0x80000000 (demo PTE_W) = Panic ''walk''"
proof -
  have "bit (0x80000000 :: u64) 31" by (simp add: bit_numeral_word_iff)
  from store_fault_bit31_panics [OF this] show ?thesis by (simp add: MAXVA_eq(2))
qed

text \<open>
  C12: \<open>uvmcopy\<close> marks read-only pages copy-on-write as well.  A page the parent could not write
  (its text, say) becomes writable after a fork: the store that was fatal before now gives
  the writer a private writable copy.
\<close>

theorem readonly_page_writable_after_fork:
  assumes R: "fork_ready s old new n" and sz: "unat sz \<le> 4096 * NPG" "n = (unat sz + 4095) div 4096"
    and U: "uvmcopy old new sz s = Ok (0, s1)" and mem: "2 * n < card (free_pages s)"
    and va: "unat va div 4096 < n" "va \<noteq> 0" "unat va < 2 ^ 31" "has (vmap s old va) PTE_U"
    and ro: "\<not> has (vmap s old va) PTE_W" "\<not> has (vmap s old va) PTE_COW"
  shows "store_fault old va s = Ok (True, s) \<and>
    (\<exists>s2. store_fault old va s1 = Ok (False, s2) \<and> has (vmap s2 old va) PTE_W)"
proof -
  note W = cow_view [OF fork_room(1) [OF R sz U mem] R disjI1 [OF refl] va(1)]
  note X = cow_view [OF fork_room(1) [OF R sz U mem] R disjI2 [OF refl] va(1)]
  have wf: "pt_wf s old" using R by (auto simp: fork_ready_def)
  obtain t where t: "walk old va False s = Ok (t + 8 * PX 0 va, s)" "t + 8 * PX 0 va \<noteq> 0"
    "ld s (t + 8 * PX 0 va) = vmap s old va" using walk_mapped [OF wf W(2) va(4)] by blast
  have "store_fault old va s = Ok (True, s)"
    using sint_below_MAXVA [OF W(2)] va(2) t ro
    by (simp add: store_fault_def Let_def fault_va_small [OF va(3)])
  moreover have dis: "tables s1 old \<inter> tables s1 new = {}"
    using fork_room(1) [OF R sz U mem] unfolding cow_upto_def by auto
  obtain new' s2 where "store_fault old va s1 = Ok (False, s2)"
    "\<forall>vb < MAXVA. vmap s2 old vb = (if PGROUNDDOWN vb = PGROUNDDOWN va then PTE_NEW new' else vmap s1 old vb)"
    using store_fault_shared [OF W(1) X(1) dis va(3,2) W(4) _ W(5,6) _ _ _ fork_room(2) [OF R sz U mem]]
      W(3,7,8,9,11) va(4) by auto
  ultimately show ?thesis using W(2) PTE_NEW_flags(2) [of new'] by auto
qed

theorem readonly_page_writable_after_fork_witness:
  "store_fault 0x87FF9000 0x10 (demo 0) = Ok (True, demo 0) \<and>
   (\<exists>s1 s2. uvmcopy 0x87FF9000 0x87FFD000 4096 (demo 0) = Ok (0, s1)
      \<and> store_fault 0x87FF9000 0x10 s1 = Ok (False, s2) \<and> has (vmap s2 0x87FF9000 0x10) PTE_W)"
proof -
  have free: "card (free_pages (demo 0)) = 3" by (simp add: demo_free)
  have R: "fork_ready (demo 0) 0x87FF9000 0x87FFD000 1" by (rule demo_fork_ready) simp
  obtain s1 where U: "uvmcopy 0x87FF9000 0x87FFD000 4096 (demo 0) = Ok (0, s1)"
    using uvmcopy_shares [OF R, of 4096] free by (auto simp: NPG_def)
  have v: "vmap (demo 0) 0x87FF9000 0x10 = PA2PTE 0x87FFC000 OR PTE_V OR PTE_R OR PTE_U"
    using vmap_pgn [of "0x10" "demo 0" "0x87FF9000"] by (simp add: MAXVA_eq(2) demo_vmap)
  have "\<not> has (PA2PTE 0x87FFC000) PTE_W" "\<not> has (PA2PTE 0x87FFC000) PTE_COW" "\<not> has PTE_V PTE_W" "\<not> has PTE_V PTE_COW"
    "\<not> has PTE_R PTE_W" "\<not> has PTE_R PTE_COW" "\<not> has PTE_U PTE_W" "\<not> has PTE_U PTE_COW"
    unfolding has_bit bit_PTE PA2PTE_def by (simp_all add: bit_push_bit_iff)
  then show ?thesis
    using readonly_page_writable_after_fork [OF R _ _ U, of "0x10"] U free v by (auto simp: NPG_def)
qed

end
