(* ===== verification/Trap.thy ===== *)
theory Trap
  imports Sysfile Cow Sched
begin

text \<open>
  System-call dispatch, \<^verbatim>\<open>kernel/syscall.c\<close>, and traps, \<^verbatim>\<open>kernel/trap.c\<close>.  The control registers
  of the machine that the handlers read and write are a record of their own.
\<close>

section \<open>Dispatch\<close>

definition syscalls :: "nat \<Rightarrow> ('a fs \<Rightarrow> (sysret \<times> 'a fs) res) option" where
  "syscalls num = (if 1 \<le> num \<and> num \<le> 27 then Some
     ([sys_fork, sys_exit, sys_wait, sys_pipe, sys_read, sys_kill, sys_exec, sys_fstat, sys_chdir, sys_dup,
       sys_getpid, sys_sbrk, sys_sleep, sys_uptime, sys_open, sys_write, sys_mknod, sys_unlink, sys_link, sys_mkdir,
       sys_close, sys_trace, sys_settickets, sys_set_priority, sys_sigalarm, sys_sigreturn, sys_waitx] ! (num - 1))
     else None)"

definition syscallnames :: "string list" where
  "syscallnames = [''fork'', ''exit'', ''wait'', ''pipe'', ''read'', ''kill'', ''exec'', ''fstat'', ''chdir'', ''dup'',
     ''getpid'', ''sbrk'', ''sleep'', ''uptime'', ''open'', ''write'', ''mknod'', ''unlink'', ''link'', ''mkdir'',
     ''close'', ''trace'', ''settickets'', ''setpriority'', ''sigalarm'', ''sigreturn'', ''waitx'']"

definition totalArgs :: "nat list" where
  "totalArgs = [0, 1, 1, 0, 3, 2, 2, 1, 1, 1, 0, 1, 1, 0, 2, 3, 3, 1, 2, 1, 1, 1, 1, 2, 2, 0, 3]"

primrec trace_args :: "u32 list \<Rightarrow> 'a fs \<Rightarrow> 'a fs" where
  "trace_args [] s = s"
| "trace_args (a # as) s =
     (let s = kprintf (chars ''%d'') [PInt a] s
      in trace_args as (if as \<noteq> [] then kprintf (chars '' '') [] s else s))"

text \<open>
  The saved arguments are read before the call and printed after it when the process traces this
  call.  Before the number is checked the code reads \<open>totalArgs\<close> at \<open>num - 1\<close>; where that is out of
  range the values read are not used.
\<close>

definition syscall :: "'a fs \<Rightarrow> (sysret \<times> 'a fs) res" where
  "syscall s =
     (let me = cur s; num = ucast (ld s (mytf s + 168)) :: u32
      in if 1 \<le> sint num \<and> sint num < 28
         then let k = nat (sint num); args = map (\<lambda>i. ucast (ld s (mytf s + TF_A0 + 8 * of_nat i))) [0..<totalArgs ! (k - 1)]
              in case syscalls k of None \<Rightarrow> null_deref
                 | Some f \<Rightarrow> bind_res (f s) (\<lambda>(r, s). case r of
                     Ret v \<Rightarrow>
                       let s = st (trapframe (procs s me) + TF_A0) v s
                       in Ok (r, if push_bit k 1 AND tracemask (procs s me) \<noteq> 0
                                 then let s = kprintf (chars ''%d: syscall %s ('')
                                                [PInt (pid (procs s me)), PStr (Some (chars (syscallnames ! (k - 1))))] s
                                      in kprintf (chars '') -> %d'' @ [10]) [PInt (ucast v)] (trace_args args s)
                                 else s)
                   | _ \<Rightarrow> Ok (r, s))
         else let s = kprintf (chars ''%d %s: unknown sys call %d'' @ [10])
                        [PInt (pid (procs s me)), PStr (Some (name (procs s me))), PInt num] s
              in Ok (Ret (-1), st (mytf s + TF_A0) (-1) s))"

section \<open>Traps\<close>

text \<open>
  The registers: \<open>sstatus\<close>, \<open>sepc\<close>, \<open>scause\<close>, \<open>stval\<close>, \<open>stvec\<close>, \<open>satp\<close>, \<open>tp\<close>, the pending bits
  \<open>sip\<close>, and the interrupt that the platform interrupt controller would claim next.
\<close>

record regs =
  sstatus :: u64
  sepc :: u64
  scause :: u64
  stval :: u64
  stvec :: u64
  satp :: u64
  tp :: u64
  sip :: u64
  plic_irq :: u32

definition SSTATUS_SPP :: u64 where "SSTATUS_SPP = push_bit 8 1"
definition SSTATUS_SPIE :: u64 where "SSTATUS_SPIE = push_bit 5 1"
definition SSTATUS_SIE :: u64 where "SSTATUS_SIE = push_bit 1 1"

definition clockintr :: "'a fs \<Rightarrow> 'a fs" where
  "clockintr s = wake_chan TicksChan (update_time (s\<lparr>ticks := ticks s + 1\<rparr>))"

text \<open>\<open>disk_intr\<close> is the disk's interrupt handler.  The result is the device code and the new state.\<close>

definition devintr :: "policy \<Rightarrow> ('a fs \<Rightarrow> 'a fs res) \<Rightarrow> regs \<Rightarrow> 'a fs \<Rightarrow> (nat \<times> regs \<times> 'a fs) res" where
  "devintr pol disk_intr r s =
     (if scause r AND 0x8000000000000000 \<noteq> 0 \<and> scause r AND 0xff = 9
      then let irq = plic_irq r
           in bind_res (if irq = 10 then Ok (uartintr pol s)
                        else if irq = 1 then disk_intr s
                        else if irq \<noteq> 0 then Ok (kprintf (chars ''unexpected interrupt irq=%d'' @ [10]) [PInt irq] s)
                        else Ok s) (\<lambda>s. Ok (1, r\<lparr>plic_irq := 0\<rparr>, s))
      else if scause r = 0x8000000000000001
      then let s = (if tp r = 0 then clockintr s else s)
           in Ok (2, r\<lparr>sip := sip r AND NOT 2\<rparr>, s)
      else Ok (0, r, s))"

text \<open>The alarm: save the trap frame and enter the handler.\<close>

definition alarm_due :: "proc \<Rightarrow> bool" where
  "alarm_due x \<longleftrightarrow> alarmFreq x \<noteq> 0 \<and> alarmRunning x = 0 \<and> sint (timeRun x - lastAlarm x) \<ge> sint (alarmFreq x)"

definition alarm :: "nat \<Rightarrow> 'a fs \<Rightarrow> 'a fs res" where
  "alarm me s =
     (if alarm_due (procs s me)
      then bind_res (kalloc (pupd me (alarmRunning_update (\<lambda>_. 1)) s)) (\<lambda>(b, s).
           if b = 0 then null_deref
           else let s = pupd me (backupTrapFrame_update (\<lambda>_. b)) s;
               s = s\<lparr>pm := memmove (pm s) b (trapframe (procs s me)) TF_SIZE\<rparr>;
               s = pupd me (\<lambda>x. x\<lparr>lastAlarm := timeRun x\<rparr>) s
           in Ok (st (trapframe (procs s me) + TF_EPC) (alarmHandler (procs s me)) s))
      else Ok s)"

text \<open>How a trap from user space ends: back in user space, dead, asleep, or off the CPU after a yield.\<close>

datatype tret = ToUser | Dead | Asleep | Yielded

definition die :: "'a fs \<Rightarrow> (tret \<times> 'a fs) res" where
  "die s = bind_res (kexit (-1) s) (\<lambda>s. Ok (Dead, s))"

text \<open>The end of \<open>usertrap\<close>, from the second test of \<open>killed\<close> on.\<close>

definition usertrap_end :: "policy \<Rightarrow> nat \<Rightarrow> 'a fs \<Rightarrow> (tret \<times> 'a fs) res" where
  "usertrap_end pol which_dev s =
     (if killed (cur s) s \<noteq> 0 then die s
      else if which_dev = 2
      then bind_res (alarm (cur s) s) (\<lambda>s.
           if pol \<noteq> FCFS \<and> pol \<noteq> PBS then Ok (Yielded, yield (cur s) s) else Ok (ToUser, s))
      else Ok (ToUser, s))"

definition usertrap :: "policy \<Rightarrow> ('a fs \<Rightarrow> 'a fs res) \<Rightarrow> u64 \<Rightarrow> regs \<Rightarrow> 'a fs \<Rightarrow> (tret \<times> regs \<times> 'a fs) res" where
  "usertrap pol disk_intr kernelvec r s =
     (if sstatus r AND SSTATUS_SPP \<noteq> 0 then Panic ''usertrap: not from user mode''
      else let r = r\<lparr>stvec := kernelvec\<rparr>; s = st (mytf s + TF_EPC) (sepc r) s
           in if scause r = 8
              then if killed (cur s) s \<noteq> 0 then bind_res (die s) (\<lambda>(t, s). Ok (t, r, s))
                   else let s = st (mytf s + TF_EPC) (ld s (mytf s + TF_EPC) + 4) s
                        in bind_res (syscall s) (\<lambda>(q, s). case q of
                             Ret _ \<Rightarrow> bind_res (usertrap_end pol 0 s) (\<lambda>(t, s). Ok (t, r, s))
                           | Exited \<Rightarrow> Ok (Dead, r, s)
                           | Slept \<Rightarrow> Ok (Asleep, r, s))
              else if scause r = 15
              then bind_res (store_fault (mypt s) (stval r) s) (\<lambda>(dies, s).
                   if dies then bind_res (die (setkilled (cur s) s)) (\<lambda>(t, s). Ok (t, r, s))
                   else bind_res (usertrap_end pol 0 s) (\<lambda>(t, s). Ok (t, r, s)))
              else bind_res (devintr pol disk_intr r s) (\<lambda>(which_dev, r, s).
                   let s = (if which_dev = 0
                            then setkilled (cur s) (kprintf (chars ''            sepc=%p stval=%p'' @ [10]) [PPtr (sepc r), PPtr (stval r)]
                                   (kprintf (chars ''usertrap(): unexpected scause %p pid=%d'' @ [10])
                                     [PPtr (scause r), PInt (mypid s)] s))
                            else s)
                   in bind_res (usertrap_end pol which_dev s) (\<lambda>(t, s). Ok (t, r, s))))"

text \<open>
  Return to user space.  \<open>uservec\<close> is the offset of the user trap vector in the trampoline page and
  \<open>usertrap_at\<close> the address of \<open>usertrap\<close>.
\<close>

definition MAKE_SATP :: "u64 \<Rightarrow> u64" where "MAKE_SATP pt = push_bit 60 8 OR drop_bit 12 pt"

definition usertrapret :: "u64 \<Rightarrow> u64 \<Rightarrow> regs \<Rightarrow> 'a fs \<Rightarrow> u64 \<times> regs \<times> 'a fs" where
  "usertrapret uservec usertrap_at r s =
     (let tf = mytf s;
          r = r\<lparr>stvec := TRAMPOLINE + uservec, sstatus := sstatus r AND NOT SSTATUS_SIE\<rparr>;
          s = st tf (satp r) s;
          s = st (tf + 8) (kstack (procs s (cur s)) + PGSIZE) s;
          s = st (tf + 16) usertrap_at s;
          s = st (tf + 32) (tp r) s;
          r = r\<lparr>sstatus := (sstatus r AND NOT SSTATUS_SPP) OR SSTATUS_SPIE, sepc := ld s (tf + TF_EPC)\<rparr>
      in (MAKE_SATP (mypt s), r, s))"

text \<open>
  \<open>running\<close> says whether the CPU has a process, in state \<open>RUNNING\<close>, as \<open>myproc\<close> and \<open>cur\<close> name it.
  The flag of the result says whether the handler yields the CPU.
\<close>

definition kerneltrap :: "policy \<Rightarrow> ('a fs \<Rightarrow> 'a fs res) \<Rightarrow> bool \<Rightarrow> regs \<Rightarrow> 'a fs \<Rightarrow> (bool \<times> regs \<times> 'a fs) res" where
  "kerneltrap pol disk_intr running r s =
     (if sstatus r AND SSTATUS_SPP = 0 then Panic ''kerneltrap: not from supervisor mode''
      else if sstatus r AND SSTATUS_SIE \<noteq> 0 then Panic ''kerneltrap: interrupts enabled''
      else bind_res (devintr pol disk_intr r s) (\<lambda>(which_dev, r1, s).
           if which_dev = 0 then Panic ''kerneltrap: Unknown interrupt''
           else let yields = (which_dev = 2 \<and> running \<and> pol \<noteq> FCFS \<and> pol \<noteq> PBS)
                in Ok (yields, r1\<lparr>sepc := sepc r, sstatus := sstatus r\<rparr>, if yields then yield (cur s) s else s)))"

end
