(* ===== verification/Lifecycle.thy ===== *)
theory Lifecycle
  imports Frame Sched
begin

text \<open>
  The life of processes on several CPUs: what the process operations do to the table, and two
  invariants of every interleaving of them, that a process runs on at most one CPU and that a
  parent never sleeps in \<open>wait\<close> while it has a child to collect.
\<close>

section \<open>Effects on the process table\<close>

lemma pupd_simps [simp]:
  "procs (pupd p f s) = (procs s)(p := f (procs s p))" "ticks (pupd p f s) = ticks s"
  "initproc (pupd p f s) = initproc s" "forkret_addr (pupd p f s) = forkret_addr s"
  by (simp_all add: pupd_def)

lemma st_simps [simp]: "procs (st a v s) = procs s" "initproc (st a v s) = initproc s" for s :: "'a ps"
  by (simp_all add: st_def)

text \<open>\<open>kept s' s\<close>: the table and the first process are the same.\<close>

definition kept :: "'a ps \<Rightarrow> 'a ps \<Rightarrow> bool" where
  "kept s' s \<longleftrightarrow> procs s' = procs s \<and> initproc s' = initproc s"

lemma kept_more: "kst.more s' = kst.more s \<Longrightarrow> kept s' s"
  using more_pst(1,2)[of s' s] by (simp add: kept_def)

lemmas kept_frame = frame [THEN kept_more]

text \<open>Only the entry of \<open>p\<close> changes, to one that satisfies \<open>P\<close>.\<close>

definition changes :: "nat \<Rightarrow> (proc \<Rightarrow> bool) \<Rightarrow> 'a ps \<Rightarrow> 'a ps \<Rightarrow> bool" where
  "changes p P s s' \<longleftrightarrow> P (procs s' p) \<and> (\<forall>q. q \<noteq> p \<longrightarrow> procs s' q = procs s q) \<and> initproc s' = initproc s"

lemma changes_kept:
  "changes p P s s1 \<Longrightarrow> kept s' s1 \<Longrightarrow> changes p P s s'"
  "kept s1 s \<Longrightarrow> changes p P s1 s' \<Longrightarrow> changes p P s s'"
  by (simp_all add: changes_def kept_def)

lemma changes_trans: "changes p P s s1 \<Longrightarrow> changes p Q s1 s2 \<Longrightarrow> changes p Q s s2"
  by (simp add: changes_def)

lemma changes_pupd: "Q (f (procs s p)) \<Longrightarrow> changes p Q s (pupd p f s)"
  by (simp add: changes_def)

lemma proc_pagetable_kept: "proc_pagetable p s = Ok (pt, s') \<Longrightarrow> kept s' s"
  by (auto simp: proc_pagetable_def res_simps kept_def split: if_split_asm dest!: kept_frame)

lemma proc_freepagetable_kept: "proc_freepagetable pt n s = Ok s' \<Longrightarrow> kept s' s"
  by (auto simp: proc_freepagetable_def res_simps kept_def dest!: kept_frame)

lemma freeproc_changes:
  assumes "freeproc p s = Ok s'"
  shows "changes p (\<lambda>x. pstate x = UNUSED \<and> parent x = None) s s'"
proof -
  from assms obtain s1 s2 where 1: "(if trapframe (procs s p) \<noteq> 0 then kfree (trapframe (procs s p)) s else Ok s) = Ok s1"
      and 2: "(let s = pupd p (trapframe_update (\<lambda>_. 0)) s1 in if pagetable (procs s p) \<noteq> 0
          then proc_freepagetable (pagetable (procs s p)) (sz (procs s p)) s else Ok s) = Ok s2"
      and s': "s' = pupd p (\<lambda>x. x\<lparr>pagetable := 0, sz := 0, pid := 0, parent := None, name := [], chan := NoChan,
                          killed_flag := 0, xstate := 0, pstate := UNUSED\<rparr>) s2"
    by (auto simp: freeproc_def res_simps Let_def)
  have "kept s1 s" using 1 by (auto split: if_splits simp: kept_def dest!: kept_frame)
  moreover have "kept s2 (pupd p (trapframe_update (\<lambda>_. 0)) s1)"
    using 2 by (auto simp: Let_def kept_def split: if_splits dest!: proc_freepagetable_kept)
  ultimately show ?thesis by (auto simp: s' changes_def kept_def)
qed

lemma find_upt: "find P [0..<n] = Some p \<Longrightarrow> p < n \<and> P p" "find P [0..<n] = None \<longleftrightarrow> (\<forall>p<n. \<not> P p)"
  by (auto simp: find_Some_iff find_None_iff)

lemma allocproc_changes:
  assumes "allocproc s = Ok (r, s')"
  shows "(case r of Some p \<Rightarrow> p < NPROC \<and> pstate (procs s p) = UNUSED \<and> changes p (\<lambda>x. pstate x = USED) s s'
     | None \<Rightarrow> kept s' s \<or> (\<exists>p<NPROC. pstate (procs s p) = UNUSED \<and> changes p (\<lambda>x. pstate x = UNUSED) s s'))"
proof (cases "find (\<lambda>p. pstate (procs s p) = UNUSED) [0..<NPROC]")
  case None
  with assms show ?thesis by (simp add: allocproc_def kept_def)
next
  case (Some p)
  let ?s1 = "pupd p (proc_claim (nextpid s) (ticks s)) (s\<lparr>nextpid := nextpid s + 1\<rparr>)"
  from assms Some obtain tf s2 where k: "kalloc ?s1 = Ok (tf, s2)"
    by (auto simp: allocproc_def allocpid_def Let_def res_simps)
  let ?s3 = "pupd p (trapframe_update (\<lambda>_. tf)) s2"
  have p: "p < NPROC" "pstate (procs s p) = UNUSED" using find_upt(1)[OF Some] by auto
  have c3: "changes p (\<lambda>x. pstate x = USED) s ?s3"
    using kept_frame(3)[OF k] by (auto simp: changes_def kept_def proc_claim_def)
  show ?thesis
  proof (cases "tf = 0")
    case True
    with assms Some k have fp: "freeproc p ?s3 = Ok s'" "r = None"
      by (auto simp: allocproc_def allocpid_def Let_def res_simps)
    from changes_trans[OF c3 freeproc_changes[OF fp(1)]] p fp(2) show ?thesis by (auto simp: changes_def)
  next
    case False
    with assms Some k obtain pt s4 where pt: "proc_pagetable p ?s3 = Ok (pt, s4)"
      by (auto simp: allocproc_def allocpid_def Let_def res_simps)
    let ?s5 = "pupd p (pagetable_update (\<lambda>_. pt)) s4"
    have c5: "changes p (\<lambda>x. pstate x = USED) s ?s5"
      using c3 proc_pagetable_kept[OF pt] by (auto simp: changes_def kept_def)
    show ?thesis
    proof (cases "pt = 0")
      case True
      with assms Some k pt False have fp: "freeproc p ?s5 = Ok s'" "r = None"
        by (auto simp: allocproc_def allocpid_def Let_def res_simps)
      from changes_trans[OF c5 freeproc_changes[OF fp(1)]] p fp(2) show ?thesis by (auto simp: changes_def)
    next
      case False
      with assms Some k pt \<open>tf \<noteq> 0\<close> have "r = Some p" "s' = pupd p (proc_ready (forkret_addr ?s5) (ticks ?s5)) ?s5"
        by (auto simp: allocproc_def allocpid_def Let_def res_simps)
      with c5 p show ?thesis by (auto simp: changes_def proc_ready_def)
    qed
  qed
qed

text \<open>What the process code relies on of the file layer: sharing a file or inode leaves processes alone.\<close>

locale file_sharing =
  fixes filedup :: "nat \<Rightarrow> 'a ps \<Rightarrow> 'a ps res" and idup :: "nat option \<Rightarrow> 'a ps \<Rightarrow> (nat option \<times> 'a ps) res"
  assumes filedup_kept: "filedup f s = Ok s' \<Longrightarrow> kept s' s"
    and idup_kept: "idup i s = Ok (r, s') \<Longrightarrow> kept s' s"
begin

lemma fork_files_changes:
  "fork_files filedup me np fds s = Ok s' \<Longrightarrow> P (procs s np) \<Longrightarrow>
   (\<And>x f. P x \<Longrightarrow> P (x\<lparr>ofile := f\<rparr>)) \<Longrightarrow> changes np P s s'"
proof (induction fds arbitrary: s)
  case Nil
  then show ?case by (simp add: changes_def)
next
  case (Cons i fds)
  show ?case
  proof (cases "ofile (procs s me) i")
    case None
    with Cons show ?thesis by simp
  next
    case (Some f)
    with Cons.prems obtain s1 where f: "filedup f s = Ok s1"
        and rec: "fork_files filedup me np fds (pupd np (\<lambda>x. x\<lparr>ofile := (ofile x)(i := Some f)\<rparr>) s1) = Ok s'"
      by (auto simp: res_simps)
    have k: "kept s1 s" by (rule filedup_kept[OF f])
    then have "P (procs s1 np)" using Cons.prems(2) by (simp add: kept_def)
    with Cons.IH[OF rec _ Cons.prems(3)] Cons.prems(3)
    have "changes np P (pupd np (\<lambda>x. x\<lparr>ofile := (ofile x)(i := Some f)\<rparr>) s1) s'" by simp
    with k show ?thesis by (auto simp: changes_def kept_def)
  qed
qed

text \<open>\<open>fork\<close> fails without a trace in the table's states, or adds one runnable child of the caller.\<close>

lemma fork_changes:
  assumes "fork filedup idup me s = Ok (r, s')"
  shows "kept s' s \<or> (\<exists>np<NPROC. pstate (procs s np) = UNUSED \<and>
    (changes np (\<lambda>x. pstate x = UNUSED) s s' \<or> changes np (\<lambda>x. pstate x = RUNNABLE \<and> parent x = Some me) s s'))"
proof -
  from assms obtain npo s1 where a: "allocproc s = Ok (npo, s1)" by (auto simp: fork_def res_simps)
  show ?thesis
  proof (cases npo)
    case None
    with a assms have "s' = s1" by (simp add: fork_def)
    with None allocproc_changes[OF a] show ?thesis by auto
  next
    case (Some np)
    with allocproc_changes[OF a] have np: "np < NPROC" "pstate (procs s np) = UNUSED"
      and c1: "changes np (\<lambda>x. pstate x = USED) s s1" by auto
    from a Some assms obtain q s2 where u: "uvmcopy (pagetable (procs s1 me)) (pagetable (procs s1 np)) (sz (procs s1 me)) s1 = Ok (q, s2)"
      by (auto simp: fork_def res_simps)
    have c2: "changes np (\<lambda>x. pstate x = USED) s s2" using changes_kept(1)[OF c1] uvmcopy_more[OF u, THEN kept_more] .
    show ?thesis
    proof (cases "q < 0")
      case True
      with a Some u assms have "freeproc np s2 = Ok s'" by (auto simp: fork_def res_simps)
      from changes_trans[OF c2 freeproc_changes[OF this]] np show ?thesis by (auto simp: changes_def)
    next
      case False
      let ?s3 = "pupd np (sz_update (\<lambda>_. sz (procs s2 me))) s2"
      let ?s4 = "st (trapframe (procs ?s3 np) + TF_A0) 0
          (?s3\<lparr>pm := memmove (pm ?s3) (trapframe (procs ?s3 np)) (trapframe (procs ?s3 me)) TF_SIZE\<rparr>)"
      from False a Some u assms obtain s5 ip s6 where f: "fork_files filedup me np [0..<NOFILE] ?s4 = Ok s5"
          and i: "idup (cwd (procs s5 me)) s5 = Ok (ip, s6)"
          and s': "s' = (let s = pupd np (\<lambda>x. x\<lparr>cwd := ip, name := name_copy (name (procs s6 me))\<rparr>) s6;
                  s = pupd np (\<lambda>x. x\<lparr>parent := Some me, tracemask := tracemask (procs s me),
                                    tickets := tickets (procs s me)\<rparr>) s
              in pupd np (pstate_update (\<lambda>_. RUNNABLE)) s)"
        by (auto simp: fork_def res_simps Let_def)
      have c4: "changes np (\<lambda>x. pstate x = USED) s ?s4" using c2 by (auto simp: changes_def)
      have "changes np (\<lambda>x. pstate x = USED) ?s4 s5"
        by (rule fork_files_changes[OF f]) (use c4 in \<open>auto simp: changes_def\<close>)
      from changes_trans[OF c4 this] have "changes np (\<lambda>x. pstate x = USED) s s6"
        using idup_kept[OF i] by (rule changes_kept)
      with np show ?thesis by (auto simp: s' changes_def Let_def)
    qed
  qed
qed

end

lemma wait_changes:
  assumes "wait me addr s = Ok (r, s')"
  shows "case r of
      None \<Rightarrow> s' = sleep_enter me (ProcChan me) s \<and> (\<forall>q<NPROC. parent (procs s q) = Some me \<longrightarrow> pstate (procs s q) \<noteq> ZOMBIE)
    | Some _ \<Rightarrow> kept s' s \<or> (\<exists>q<NPROC. pstate (procs s q) = ZOMBIE \<and>
        changes q (\<lambda>x. pstate x = UNUSED \<and> parent x = None) s s')"
proof (cases "find (\<lambda>q. parent (procs s q) = Some me \<and> pstate (procs s q) = ZOMBIE) [0..<NPROC]")
  case None
  with assms find_upt(2) show ?thesis
    by (auto simp: wait_def wait_sleep_def find_upt kept_def split: if_splits)
next
  case (Some q)
  then have q: "q < NPROC" "pstate (procs s q) = ZOMBIE" using find_upt(1) by fast+
  from assms Some obtain c s1 where c: "(if addr \<noteq> 0 then copyout (pagetable (procs s me)) addr (xstate_at s q) 4 (put_xstate q s)
      else Ok (0, s)) = Ok (c, s1)" by (auto simp: wait_def Let_def res_simps simp del: if_split)
  then have k: "kept s1 s"
    by (auto simp: kept_def put_xstate_def split: if_splits dest!: kept_frame)
  show ?thesis
  proof (cases "c < 0")
    case True
    with assms Some c k show ?thesis by (auto simp: wait_def Let_def res_simps simp del: if_split)
  next
    case False
    with assms Some c obtain v where v: "r = Some v" and fp: "freeproc q s1 = Ok s'"
      by (auto simp: wait_def Let_def res_simps simp del: if_split)
    from changes_kept(2)[OF k freeproc_changes[OF fp]] q v show ?thesis by auto
  qed
qed

text \<open>\<open>waitx\<close> is \<open>wait\<close> with the two times on the side.\<close>

lemma waitx_wait: "bind_res (waitx me addr s) (\<lambda>(r, t, s'). Ok (r, s')) = wait me addr s"
  by (auto simp: waitx_def wait_def Let_def bind_res_assoc split: option.splits prod.splits intro!: bind_res_cong)

section \<open>exit\<close>

lemma wakeup_apply:
  "procs (wakeup me ch s) p = (if p < NPROC \<and> Some p \<noteq> me \<and> pstate (procs s p) = SLEEPING \<and> chan (procs s p) = ch
     then wake (ticks s) (procs s p) else procs s p)"
  by (simp add: wakeup_def Let_def)

lemma wake_simps [simp]: "pstate (wake t x) = RUNNABLE" "parent (wake t x) = parent x"
  by (simp_all add: wake_def Let_def)

lemma wakeup_simps [simp]: "initproc (wakeup me ch s) = initproc s" "ticks (wakeup me ch s) = ticks s"
  by (simp_all add: wakeup_def)

text \<open>A process is asleep in \<open>wait\<close>.\<close>

definition in_wait :: "proc \<Rightarrow> nat \<Rightarrow> bool" where
  "in_wait x p \<longleftrightarrow> pstate x = SLEEPING \<and> chan x = ProcChan p"

definition woken :: "'a ps \<Rightarrow> 'a ps \<Rightarrow> nat \<Rightarrow> bool" where
  "woken s s' p \<longleftrightarrow> (pstate (procs s' p) = pstate (procs s p) \<and> chan (procs s' p) = chan (procs s p)
     \<or> pstate (procs s p) = SLEEPING \<and> pstate (procs s' p) = RUNNABLE)"

lemma woken_trans: "woken s s1 p \<Longrightarrow> woken s1 s2 p \<Longrightarrow> woken s s2 p"
  by (auto simp: woken_def)

lemma wakeup_woken: "woken s (wakeup me ch s) p"
  by (simp add: woken_def wakeup_apply)

text \<open>After \<open>reparent\<close> every former child is a child of \<open>initproc\<close>, and no other parent changed.\<close>

lemma reparent_loop_effect:
  assumes "distinct ps" "set ps \<subseteq> {..<NPROC}" "initproc s \<noteq> Some me"
  shows "initproc (reparent_loop me ps s) = initproc s \<and> woken s (reparent_loop me ps s) p \<and>
    (p = me \<longrightarrow> pstate (procs (reparent_loop me ps s) p) = pstate (procs s p)) \<and>
    parent (procs (reparent_loop me ps s) p) =
      (if p \<in> set ps \<and> parent (procs s p) = Some me then initproc s else parent (procs s p)) \<and>
    (\<forall>ip. initproc s = Some ip \<longrightarrow> ip < NPROC \<longrightarrow> (\<exists>q\<in>set ps. parent (procs s q) = Some me) \<longrightarrow>
       \<not> in_wait (procs (reparent_loop me ps s) ip) ip)"
  using assms
proof (induction ps arbitrary: s p)
  case Nil
  then show ?case by (simp add: woken_def)
next
  case (Cons q ps)
  show ?case
  proof (cases "parent (procs s q) = Some me")
    case False
    with Cons show ?thesis by auto
  next
    case True
    define s1 where "s1 = (case initproc s of None \<Rightarrow> pupd q (parent_update (\<lambda>_. initproc s)) s
       | Some ip \<Rightarrow> wakeup (Some me) (ProcChan ip) (pupd q (parent_update (\<lambda>_. initproc s)) s))"
    have i1: "initproc s1 = initproc s" by (simp add: s1_def split: option.splits)
    have w1: "woken s s1 x" for x by (auto simp: s1_def woken_def wakeup_apply split: option.splits)
    have me1: "pstate (procs s1 me) = pstate (procs s me)" by (auto simp: s1_def wakeup_apply split: option.splits)
    have p1: "parent (procs s1 x) = (if x = q then initproc s else parent (procs s x))" for x
      by (auto simp: s1_def wakeup_apply split: option.splits)
    have a1: "\<not> in_wait (procs s1 ip) ip" if "initproc s = Some ip" "ip < NPROC" for ip
      using that Cons.prems by (auto simp: s1_def wakeup_apply in_wait_def)
    have IH: "initproc (reparent_loop me ps s1) = initproc s1 \<and> woken s1 (reparent_loop me ps s1) x \<and>
      (x = me \<longrightarrow> pstate (procs (reparent_loop me ps s1) x) = pstate (procs s1 x)) \<and>
      parent (procs (reparent_loop me ps s1) x) =
        (if x \<in> set ps \<and> parent (procs s1 x) = Some me then initproc s1 else parent (procs s1 x))" for x
      using Cons.IH[of s1 x] Cons.prems i1 by auto
    have "\<not> in_wait (procs (reparent_loop me ps s1) ip) ip" if "initproc s = Some ip" "ip < NPROC" for ip
      using a1[OF that] IH[of ip] by (auto simp: woken_def in_wait_def)
    moreover have "reparent_loop me (q # ps) s = reparent_loop me ps s1" using True by (simp add: s1_def)
    ultimately show ?thesis
      using IH[of p] i1 w1[of p] me1 p1[of p] Cons.prems True by (auto intro: woken_trans)
  qed
qed

text \<open>No parent sleeps in \<open>wait\<close> while it has a zombie child.\<close>

definition wait_inv :: "'a ps \<Rightarrow> bool" where
  "wait_inv s \<longleftrightarrow> (\<forall>p<NPROC. \<forall>q<NPROC.
     parent (procs s q) = Some p \<and> pstate (procs s q) = ZOMBIE \<longrightarrow> \<not> in_wait (procs s p) p)"

lemma reparent_effect:
  assumes "initproc s \<noteq> Some me"
  defines "s1 \<equiv> reparent me s"
  shows "initproc s1 = initproc s" "woken s s1 p" "pstate (procs s1 me) = pstate (procs s me)"
    "p < NPROC \<Longrightarrow> parent (procs s1 p) = (if parent (procs s p) = Some me then initproc s else parent (procs s p))"
    "initproc s = Some ip \<Longrightarrow> ip < NPROC \<Longrightarrow> q < NPROC \<Longrightarrow> parent (procs s q) = Some me \<Longrightarrow> \<not> in_wait (procs s1 ip) ip"
  using reparent_loop_effect[of "[0..<NPROC]" s me p] reparent_loop_effect[of "[0..<NPROC]" s me me] assms(1)
  by (auto simp: s1_def reparent_def atLeast0LessThan)

lemma wait_inv_reparent:
  assumes "initproc s \<noteq> Some me" "wait_inv s"
  shows "wait_inv (reparent me s)"
  unfolding wait_inv_def
proof (intro allI impI, elim conjE)
  fix p q assume pq: "p < NPROC" "q < NPROC" and par: "parent (procs (reparent me s) q) = Some p"
    and z: "pstate (procs (reparent me s) q) = ZOMBIE"
  note eff = reparent_effect[OF assms(1)]
  show "\<not> in_wait (procs (reparent me s) p) p"
  proof (cases "parent (procs s q) = Some me")
    case True
    with eff(4)[OF pq(2)] par have "initproc s = Some p" by simp
    from eff(5)[OF this pq True] show ?thesis .
  next
    case False
    with eff(4)[OF pq(2)] par have "parent (procs s q) = Some p" by simp
    moreover have "pstate (procs s q) = ZOMBIE" using eff(2)[of q] z by (auto simp: woken_def)
    ultimately have "\<not> in_wait (procs s p) p" using assms(2) pq by (auto simp: wait_inv_def)
    then show ?thesis using eff(2)[of p] by (auto simp: woken_def in_wait_def)
  qed
qed

lemma wait_inv_wakeup: "wait_inv s \<Longrightarrow> wait_inv (wakeup me ch s)"
  by (force simp: wait_inv_def wakeup_apply in_wait_def)

lemma wait_inv_exit:
  assumes "initproc s \<noteq> Some me" "wait_inv s" "me < NPROC"
  shows "wait_inv (exit_zombie me status s)"
proof -
  define s1 where "s1 = reparent me s"
  define s2 where "s2 = (case parent (procs s1 me) of None \<Rightarrow> wakeup (Some me) NoChan s1
               | Some pp \<Rightarrow> wakeup (Some me) (ProcChan pp) s1)"
  have s': "exit_zombie me status s = pupd me (\<lambda>x. x\<lparr>xstate := status, pstate := ZOMBIE, etime := ticks s2\<rparr>) s2"
    unfolding exit_zombie_def Let_def s1_def s2_def ..
  have i2: "wait_inv s2"
    using wait_inv_reparent[OF assms(1,2)] by (auto simp: s2_def s1_def intro: wait_inv_wakeup split: option.splits)
  have "parent (procs s1 me) \<noteq> Some me"
    using reparent_effect(4)[OF assms(1,3)] assms(1) by (auto simp: s1_def)
  then have "\<not> in_wait (procs s2 p) p" if "parent (procs s2 me) = Some p" "p < NPROC" for p
    using that by (auto simp: s2_def in_wait_def wakeup_apply split: option.splits if_splits)
  with i2 show ?thesis by (auto simp: s' wait_inv_def in_wait_def)
qed

lemma exit_woken:
  assumes "initproc s \<noteq> Some me" "p \<noteq> me"
  shows "woken s (exit_zombie me status s) p"
proof -
  have "woken s (reparent me s) p" by (rule reparent_effect(2)[OF assms(1)])
  moreover have "woken (reparent me s) (exit_zombie me status s) p"
    using assms(2) wakeup_woken[of "reparent me s" "Some me" _ p]
    by (auto simp: exit_zombie_def Let_def woken_def wakeup_apply split: option.splits)
  ultimately show ?thesis by (rule woken_trans)
qed

section \<open>Interleavings\<close>

text \<open>
  The steps of a machine whose CPU \<open>c\<close> runs process \<open>cpus c\<close>: each is the critical section of one
  kernel operation, on the CPU of the running process or, for wakeups and the clock, in an interrupt.
  \<open>f\<close> is what the build's scheduler sets in the process it runs.
\<close>

inductive pstep :: "(nat \<Rightarrow> 'a ps \<Rightarrow> 'a ps res) \<Rightarrow> (nat option \<Rightarrow> 'a ps \<Rightarrow> (nat option \<times> 'a ps) res) \<Rightarrow>
    'a ps \<times> (nat \<Rightarrow> nat option) \<Rightarrow> 'a ps \<times> (nat \<Rightarrow> nat option) \<Rightarrow> bool" for filedup idup where
  run: "cpus c = None \<Longrightarrow> p < NPROC \<Longrightarrow> runnable s p \<Longrightarrow>
    f \<in> {mark, \<lambda>now x. x, \<lambda>now x. x\<lparr>timesScheduled := timesScheduled x + 1, lastScheduled := now\<rparr>} \<Longrightarrow>
    pstep filedup idup (s, cpus) (dispatch (\<lambda>_ s. s) f p s, cpus(c := Some p))"
| give_up: "cpus c = Some p \<Longrightarrow> pstep filedup idup (s, cpus) (yield p s, cpus(c := None))"
| sleep: "cpus c = Some p \<Longrightarrow> (\<forall>q. ch \<noteq> ProcChan q) \<Longrightarrow>
    pstep filedup idup (s, cpus) (sleep_enter p ch s, cpus(c := None))"
| wait_sleeps: "cpus c = Some p \<Longrightarrow> wait p addr s = Ok (None, s') \<Longrightarrow>
    pstep filedup idup (s, cpus) (s', cpus(c := None))"
| wait_returns: "cpus c = Some p \<Longrightarrow> wait p addr s = Ok (Some r, s') \<Longrightarrow> pstep filedup idup (s, cpus) (s', cpus)"
| exits: "cpus c = Some p \<Longrightarrow> initproc s \<noteq> Some p \<Longrightarrow>
    pstep filedup idup (s, cpus) (exit_zombie p status s, cpus(c := None))"
| forks: "cpus c = Some p \<Longrightarrow> fork filedup idup p s = Ok (r, s') \<Longrightarrow> pstep filedup idup (s, cpus) (s', cpus)"
| resumes: "cpus c = Some p \<Longrightarrow> pstep filedup idup (s, cpus) (sleep_leave p s, cpus)"
| wakes: "pstep filedup idup (s, cpus) (wakeup (cpus c) ch s, cpus)"
| kills: "pstep filedup idup (s, cpus) (snd (kill victim s), cpus)"
| marks_killed: "pstep filedup idup (s, cpus) (setkilled p s, cpus)"
| clock: "pstep filedup idup (s, cpus) (wakeup (cpus c) TicksChan (update_time (s\<lparr>ticks := ticks s + 1\<rparr>)), cpus)"
| queues: "pstep filedup idup (s, cpus) (age (demote s), cpus)"

inductive preach :: "(nat \<Rightarrow> 'a ps \<Rightarrow> 'a ps res) \<Rightarrow> (nat option \<Rightarrow> 'a ps \<Rightarrow> (nat option \<times> 'a ps) res) \<Rightarrow>
    'a ps \<times> (nat \<Rightarrow> nat option) \<Rightarrow> bool" for filedup idup where
  start: "\<forall>p<NPROC. pstate (procs s p) \<in> {UNUSED, RUNNABLE} \<Longrightarrow> preach filedup idup (s, \<lambda>_. None)"
| step: "preach filedup idup x \<Longrightarrow> pstep filedup idup x y \<Longrightarrow> preach filedup idup y"

text \<open>Exactly the running processes are on a CPU, each on one.\<close>

definition cpu_inv :: "'a ps \<Rightarrow> (nat \<Rightarrow> nat option) \<Rightarrow> bool" where
  "cpu_inv s cpus \<longleftrightarrow>
     (\<forall>c p. cpus c = Some p \<longrightarrow> p < NPROC \<and> pstate (procs s p) = RUNNING) \<and>
     (\<forall>c d p. cpus c = Some p \<longrightarrow> cpus d = Some p \<longrightarrow> c = d) \<and>
     (\<forall>p<NPROC. pstate (procs s p) = RUNNING \<longrightarrow> (\<exists>c. cpus c = Some p))"

lemma cpu_inv_same:
  assumes "cpu_inv s cpus" "\<And>p. p < NPROC \<Longrightarrow> pstate (procs s' p) = RUNNING \<longleftrightarrow> pstate (procs s p) = RUNNING"
  shows "cpu_inv s' cpus"
  using assms unfolding cpu_inv_def by metis

lemma cpu_inv_leave:
  assumes "cpu_inv s cpus" "cpus c = Some p" "pstate (procs s' p) \<noteq> RUNNING"
    "\<And>q. q < NPROC \<Longrightarrow> q \<noteq> p \<Longrightarrow> pstate (procs s' q) = RUNNING \<longleftrightarrow> pstate (procs s q) = RUNNING"
  shows "cpu_inv s' (cpus(c := None))"
proof -
  have old: "q < NPROC" "pstate (procs s q) = RUNNING" "d = e" if "cpus d = Some q" "cpus e = Some q" for d e q
    using assms(1) that by (auto simp: cpu_inv_def)
  have held: "\<exists>d. cpus d = Some q" if "q < NPROC" "pstate (procs s q) = RUNNING" for q
    using assms(1) that by (auto simp: cpu_inv_def)
  have ne: "q \<noteq> p" if "cpus d = Some q" "d \<noteq> c" for d q using old(3) that assms(2) by blast
  show ?thesis
    unfolding cpu_inv_def
  proof (intro conjI allI impI)
    fix q assume q: "q < NPROC" "pstate (procs s' q) = RUNNING"
    with assms(3,4) have "q \<noteq> p" "pstate (procs s q) = RUNNING" by auto
    moreover from held[OF q(1)] calculation obtain d where "cpus d = Some q" by auto
    ultimately show "\<exists>d. (cpus(c := None)) d = Some q" using assms(2) by (intro exI[of _ d]) auto
  qed (use old ne assms(4) in \<open>auto split: if_splits\<close>)
qed

lemma cpu_inv_enter:
  assumes "cpu_inv s cpus" "cpus c = None" "p < NPROC" "pstate (procs s p) \<noteq> RUNNING" "pstate (procs s' p) = RUNNING"
    "\<And>q. q < NPROC \<Longrightarrow> q \<noteq> p \<Longrightarrow> pstate (procs s' q) = RUNNING \<longleftrightarrow> pstate (procs s q) = RUNNING"
  shows "cpu_inv s' (cpus(c := Some p))"
proof -
  have old: "q < NPROC" "pstate (procs s q) = RUNNING" "d = e" if "cpus d = Some q" "cpus e = Some q" for d e q
    using assms(1) that by (auto simp: cpu_inv_def)
  have held: "\<exists>d. cpus d = Some q" if "q < NPROC" "pstate (procs s q) = RUNNING" for q
    using assms(1) that by (auto simp: cpu_inv_def)
  have ne: "q \<noteq> p" if "cpus d = Some q" for d q using old(2)[OF that that] assms(4) by auto
  show ?thesis
    unfolding cpu_inv_def
  proof (intro conjI allI impI)
    fix q assume q: "q < NPROC" "pstate (procs s' q) = RUNNING"
    show "\<exists>d. (cpus(c := Some p)) d = Some q"
    proof (cases "q = p")
      case False
      with q assms(6) held obtain d where "cpus d = Some q" by auto
      with assms(2) show ?thesis by (intro exI[of _ d]) auto
    qed auto
  qed (use old ne assms in \<open>auto split: if_splits\<close>)
qed

lemma cpu_inv_changes:
  assumes "cpu_inv s cpus" "changes p P s s'" "pstate (procs s p) \<noteq> RUNNING" "\<And>x. P x \<Longrightarrow> pstate x \<noteq> RUNNING"
  shows "cpu_inv s' cpus"
proof (rule cpu_inv_same[OF assms(1)])
  show "pstate (procs s' q) = RUNNING \<longleftrightarrow> pstate (procs s q) = RUNNING" for q
    by (cases "q = p") (use assms(2-) in \<open>auto simp: changes_def\<close>)
qed

lemma wait_inv_changes:
  assumes "wait_inv s" "changes p P s s'" "\<And>x. P x \<Longrightarrow> pstate x \<noteq> SLEEPING \<and> pstate x \<noteq> ZOMBIE"
  shows "wait_inv s'"
  unfolding wait_inv_def in_wait_def
proof (intro allI impI, elim conjE)
  fix a b assume "a < NPROC" "b < NPROC" "parent (procs s' b) = Some a" "pstate (procs s' b) = ZOMBIE"
  with assms show "\<not> (pstate (procs s' a) = SLEEPING \<and> chan (procs s' a) = ProcChan a)"
    unfolding wait_inv_def in_wait_def changes_def by metis
qed

lemma wait_inv_kept: "wait_inv s \<Longrightarrow> kept s' s \<Longrightarrow> wait_inv s'"
  by (simp add: wait_inv_def kept_def)

lemma cpu_inv_kept: "cpu_inv s cpus \<Longrightarrow> kept s' s \<Longrightarrow> cpu_inv s' cpus"
  by (simp add: cpu_inv_def kept_def)

text \<open>The steps that neither create nor remove a running or sleeping process.\<close>

lemma wait_inv_woken:
  assumes "wait_inv s" "\<And>p. p < NPROC \<Longrightarrow> woken s s' p" "\<And>p. p < NPROC \<Longrightarrow> parent (procs s' p) = parent (procs s p)"
  shows "wait_inv s'"
  unfolding wait_inv_def
proof (intro allI impI, elim conjE)
  fix a b assume "a < NPROC" "b < NPROC" "parent (procs s' b) = Some a" "pstate (procs s' b) = ZOMBIE"
  moreover from this assms(2)[of b] have "pstate (procs s b) = ZOMBIE" by (auto simp: woken_def)
  ultimately have "\<not> in_wait (procs s a) a" using assms(1,3) by (auto simp: wait_inv_def)
  then show "\<not> in_wait (procs s' a) a" using assms(2)[OF \<open>a < NPROC\<close>] by (auto simp: woken_def in_wait_def)
qed

lemma cpu_inv_woken:
  assumes "cpu_inv s cpus" "\<And>p. p < NPROC \<Longrightarrow> woken s s' p" shows "cpu_inv s' cpus"
proof (rule cpu_inv_same[OF assms(1)])
  show "pstate (procs s' p) = RUNNING \<longleftrightarrow> pstate (procs s p) = RUNNING" if "p < NPROC" for p
    using assms(2)[OF that] by (auto simp: woken_def)
qed

definition quiet :: "'a ps \<Rightarrow> 'a ps \<Rightarrow> bool" where
  "quiet s s' \<longleftrightarrow> (\<forall>p<NPROC. woken s s' p \<and> parent (procs s' p) = parent (procs s p))"

lemma quiet_inv: "quiet s s' \<Longrightarrow> wait_inv s \<and> cpu_inv s cpus \<Longrightarrow> wait_inv s' \<and> cpu_inv s' cpus"
  using wait_inv_woken cpu_inv_woken by (metis quiet_def)

lemma quiet_wakeup: "quiet s (wakeup me ch s)"
  by (simp add: quiet_def wakeup_woken) (simp add: wakeup_apply)

lemma quiet_trans: "quiet s s1 \<Longrightarrow> quiet s1 s2 \<Longrightarrow> quiet s s2"
  by (auto simp: quiet_def intro: woken_trans)

lemma quiet_kill: "quiet s (snd (kill victim s))"
  by (auto simp: kill_def quiet_def woken_def Let_def split: option.splits)

lemma quiet_clock: "quiet s (wakeup me ch (update_time (s\<lparr>ticks := n\<rparr>)))"
  by (rule quiet_trans[OF _ quiet_wakeup]) (simp add: quiet_def woken_def update_time_def Let_def)

lemma quiet_queues: "quiet s (age (demote s))"
  by (auto simp: quiet_def woken_def age_def demote_def age1_def demote1_def Let_def)

lemma quiet_setkilled: "quiet s (setkilled p s)"
  by (simp add: quiet_def woken_def setkilled_def)

context file_sharing
begin

lemma pstep_inv:
  assumes "pstep filedup idup (s, cpus) (s', cpus')" "wait_inv s \<and> cpu_inv s cpus"
  shows "wait_inv s' \<and> cpu_inv s' cpus'"
  using assms
proof (induction "(s, cpus)" "(s', cpus')" rule: pstep.induct)
  case (run c p f)
  then have s': "s' = pupd p (\<lambda>x. f (ticks s) (x\<lparr>pstate := RUNNING\<rparr>)) s" by (simp add: dispatch_def)
  have f: "pstate (f t x) = pstate x" "parent (f t x) = parent x" for t x using run by (auto simp: mark_def)
  have "wait_inv s'" using run s' f by (auto simp: wait_inv_def in_wait_def runnable_def)
  moreover have "cpu_inv s' (cpus(c := Some p))"
    by (rule cpu_inv_enter[of s]) (use run s' f in \<open>auto simp: runnable_def\<close>)
  ultimately show ?case using run by simp
next
  case (give_up c p)
  then have s': "s' = yield p s" by simp
  have "wait_inv s'" using give_up(4) by (auto simp: s' yield_def wait_inv_def in_wait_def Let_def)
  moreover have "cpu_inv s' (cpus(c := None))"
    by (rule cpu_inv_leave[of s _ _ p]) (use give_up in \<open>auto simp: yield_def Let_def\<close>)
  ultimately show ?case using give_up by simp
next
  case (sleep c p ch)
  then have s': "s' = sleep_enter p ch s" by simp
  have "wait_inv s'" using sleep(2,5) by (auto simp: s' sleep_enter_def wait_inv_def in_wait_def)
  moreover have "cpu_inv s' (cpus(c := None))"
    by (rule cpu_inv_leave[of s _ _ p]) (use sleep in \<open>auto simp: sleep_enter_def\<close>)
  ultimately show ?case using sleep by simp
next
  case (wait_sleeps c p addr)
  from wait_changes[OF wait_sleeps(2)] have s': "s' = sleep_enter p (ProcChan p) s"
    and z: "\<forall>q<NPROC. parent (procs s q) = Some p \<longrightarrow> pstate (procs s q) \<noteq> ZOMBIE" by auto
  have "wait_inv s'" using wait_sleeps(4) z by (auto simp: s' sleep_enter_def wait_inv_def in_wait_def)
  moreover have "cpu_inv s' (cpus(c := None))"
    by (rule cpu_inv_leave[of s _ _ p]) (use wait_sleeps s' in \<open>auto simp: sleep_enter_def\<close>)
  ultimately show ?case using wait_sleeps by simp
next
  case (wait_returns c p addr r)
  from wait_changes[OF wait_returns(2)] wait_returns(3,4) show ?case
    by (auto intro: wait_inv_kept cpu_inv_kept wait_inv_changes cpu_inv_changes)
next
  case (exits c p status)
  then have p: "p < NPROC" by (auto simp: cpu_inv_def)
  have "pstate (procs (exit_zombie p status s) p) = ZOMBIE" by (simp add: exit_zombie_def Let_def)
  moreover have "pstate (procs (exit_zombie p status s) q) = RUNNING \<longleftrightarrow> pstate (procs s q) = RUNNING" if "q \<noteq> p" for q
    using exit_woken[OF exits(2) that, of status] by (auto simp: woken_def)
  ultimately have "cpu_inv (exit_zombie p status s) (cpus(c := None))"
    using exits by (intro cpu_inv_leave[of s _ _ p]) auto
  with exits p show ?case by (auto intro: wait_inv_exit)
next
  case (forks c p r)
  from fork_changes[OF forks(2)] forks(3,4) show ?case
    by (auto intro: wait_inv_kept cpu_inv_kept wait_inv_changes cpu_inv_changes)
next
  case (resumes c p)
  then have "pstate (procs s p) = RUNNING" by (auto simp: cpu_inv_def)
  then have "changes p (\<lambda>x. pstate x = RUNNING) s s'" using resumes by (auto simp: changes_def sleep_leave_def)
  then have "wait_inv s'" using wait_inv_changes resumes by fastforce
  moreover have "cpu_inv s' cpus" by (rule cpu_inv_same[of s]) (use resumes in \<open>auto simp: sleep_leave_def split: if_splits\<close>)
  ultimately show ?case using resumes by simp
qed (use quiet_inv quiet_wakeup quiet_kill quiet_clock quiet_queues quiet_setkilled in \<open>metis+\<close>)

lemma preach_inv: "preach filedup idup x \<Longrightarrow> wait_inv (fst x) \<and> cpu_inv (fst x) (snd x)"
proof (induction rule: preach.induct)
  case (start s)
  then have "pstate (procs s p) \<noteq> RUNNING \<and> pstate (procs s p) \<noteq> ZOMBIE" if "p < NPROC" for p using that by fastforce
  then show ?case by (auto simp: wait_inv_def cpu_inv_def)
next
  case (step x y)
  then show ?case using pstep_inv by (metis prod.collapse)
qed

end

end
