(* ===== verification/Sharing.thy ===== *)
theory Sharing
  imports File Lifecycle
begin

text \<open>
  The process operations on the kernel's own file layer: \<open>filedup\<close> and \<open>idup\<close> meet the contract
  that \<open>fork\<close> relies on, which gives the invariants of every interleaving of process operations.
\<close>

lemma kept_file [simp]: "kept (fupd f g s) s" "kept (iupd i h s) s"
  by (simp_all add: kept_def fupd_def iupd_def)

interpretation files: file_sharing filedup idup
  by unfold_locales (auto simp: filedup_def idup_def null_deref_def split: if_splits option.splits)

section \<open>A run\<close>

text \<open>An idle file system under a given process table.\<close>

definition blank_fs :: "proc list \<Rightarrow> fsys" where
  "blank_fs xs = pst.extend (demo_sys xs) (fsys.fields 0 (\<lambda>_ _. 0) []
     (\<lambda>_. \<lparr>valid = False, dev = 0, blockno = 0, slock = initsleeplock, refcnt = 0, bdata = (\<lambda>_. 0)\<rparr>) (rev [0..<NBUF])
     \<lparr>lstart = 2, lsize = 30, outstanding = 0, committing = False, ldev = 1, lhn = 0, lhblock = (\<lambda>_. 0)\<rparr>
     \<lparr>magic = FSMAGIC, fssize = 2000, nblocks = 1954, ninodes = 200, nlog = 30, logstart = 2, inodestart = 32, bmapstart = 45\<rparr>
     (\<lambda>_. \<lparr>idev = 0, inum = 0, iref = 0, ilk = initsleeplock, ivalid = False, itype = 0, imajor = 0, iminor = 0, nlink = 0,
           isize = 0, addrs = (\<lambda>_. 0)\<rparr>)
     (\<lambda>_. \<lparr>ftype = FD_NONE, fref = 0, readable = False, writable = False, fpipe = 0, fip = 0, foff = 0, fmajor = 0\<rparr>)
     (\<lambda>_. \<lparr>pdata = (\<lambda>_. 0), nread = 0, nwrite = 0, readopen = False, writeopen = False\<rparr>)
     \<lparr>cbuf = (\<lambda>_. 0), cr = 0, cw = 0, ce = 0\<rparr>
     \<lparr>txbuf = (\<lambda>_. 0), tx_w = 0, tx_r = 0, thr_room = 0, sent = [], rx = []\<rparr> (\<lambda>_. 0) (\<lambda>_. 0))"

text \<open>Process 1 runs and sleeps in \<open>wait\<close>; its child, process 2, runs on the same CPU and exits.\<close>

definition run0 :: fsys where
  "run0 = blank_fs [blank_proc, blank_proc\<lparr>pstate := RUNNABLE, pid := 1\<rparr>, blank_proc\<lparr>pstate := RUNNABLE, pid := 2, parent := Some 1\<rparr>]"

definition run1 :: fsys where "run1 = dispatch (\<lambda>_ s. s) mark 1 run0"
definition run2 :: fsys where "run2 = sleep_enter 1 (ProcChan 1) run1"
definition run3 :: fsys where "run3 = dispatch (\<lambda>_ s. s) mark 2 run2"
definition run4 :: fsys where "run4 = exit_zombie 2 0 run3"

lemma run0_idle: "\<forall>p<NPROC. pstate (procs run0 p) \<in> {UNUSED, RUNNABLE}"
  by (auto simp: run0_def blank_fs_def pst.defs demo_sys_def table_of_def blank_proc_def less_Suc_eq nth_Cons split: nat.splits)

lemma run_wait: "wait 1 0 run1 = Ok (None, run2)"
proof -
  have "find (\<lambda>q. parent (procs run1 q) = Some 1 \<and> pstate (procs run1 q) = ZOMBIE) [0..<NPROC] = None"
    "find (\<lambda>q. parent (procs run1 q) = Some 1) [0..<NPROC] = Some 2" "killed_flag (procs run1 1) = 0"
    by code_simp+
  then show ?thesis by (simp add: wait_def wait_sleep_def run2_def)
qed

lemma run_facts:
  "runnable run0 1" "runnable run2 2" "initproc run3 = Some 0" "parent (procs run4 2) = Some 1"
  "pstate (procs run4 2) = ZOMBIE" "pstate (procs run2 1) = SLEEPING"
  by code_simp+

lemma run1_reach: "preach filedup idup (run1, (\<lambda>_. None)(0 := Some 1))"
  unfolding run1_def
  by (rule preach.step[OF preach.start[OF run0_idle] pstep.run]) (simp_all add: run_facts[simplified] NPROC_def)

lemma idle_cpu: "((\<lambda>_. None)(0 := Some p))(0 := None) = (\<lambda>_. None)"
  by auto

lemma run4_reach: "preach filedup idup (run4, (\<lambda>_. None))"
proof -
  have "preach filedup idup (run2, ((\<lambda>_. None)(0 := Some 1))(0 := None))"
    by (rule preach.step[OF run1_reach pstep.wait_sleeps[OF _ run_wait]]) simp
  then have 2: "preach filedup idup (run2, (\<lambda>_. None))" unfolding idle_cpu .
  have 3: "preach filedup idup (run3, (\<lambda>_. None)(0 := Some 2))" unfolding run3_def
    by (rule preach.step[OF 2 pstep.run]) (simp_all add: run_facts[simplified] NPROC_def)
  have "preach filedup idup (run4, ((\<lambda>_. None)(0 := Some 2))(0 := None))" unfolding run4_def
    by (rule preach.step[OF 3 pstep.exits]) (simp_all add: run_facts[simplified])
  then show ?thesis unfolding idle_cpu .
qed

section \<open>Properties\<close>



text \<open>C23: Under every such interleaving no parent is asleep in \<open>wait\<close> while one of its children is a
  zombie: the wakeup by the child's \<open>exit\<close> is never lost, also for children handed to \<open>init\<close>.\<close>

theorem wait_never_misses_zombie:
  assumes "preach filedup idup (s, cpus)" "p < NPROC" "q < NPROC"
    "parent (procs s q) = Some p" "pstate (procs s q) = ZOMBIE"
  shows "\<not> (pstate (procs s p) = SLEEPING \<and> chan (procs s p) = ProcChan p)"
  using files.preach_inv[OF assms(1)] assms(2-) by (auto simp: wait_inv_def in_wait_def)

theorem wait_never_misses_zombie_witness:
  "pstate (procs run2 1) = SLEEPING \<and> \<not> (pstate (procs run4 1) = SLEEPING \<and> chan (procs run4 1) = ProcChan 1)"
  using wait_never_misses_zombie[OF run4_reach, of 1 2] run_facts by (simp add: NPROC_def)

end
