(* ===== verification/Ring.thy ===== *)
theory Ring
  imports Prelude
begin

text \<open>
  Ring buffers with free-running counters.  The pipe, the UART's transmit buffer and the console's
  input buffer keep bytes in an array of \<open>cap\<close> slots; the counters run over the whole range of
  their machine word and wrap around, and a slot is a counter modulo \<open>cap\<close>.  \<open>ring\<close> is the queue
  such a buffer stands for.  The locale \<open>byte_queue\<close> is the contract of a bounded first-in
  first-out queue.
\<close>

definition ring :: "nat \<Rightarrow> (nat \<Rightarrow> 'b) \<Rightarrow> 'l::len word \<Rightarrow> 'l word \<Rightarrow> 'b list" where
  "ring cap d r w = map (\<lambda>i. d (unat (r + of_nat i) mod cap)) [0..<unat (w - r)]"

lemma length_ring [simp]: "length (ring cap d r w) = unat (w - r)"
  by (simp add: ring_def)

lemma ring_empty: "ring cap d r w = [] \<longleftrightarrow> w = r"
  by (simp add: ring_def unat_eq_0)

lemma ring_nil [simp]: "ring cap d r r = []"
  by (simp add: ring_def)

lemma unat_counter_pred:
  assumes "w \<noteq> r" shows "unat (w - r) = Suc (unat (w - r - 1))"
proof -
  have nz: "w - r \<noteq> 0" using assms by simp
  then have "0 < unat (w - r)" by (simp only: unat_gt_0) simp
  with unat_minus_one[OF nz] show ?thesis by linarith
qed

lemma ring_first:
  assumes "w \<noteq> r" shows "ring cap d r w = d (unat r mod cap) # ring cap d (r + 1) w"
proof -
  have n: "unat (w - r) = Suc (unat (w - (r + 1)))" using unat_counter_pred[OF assms] by (simp only: diff_diff_add)
  show ?thesis unfolding ring_def n by (simp add: map_upt_Suc add.assoc[symmetric] del: upt_Suc)
qed

text \<open>Two counters less than \<open>cap\<close> apart use different slots, also across the wrap-around.\<close>

lemma ring_slot_inj:
  fixes r :: "'l::len word"
  assumes "cap dvd 2 ^ LENGTH('l)" "i < cap" "j < cap" "unat (r + of_nat i) mod cap = unat (r + of_nat j) mod cap"
  shows "i = j"
proof -
  have m: "unat (r + of_nat k) mod cap = (unat r + k) mod cap" for k :: nat
    by (simp add: unat_word_ariths(1) unat_of_nat mod_add_right_eq mod_mod_cancel[OF assms(1)])
  have eq: "(unat r + i) mod cap = (unat r + j) mod cap" using assms(4) by (simp add: m)
  have "a = b" if "a \<le> b" "b < cap" "(unat r + a) mod cap = (unat r + b) mod cap" for a b :: nat
  proof -
    from that have "cap dvd (unat r + b) - (unat r + a)" by (metis mod_eq_dvd_iff_nat nat_add_left_cancel_le)
    then show ?thesis using that(1,2) nat_dvd_not_less[of "b - a" cap] by (cases "a = b") auto
  qed
  from this[of i j] this[of j i] eq assms(2,3) show ?thesis by (cases "i \<le> j") auto
qed

lemma unat_counter_Suc:
  fixes r :: "'l::len word"
  assumes "unat (w - r) < cap" "cap < 2 ^ LENGTH('l)"
  shows "unat (w + 1 - r) = Suc (unat (w - r))"
proof -
  have "Suc (unat (w - r)) < 2 ^ LENGTH('l)" using assms by linarith
  moreover have "w + 1 - r = (w - r) + 1" by simp
  ultimately show ?thesis by (simp only: unat_word_ariths(1) unat_1) simp
qed

lemma ring_put:
  fixes r :: "'l::len word"
  assumes c: "cap dvd 2 ^ LENGTH('l)" "cap < 2 ^ LENGTH('l)" and l: "unat (w - r) < cap"
  shows "ring cap (d(unat w mod cap := x)) r (w + 1) = ring cap d r w @ [x]"
proof -
  let ?n = "unat (w - r)"
  have "of_nat ?n = w - r" by (simp only: of_nat_unat ucast_id)
  then have w: "w = r + of_nat ?n" by simp
  have "(d(unat w mod cap := x)) (unat (r + of_nat i) mod cap) = d (unat (r + of_nat i) mod cap)" if "i < ?n" for i
    using ring_slot_inj[OF c(1) less_trans[OF that l] l, of r] that unfolding w[symmetric] by auto
  moreover have "(d(unat w mod cap := x)) (unat (r + of_nat ?n) mod cap) = x" unfolding w[symmetric] by simp
  ultimately show ?thesis unfolding ring_def unat_counter_Suc[OF l c(2)] upt_Suc_append[OF le0] map_append list.map
    by (simp only: append_same_eq) (rule map_cong[OF refl], simp only: set_upt atLeastLessThan_iff)
qed

lemma ring_unput:
  fixes r :: "'l::len word"
  assumes "w \<noteq> r" shows "ring cap d r w = ring cap d r (w - 1) @ [d (unat (w - 1) mod cap)]"
proof -
  have n: "unat (w - r) = Suc (unat (w - 1 - r))" using unat_counter_pred[OF assms] by (simp only: diff_right_commute)
  have "of_nat (unat (w - 1 - r)) = w - 1 - r" by (simp only: of_nat_unat ucast_id)
  then have w: "r + of_nat (unat (w - 1 - r)) = w - 1" by simp
  show ?thesis unfolding ring_def n upt_Suc_append[OF le0] map_append list.map w ..
qed

lemma ring_full:
  fixes r :: "'l::len word"
  assumes "cap < 2 ^ LENGTH('l)" shows "w = r + of_nat cap \<longleftrightarrow> unat (w - r) = cap"
proof
  assume "w = r + of_nat cap"
  then show "unat (w - r) = cap" using assms by (simp add: unat_of_nat)
next
  assume "unat (w - r) = cap"
  then have "w - r = of_nat cap" by (simp only: of_nat_unat ucast_id flip: \<open>unat (w - r) = cap\<close>)
  then show "w = r + of_nat cap" by (simp add: algebra_simps)
qed

lemma ring_split:
  fixes d :: "nat \<Rightarrow> 'b"
  assumes "unat (e - r) = unat (w - r) + unat (e - w)"
  shows "ring cap d r e = ring cap d r w @ ring cap d w e"
proof -
  have "of_nat (unat (w - r)) = w - r" by (simp only: of_nat_unat ucast_id)
  then have w: "r + of_nat (unat (w - r)) = w" by simp
  have "map f [a..<a + n] = map (\<lambda>i. f (a + i)) [0..<n]" for f :: "nat \<Rightarrow> 'b" and a n
    by (rule nth_equalityI) simp_all
  then show ?thesis unfolding ring_def assms upt_add_eq_append[OF le0] map_append
    by (simp only: of_nat_add add.assoc[symmetric] w add_0)
qed

section \<open>Bounded queues\<close>

locale byte_queue =
  fixes cap :: nat and ok full empty :: "'q \<Rightarrow> bool" and content :: "'q \<Rightarrow> u8 list"
    and put :: "u8 \<Rightarrow> 'q \<Rightarrow> 'q" and front :: "'q \<Rightarrow> u8" and drop1 :: "'q \<Rightarrow> 'q"
  assumes bounded: "ok q \<Longrightarrow> length (content q) \<le> cap"
    and full_iff: "ok q \<Longrightarrow> full q \<longleftrightarrow> length (content q) = cap"
    and empty_iff: "ok q \<Longrightarrow> empty q \<longleftrightarrow> content q = []"
    and put_ok: "ok q \<Longrightarrow> \<not> full q \<Longrightarrow> ok (put c q)"
    and put_content: "ok q \<Longrightarrow> \<not> full q \<Longrightarrow> content (put c q) = content q @ [c]"
    and drop_ok: "ok q \<Longrightarrow> \<not> empty q \<Longrightarrow> ok (drop1 q)"
    and drop_content: "ok q \<Longrightarrow> \<not> empty q \<Longrightarrow> content q = front q # content (drop1 q)"
begin

text \<open>Putting bytes while there is room appends them in order.\<close>

lemma put_all:
  "ok q \<Longrightarrow> length (content q) + length bs \<le> cap \<Longrightarrow> ok (fold put bs q) \<and> content (fold put bs q) = content q @ bs"
proof (induction bs arbitrary: q)
  case (Cons b bs)
  then have "\<not> full q" by (simp add: full_iff)
  with Cons show ?case by (simp add: put_ok put_content)
qed simp

text \<open>Taking bytes out returns them in the order in which they went in.\<close>

lemma drop_all:
  "ok q \<Longrightarrow> n \<le> length (content q) \<Longrightarrow> ok ((drop1 ^^ n) q) \<and> content ((drop1 ^^ n) q) = drop n (content q)"
proof (induction n arbitrary: q)
  case (Suc n)
  then have ne: "\<not> empty q" by (auto simp: empty_iff)
  from Suc.IH[OF drop_ok[OF Suc.prems(1) ne]] Suc.prems drop_content[OF Suc.prems(1) ne] show ?case
    by (simp add: funpow_Suc_right del: funpow.simps)
qed simp

text \<open>After a put a queue is not empty, after a drop it is not full: neither side waits forever.\<close>

lemma put_not_empty: "ok q \<Longrightarrow> \<not> full q \<Longrightarrow> \<not> empty (put c q)"
  by (simp add: empty_iff put_ok put_content)

lemma drop_not_full: "ok q \<Longrightarrow> \<not> empty q \<Longrightarrow> \<not> full (drop1 q)"
  using drop_content[of q] bounded[of q] by (auto simp: full_iff drop_ok)

end

end
