(* ===== verification/Pipes.thy ===== *)
theory Pipes
  imports Sharing Ring Cow
begin

text \<open>
  A pipe is a bounded first-in first-out queue of bytes: \<open>pipewrite\<close> appends bytes of the writer's
  address space, \<open>piperead\<close> takes bytes from the front, and the counters may wrap around.
\<close>

section \<open>One byte to and from user space\<close>

text \<open>The byte a process sees at a user address, if the page is mapped for user access.\<close>

definition user_byte :: "u64 \<Rightarrow> 'a st \<Rightarrow> u64 \<Rightarrow> u8 option" where
  "user_byte pt s va = (case walkaddr pt (PGROUNDDOWN va) s of
     Ok pa \<Rightarrow> if pa = 0 then None else Some (pm s (pa + (va - PGROUNDDOWN va))) | Panic _ \<Rightarrow> None)"

lemma walk_loop_pm:
  "pm s = pm s' \<Longrightarrow> \<exists>e. walk_loop l pt va False s = Ok (e, s) \<and> walk_loop l pt va False s' = Ok (e, s')"
  for s :: "'a st" and s' :: "'b st"
  by (induction l arbitrary: pt) (auto simp: Let_def ld_def)

lemma walkaddr_pm: "pm s = pm s' \<Longrightarrow> \<exists>pa. walkaddr pt va s = Ok pa \<and> walkaddr pt va s' = Ok pa"
  for s :: "'a st" and s' :: "'b st"
  using walk_loop_pm[of s s' 2 pt va] by (auto simp: walkaddr_def walk_def ld_def)

lemma user_byte_pm: "pm s = pm s' \<Longrightarrow> user_byte pt s va = user_byte pt s' va"
  for s :: "'a st" and s' :: "'b st"
  using walkaddr_pm[of s s' pt "PGROUNDDOWN va"] by (auto simp: user_byte_def)

lemma chunk_1 [simp]: "chunk va 1 = 1"
proof -
  have "unat va mod 4096 < 4096" by simp
  then have "unat (chunk va 1) = unat (1 :: u64)" by (simp only: unat_chunk) simp
  then show ?thesis by (simp only: word_unat_eq_iff)
qed

lemma memmove_1: "memmove m dst src 1 = m(dst := m src)"
proof -
  have "\<not> (src < dst \<and> src + ucast (1 :: u32) > dst)"
    using inc_le[of src dst] by auto
  then show ?thesis by (simp add: memmove_def)
qed

lemma copyin_byte:
  "copyin pt a va 1 s = (case user_byte pt s va of None \<Rightarrow> Ok (-1, s) | Some b \<Rightarrow> Ok (0, s\<lparr>pm := (pm s)(a := b)\<rparr>))"
proof -
  obtain pa where "walkaddr pt (PGROUNDDOWN va) s = Ok pa" using walkaddr_pm[of s s] by blast
  then show ?thesis
    by (simp add: copyin_def copyin_loop.simps[of pt a] copyin_loop.simps[of pt _ _ 0] user_byte_def memmove_1)
qed

section \<open>The queue\<close>

definition pipe_content :: "pipe \<Rightarrow> u8 list" where
  "pipe_content p = ring PIPESIZE (pdata p) (nread p) (nwrite p)"

definition pipe_ok :: "pipe \<Rightarrow> bool" where
  "pipe_ok p \<longleftrightarrow> unat (nwrite p - nread p) \<le> PIPESIZE"

interpretation pipeq: byte_queue PIPESIZE pipe_ok pipe_full pipe_empty pipe_content pipe_put pipe_front pipe_take
proof
  fix q c
  have cap: "PIPESIZE dvd 2 ^ LENGTH(32)" "PIPESIZE < 2 ^ LENGTH(32)" by (simp_all add: PIPESIZE_def)
  assume ok: "pipe_ok q"
  show "length (pipe_content q) \<le> PIPESIZE" using ok by (simp add: pipe_content_def pipe_ok_def)
  show full: "pipe_full q = (length (pipe_content q) = PIPESIZE)"
    by (simp only: pipe_full_def ring_full[OF cap(2)] pipe_content_def length_ring)
  show "pipe_empty q = (pipe_content q = [])" by (auto simp: pipe_empty_def pipe_content_def ring_empty)
  { assume "\<not> pipe_full q"
    then have l: "unat (nwrite q - nread q) < PIPESIZE" using ok full by (simp add: pipe_content_def pipe_ok_def)
    show "pipe_ok (pipe_put c q)" using l unat_counter_Suc[OF l cap(2)] by (simp add: pipe_ok_def pipe_put_def)
    show "pipe_content (pipe_put c q) = pipe_content q @ [c]"
      using ring_put[OF cap l] by (simp add: pipe_content_def pipe_put_def) }
  { assume "\<not> pipe_empty q"
    then have ne: "nwrite q \<noteq> nread q" by (simp add: pipe_empty_def)
    show "pipe_ok (pipe_take q)" using ok unat_counter_pred[OF ne]
      by (simp add: pipe_ok_def pipe_take_def diff_diff_add)
    show "pipe_content q = pipe_front q # pipe_content (pipe_take q)"
      using ring_first[OF ne] by (simp add: pipe_content_def pipe_take_def pipe_front_def) }
qed

section \<open>Writing and reading\<close>

lemma fs_simps [simp]:
  "pm (piupd pi f s) = pm s" "mypt (piupd pi f s) = mypt s" "obj_at (piupd pi f s) = obj_at s"
  "pipes (piupd pi f s) = (pipes s)(pi := f (pipes s pi))"
  "pm (wake_chan ch s) = pm s" "mypt (wake_chan ch s) = mypt s" "pipes (wake_chan ch s) = pipes s"
  "pm (sleep_enter p ch s) = pm s" "mypt (sleep_enter p ch s) = mypt s" "pipes (sleep_enter p ch s) = pipes s"
  "mypt (s\<lparr>pm := m\<rparr>) = mypt s"
  by (simp_all add: piupd_def wake_chan_def wakeup_def sleep_enter_def pupd_def mypt_def wake_def Let_def)

text \<open>The kernel variable at address \<open>a\<close> is not part of what the process sees.\<close>

definition hidden :: "u64 \<Rightarrow> u64 \<Rightarrow> 'a st \<Rightarrow> bool" where
  "hidden pt a s \<longleftrightarrow> (\<forall>va v. user_byte pt (s\<lparr>pm := (pm s)(a := v)\<rparr>) va = user_byte pt s va)"

lemma hidden_set:
  assumes "hidden pt a s" "pm s' = (pm s)(a := v)"
  shows "user_byte pt s' va = user_byte pt s va" "hidden pt a s'"
proof -
  have eq: "user_byte pt s1 va = user_byte pt s va" if "pm s1 = (pm s)(a := w)" for s1 :: "'c st" and w va
    using assms(1) user_byte_pm[of s1 "s\<lparr>pm := (pm s)(a := w)\<rparr>" pt va] that by (simp add: hidden_def)
  then show "user_byte pt s' va = user_byte pt s va" using assms(2) by blast
  show "hidden pt a s'" unfolding hidden_def using eq[of "s'\<lparr>pm := (pm s')(a := _)\<rparr>"] eq[OF assms(2)] assms(2) by simp
qed

text \<open>What a run of the loop of \<open>pipewrite\<close> from byte \<open>i\<close> with \<open>k\<close> bytes left has done with the bytes \<open>bs\<close>.\<close>

definition wrote :: "u64 \<Rightarrow> u64 \<Rightarrow> nat \<Rightarrow> nat \<Rightarrow> 'a fs \<Rightarrow> pipe_out \<Rightarrow> 'a fs \<Rightarrow> u8 list \<Rightarrow> bool" where
  "wrote pi addr i k s out s' bs \<longleftrightarrow>
     pipe_ok (pipes s' pi) \<and> pipe_content (pipes s' pi) = pipe_content (pipes s pi) @ bs \<and>
     (\<forall>q. q \<noteq> pi \<longrightarrow> pipes s' q = pipes s q) \<and> length bs \<le> k \<and>
     map Some bs = map (\<lambda>j. user_byte (mypt s) s (addr + of_nat j)) [i..<i + length bs] \<and>
     (case out of
        Returns v \<Rightarrow> v = -1 \<or> v = of_nat (i + length bs) \<and>
          (length bs = k \<or> user_byte (mypt s) s (addr + of_nat (i + length bs)) = None)
      | Sleeps j \<Rightarrow> j = i + length bs \<and> length bs < k \<and> pipe_full (pipes s' pi))"

lemma pipewrite_loop_wrote:
  assumes "pipe_ok (pipes s pi)" "hidden (mypt s) (obj_at s ''pipewrite.ch'') s"
  shows "\<exists>out s' bs. pipewrite_loop pi addr i k s = Ok (out, s') \<and> wrote pi addr i k s out s' bs"
  using assms
proof (induction k arbitrary: i s)
  case 0
  then show ?case by (auto simp: wrote_def)
next
  case (Suc k)
  let ?a = "obj_at s ''pipewrite.ch''" and ?va = "addr + of_nat i"
  show ?case
  proof (cases "readopen (pipes s pi) \<and> killed (cur s) s = 0 \<and> \<not> pipe_full (pipes s pi)")
    case False
    then show ?thesis using Suc.prems by (auto simp: wrote_def intro!: exI[of _ "[]"])
  next
    case go: True
    show ?thesis
    proof (cases "user_byte (mypt s) s ?va")
      case None
      then show ?thesis using Suc.prems go by (auto simp: wrote_def copyin_byte Let_def intro!: exI[of _ "[]"])
    next
      case (Some b)
      define s1 where "s1 = piupd pi (pipe_put b) (s\<lparr>pm := (pm s)(?a := b)\<rparr>)"
      have u: "user_byte (mypt s) s1 va = user_byte (mypt s) s va" for va
        by (rule hidden_set(1)[OF Suc.prems(2), of _ b]) (simp add: s1_def)
      have s1: "mypt s1 = mypt s" "obj_at s1 = obj_at s" "pipes s1 = (pipes s)(pi := pipe_put b (pipes s pi))"
        by (simp_all add: s1_def)
      have "hidden (mypt s1) (obj_at s1 ''pipewrite.ch'') s1"
        unfolding s1 by (rule hidden_set(2)[OF Suc.prems(2), of _ b]) (simp add: s1_def)
      moreover have "pipe_ok (pipes s1 pi)" using pipeq.put_ok go Suc.prems(1) by (simp add: s1)
      ultimately obtain out s' bs where r: "pipewrite_loop pi addr (Suc i) k s1 = Ok (out, s')" "wrote pi addr (Suc i) k s1 out s' bs"
        using Suc.IH by blast
      have "wrote pi addr i (Suc k) s out s' (b # bs)"
        using r(2) pipeq.put_content[OF Suc.prems(1), of b] go Some
        by (auto simp: wrote_def s1 u upt_conv_Cons simp del: upt_Suc split: pipe_out.splits)
      with r(1) go Some show ?thesis by (auto simp: copyin_byte Let_def s1_def)
    qed
  qed
qed

lemma more_fsys:
  assumes "kst.more s' = kst.more (s :: 'a fs)"
  shows "pipes s' = pipes s" "cur s' = cur s" "files s' = files s" "obj_at s' = obj_at s" "mypt s' = mypt s"
  using assms by (cases s, cases s', simp add: mypt_def)+

text \<open>
  What a run of the loop of \<open>piperead\<close> with \<open>k\<close> bytes wanted has taken out of the pipe: \<open>bs\<close>, and a
  byte that is lost when copying it to the reader fails.
\<close>

definition others_same :: "u64 \<Rightarrow> 'a fs \<Rightarrow> 'a fs \<Rightarrow> bool" where
  "others_same pi s s' \<longleftrightarrow> (\<forall>q. q \<noteq> pi \<longrightarrow> pipes s' q = pipes s q)"

lemma others_same_trans: "others_same pi s s1 \<Longrightarrow> others_same pi s1 s' \<Longrightarrow> others_same pi s s'"
  by (simp add: others_same_def)

definition took :: "u64 \<Rightarrow> nat \<Rightarrow> 'a fs \<Rightarrow> 'a fs \<Rightarrow> u8 list \<Rightarrow> u8 list \<Rightarrow> bool" where
  "took pi k s s' bs lost \<longleftrightarrow>
     pipe_ok (pipes s' pi) \<and> others_same pi s s' \<and>
     pipe_content (pipes s pi) = bs @ lost @ pipe_content (pipes s' pi) \<and> length lost \<le> 1 \<and> length (bs @ lost) \<le> k \<and>
     (lost = [] \<longrightarrow> length bs = k \<or> pipe_content (pipes s' pi) = [])"

lemma took_Cons:
  assumes "pipe_content (pipes s pi) = b # pipe_content (pipes s1 pi)" "others_same pi s s1" "took pi k s1 s' bs lost"
  shows "took pi (Suc k) s s' (b # bs) lost"
  using assms others_same_trans[OF assms(2)] by (simp add: took_def)

lemma took_lost:
  assumes "pipe_content (pipes s pi) = b # pipe_content (pipes s1 pi)" "others_same pi s s1" "pipe_ok (pipes s1 pi)"
  shows "took pi (Suc k) s s1 [] [b]"
  using assms by (simp add: took_def)

lemma piperead_loop_took:
  assumes "pipe_ok (pipes s pi)" "piperead_loop pi addr i k s = Ok (j, s')"
  shows "\<exists>bs lost. took pi k s s' bs lost \<and> j = i + length bs"
  using assms
proof (induction k arbitrary: i s)
  case 0
  then show ?case by (auto simp: took_def others_same_def)
next
  case (Suc k)
  show ?case
  proof (cases "pipe_empty (pipes s pi)")
    case True
    then show ?thesis using Suc.prems pipeq.empty_iff[OF Suc.prems(1)] by (auto simp: took_def others_same_def)
  next
    case ne: False
    define s0 where "s0 = piupd pi pipe_take s"
    define s1 where "s1 = s0\<lparr>pm := (pm s0)(obj_at s ''piperead.ch'' := pipe_front (pipes s pi))\<rparr>"
    from Suc.prems(2) ne obtain r s2 where c: "copyout (mypt s0) (addr + of_nat i) (obj_at s ''piperead.ch'') 1 s1 = Ok (r, s2)"
        and k: "(if r = -1 then Ok (i, s2) else piperead_loop pi addr (Suc i) k s2) = Ok (j, s')"
      by (auto simp: Let_def res_simps s0_def s1_def)
    have p2: "pipes s2 = (pipes s)(pi := pipe_take (pipes s pi))"
      using more_fsys(1)[OF copyout_more[OF c]] by (simp add: s1_def s0_def)
    have ok2: "pipe_ok (pipes s2 pi)" using pipeq.drop_ok[OF Suc.prems(1) ne] by (simp add: p2)
    have cont: "pipe_content (pipes s pi) = pipe_front (pipes s pi) # pipe_content (pipes s2 pi)"
      using pipeq.drop_content[OF Suc.prems(1) ne] by (simp add: p2)
    have oth: "others_same pi s s2" by (simp add: p2 others_same_def)
    show ?thesis
    proof (cases "r = -1")
      case True
      then have e: "j = i" "s' = s2" using k by simp_all
      have "took pi (Suc k) s s' [] [pipe_front (pipes s pi)] \<and> j = i + length []"
        unfolding e using took_lost[OF cont oth ok2] by simp
      then show ?thesis by blast
    next
      case False
      then obtain bs lost where "took pi k s2 s' bs lost" "j = Suc i + length bs" using k Suc.IH[OF ok2, of "Suc i"] by auto
      then have "took pi (Suc k) s s' (pipe_front (pipes s pi) # bs) lost \<and> j = i + length (pipe_front (pipes s pi) # bs)"
        using took_Cons[OF cont oth] by simp
      then show ?thesis by blast
    qed
  qed
qed

section \<open>An address space\<close>

text \<open>
  A one-page address space at 0 to 4095: its page, at physical address \<open>0x1000\<close>, is its page table as
  well, and holds an entry that maps itself.
\<close>

definition self_mem :: mem where
  "self_mem a = (if a = 0x1000 then 0x13 else if a = 0x1001 then 4
     else if 0x1008 \<le> a \<and> a < 0x2000 then 2 * ucast a else 0)"

definition self_sys :: fsys where
  "self_sys = (blank_fs [blank_proc\<lparr>pstate := RUNNING, pagetable := 0x1000\<rparr>])
     \<lparr>pm := self_mem, obj_at := (\<lambda>_. 0x9000), pipes := (\<lambda>_.
       \<lparr>pdata = (\<lambda>i. of_nat i), nread = -3, nwrite = -2, readopen = True, writeopen = True\<rparr>)\<rparr>"

lemma self_addr:
  assumes "k < 4096" shows "unat (0x1000 + of_nat k :: u64) = 4096 + k"
  using assms by (simp add: unat_word_ariths(1) unat_of_nat)

lemma self_slot:
  assumes m: "m = self_mem(0x9000 := v)" and n: "n < 512"
  shows "load64 m (0x1000 + 8 * of_nat n) = (if n = 0 then 0x413 else load64 self_mem (0x1000 + 8 * of_nat n))"
    and "n \<noteq> 0 \<Longrightarrow> \<not> has (load64 m (0x1000 + 8 * of_nat n)) PTE_V"
proof -
  have a: "0x1000 + 8 * of_nat n + of_nat i = (0x1000 + of_nat (8 * n + i) :: u64)" for i by simp
  have "load64 m (0x1000 + 8 * of_nat n) = load64 self_mem (0x1000 + 8 * of_nat n)"
  proof (rule load64_cong)
    fix i :: nat assume "i < 8"
    then have "unat (0x1000 + of_nat (8 * n + i) :: u64) = 4096 + (8 * n + i)" using n by (intro self_addr) simp
    then have "0x1000 + of_nat (8 * n + i) \<noteq> (0x9000 :: u64)" using n \<open>i < 8\<close> by (auto simp: word_unat_eq_iff)
    then show "m (0x1000 + 8 * of_nat n + of_nat i) = self_mem (0x1000 + 8 * of_nat n + of_nat i)" unfolding a m by simp
  qed
  moreover have "load64 self_mem 0x1000 = 0x413" by code_simp
  ultimately show l: "load64 m (0x1000 + 8 * of_nat n) = (if n = 0 then 0x413 else load64 self_mem (0x1000 + 8 * of_nat n))"
    by simp
  assume "n \<noteq> 0"
  moreover have u: "unat (0x1000 + of_nat (8 * n) :: u64) = 4096 + 8 * n" using n by (intro self_addr) simp
  ultimately have "\<not> bit (self_mem (0x1000 + of_nat (8 * n))) 0"
    using n by (auto simp: self_mem_def word_le_nat_alt word_less_nat_alt bit_0 word_unat_eq_iff simp del: of_nat_mult)
  then show "\<not> has (load64 m (0x1000 + 8 * of_nat n)) PTE_V"
    using \<open>n \<noteq> 0\<close> unfolding has_bit l by (simp add: bit_load64)
qed

lemma self_walk_loop:
  assumes "pm s = self_mem(0x9000 := v)"
  shows "walk_loop l 0x1000 va False s = Ok (if \<forall>i\<in>{1..l}. PX i va = 0 then 0x1000 + 8 * PX 0 va else 0, s)"
proof (induction l)
  case (Suc l)
  have n: "PX (Suc l) va = of_nat (unat (PX (Suc l) va))" "unat (PX (Suc l) va) < 512" using PX_less[of "Suc l" va] by auto
  show ?case
  proof (cases "PX (Suc l) va = 0")
    case True
    have "PTE2PA 0x413 = 0x1000" "has 0x413 PTE_V" by code_simp+
    with True Suc self_slot(1)[OF assms, of 0] show ?thesis by (auto simp: ld_def Let_def le_Suc_eq)
  next
    case False
    then have "unat (PX (Suc l) va) \<noteq> 0" by (simp add: unat_eq_0)
    with self_slot(2)[OF assms n(2)] n(1) False show ?thesis by (auto simp: ld_def Let_def intro!: bexI[of _ "Suc l"])
  qed
qed simp

lemma self_user_byte:
  assumes "pm s = self_mem(0x9000 := v)"
  shows "user_byte 0x1000 s va = (if PGROUNDDOWN va < MAXVA \<and> (\<forall>i\<in>{0..2}. PX i (PGROUNDDOWN va) = 0)
    then Some (self_mem (0x1000 + (va - PGROUNDDOWN va))) else None)"
proof -
  let ?p = "PGROUNDDOWN va"
  have c: "PTE2PA 0x413 = 0x1000" "has 0x413 PTE_V" "has 0x413 PTE_U" by code_simp+
  have i: "{0..2::nat} = insert 0 {1..2}" by auto
  have n: "PX 0 ?p = of_nat (unat (PX 0 ?p))" "unat (PX 0 ?p) < 512" using PX_less[of 0 ?p] by auto
  have leaf: "\<not> has (load64 (pm s) (0x1000 + 8 * PX 0 ?p)) PTE_V" if "PX 0 ?p \<noteq> 0"
    using self_slot(2)[OF assms n(2)] n(1) that by (simp add: unat_eq_0)
  have nz: "(0x1000 + 8 * PX 0 ?p :: u64) \<noteq> 0"
    using self_addr[of "8 * unat (PX 0 ?p)"] n(2) by auto
  have "va - ?p = of_nat (unat (va - ?p))" by (simp only: of_nat_unat ucast_id)
  then have "unat (0x1000 + (va - ?p)) = 4096 + unat va mod 4096"
    using self_addr[of "unat va mod 4096"] by (simp only: unat_page_offset)
  then have far: "0x1000 + (va - ?p) \<noteq> 0x9000" using mod_less_divisor[of 4096 "unat va"] by (auto simp del: mod_less_divisor)
  show ?thesis
    using self_walk_loop[OF assms, of 2 ?p] self_slot(1)[OF assms, of 0] leaf nz far
    by (auto simp: user_byte_def walkaddr_def walk_def i ld_def c assms not_le)
qed

lemma self_hidden: "hidden (mypt self_sys) (obj_at self_sys ''pipewrite.ch'') self_sys"
proof -
  have m: "mypt self_sys = 0x1000" "obj_at self_sys ''pipewrite.ch'' = 0x9000" by code_simp+
  have s: "pm self_sys = self_mem(0x9000 := 0)" by (simp add: self_sys_def self_mem_def fun_eq_iff)
  have "pm (self_sys\<lparr>pm := (pm self_sys)(0x9000 := v)\<rparr>) = self_mem(0x9000 := v)" for v by (simp add: s)
  from self_user_byte[OF this] self_user_byte[OF s] show ?thesis by (simp only: hidden_def m) simp
qed

lemma self_pipe_ok: "pipe_ok (pipes self_sys 5)"
  by (simp add: self_sys_def pipe_ok_def PIPESIZE_def)

text \<open>Reading into page 0, which \<open>copyout\<close> refuses, returns 0 and loses a byte.\<close>

lemma self_read: "\<exists>s'. piperead 5 100 1 self_sys = Ok (Returns 0, s') \<and> pipe_content (pipes s' 5) = []"
proof -
  have z: "PGROUNDDOWN 100 = 0" "MAXVA \<noteq> 0" by code_simp+
  have "pipe_content (pipe_take (pipes self_sys 5)) = []"
    by (simp add: self_sys_def pipe_take_def pipe_content_def ring_empty)
  moreover have "\<not> pipe_empty (pipes self_sys 5)" by (simp add: self_sys_def pipe_empty_def)
  ultimately show ?thesis by (simp add: piperead_def Let_def copyout_def z)
qed

section \<open>Properties\<close>





end
