(* ===== verification/Alarm.thy ===== *)
theory Alarm
  imports Trap Pipes
begin

text \<open>
  Alarms: when an alarm goes off the process continues in its handler, and \<open>sigreturn\<close> continues where the
  alarm interrupted it.
\<close>

section \<open>Facts\<close>

lemma kst_cong:
  fixes s :: "'a st" and s' :: "'b st"
  assumes "pm s' = pm s" "freelist s' = freelist s" "refs s' = refs s" "kend s' = kend s"
  shows "kinv s' = kinv s" "kpages s' = kpages s" "kcnt s' = kcnt s"
proof -
  have p: "page_ok s' q = page_ok s q" for q using assms(4) by (simp add: page_ok_def)
  show k: "kpages s' = kpages s" by (simp add: kpages_def p)
  show "kcnt s' = kcnt s" by (rule ext) (simp add: kcnt_def p assms(3))
  show "kinv s' = kinv s" by (simp add: kinv_def kmem_inv_def k p assms)
qed

lemma pupd_kst [simp]: "kinv (pupd p f s) = kinv s" "kpages (pupd p f s) = kpages s" "kcnt (pupd p f s) = kcnt s" "pm (pupd p f s) = pm s"
  by (rule kst_cong; simp add: pupd_def)+ (simp add: pupd_def)

text \<open>The bytes of a trap frame, and one of its fields.\<close>

definition frame_bytes :: "mem \<Rightarrow> u64 \<Rightarrow> u8 list" where
  "frame_bytes m a = map (\<lambda>k. m (a + of_nat k)) [0..<unat TF_SIZE]"

lemma frame_bytes_nth: "frame_bytes m a = frame_bytes m' b \<Longrightarrow> k < 288 \<Longrightarrow> m (a + of_nat k) = m' (b + of_nat k)"
  by (simp add: frame_bytes_def TF_SIZE_def)

lemma frame_field:
  assumes "frame_bytes m a = frame_bytes m' b" "c + 8 \<le> 288"
  shows "load64 m (a + of_nat c) = load64 m' (b + of_nat c)"
proof (rule load64_cong)
  fix i :: nat assume "i < 8"
  then have "m (a + of_nat (c + i)) = m' (b + of_nat (c + i))" using assms(2) by (intro frame_bytes_nth[OF assms(1)]) simp
  then show "m (a + of_nat c + of_nat i) = m' (b + of_nat c + of_nat i)" by (simp add: add.assoc)
qed

lemma page_offset:
  assumes "p \<in> kpages s" "k < 4096" shows "PGROUNDDOWN (p + of_nat k) = p"
proof -
  have "pg_aligned p" using assms(1) by (simp add: kpages_def page_ok_def)
  then show ?thesis using page_bytes[of p "p + of_nat k"] assms(2) by (simp add: unat_of_nat)
qed

lemma frame_copy:
  assumes "a \<in> kpages s" "b \<in> kpages s" "a \<noteq> b" "m' = memmove m b a TF_SIZE"
  shows "frame_bytes m' b = frame_bytes m a" "PGROUNDDOWN x \<noteq> b \<Longrightarrow> m' x = m x"
proof -
  have l: "unat a + 4096 < 2 ^ 64" "unat b + 4096 < 2 ^ 64"
    using assms(1,2) by (auto simp: kpages_def page_ok_def word_less_nat_alt PHYSTOP_nat)
  have m: "m' = copied m b a 288" using memmove_copied[of a TF_SIZE b m] l assms(4) by (simp add: TF_SIZE_def)
  show "frame_bytes m' b = frame_bytes m a" by (simp add: m frame_bytes_def copied_apply TF_SIZE_def unat_of_nat)
  assume "PGROUNDDOWN x \<noteq> b"
  moreover have "pg_aligned b" using assms(2) by (simp add: kpages_def page_ok_def)
  ultimately have "\<not> unat (x - b) < 4096" using page_bytes[of b x] by blast
  then show "m' x = m x" by (simp add: m copied_apply)
qed

lemma st_frame:
  assumes "a \<in> kpages s" "k < 512"
  shows "PGROUNDDOWN x \<noteq> a \<Longrightarrow> pm (st (a + 8 * of_nat k) v s) x = pm s x" "ld (st (a + 8 * of_nat k) v s) (a + 8 * of_nat k) = v"
  using store64_slot_page[of a k x "pm s" v] assms by (auto simp: st_def ld_def kpages_def page_ok_def load64_store64_same)

lemma kinv_st:
  assumes "kinv s" "a \<in> kpages s" "0 < kcnt s a" "\<And>x. PGROUNDDOWN x \<noteq> a \<Longrightarrow> m x = pm s x"
  shows "kinv (s\<lparr>pm := m\<rparr>)" "kpages (s\<lparr>pm := m\<rparr>) = kpages s" "kcnt (s\<lparr>pm := m\<rparr>) = kcnt s"
proof -
  show "kinv (s\<lparr>pm := m\<rparr>)" by (rule kinv_write_used[OF assms])
  have "page_ok (s\<lparr>pm := m\<rparr>) q = page_ok s q" for q by (simp add: page_ok_def)
  then show "kpages (s\<lparr>pm := m\<rparr>) = kpages s" "kcnt (s\<lparr>pm := m\<rparr>) = kcnt s" by (simp_all add: kpages_def kcnt_def fun_eq_iff)
qed

text \<open>A process whose trap frame is a page in use.\<close>

definition has_frame :: "nat \<Rightarrow> 'a fs \<Rightarrow> bool" where
  "has_frame p s \<longleftrightarrow> kinv s \<and> trapframe (procs s p) \<in> kpages s \<and> 0 < kcnt s (trapframe (procs s p))"

section \<open>The alarm and the return from it\<close>

lemma alarm_saves:
  assumes F: "has_frame p s" and due: "alarm_due (procs s p)" and room: "q \<in> kpages s" "kcnt s q = 0"
  shows "\<exists>b s'. alarm p s = Ok s' \<and> b \<in> kpages s \<and> kcnt s b = 0 \<and> kinv s' \<and> kpages s' = kpages s \<and> kcnt s' = (kcnt s)(b := 1) \<and>
    frame_bytes (pm s') b = frame_bytes (pm s) (trapframe (procs s p)) \<and>
    ld s' (trapframe (procs s p) + TF_EPC) = alarmHandler (procs s p) \<and> cur s' = cur s \<and>
    procs s' = (procs s)(p := (procs s p)\<lparr>alarmRunning := 1, backupTrapFrame := b, lastAlarm := timeRun (procs s p)\<rparr>)"
proof -
  let ?tf = "trapframe (procs s p)" and ?s0 = "pupd p (alarmRunning_update (\<lambda>_. 1)) s"
  have T: "kinv s" "?tf \<in> kpages s" "0 < kcnt s ?tf" using F by (auto simp: has_frame_def)
  from kmem_alloc_some[of ?s0 q] T(1) room obtain b s1 where k: "kalloc ?s0 = Ok (b, s1)" "b \<in> kpages s" "kcnt s b = 0" "kinv s1"
      "kpages s1 = kpages s" "kcnt s1 = (kcnt s)(b := 1)" "\<And>a. PGROUNDDOWN a \<noteq> b \<Longrightarrow> pm s1 a = pm s a" by auto
  have ne: "?tf \<noteq> b" using T(3) k(3) by auto
  have b0: "b \<noteq> 0" using k(2) T(1) by (auto simp: kpages_def page_ok_def kinv_def kmem_inv_def)
  have more: "procs s1 = procs ?s0" "cur s1 = cur s"
    using more_pst(1)[OF kalloc_more[OF k(1)]] more_fsys(2)[OF kalloc_more[OF k(1)]] by (simp_all add: pupd_def)
  define s2 where "s2 = pupd p (backupTrapFrame_update (\<lambda>_. b)) s1"
  define m where "m = memmove (pm s2) b ?tf TF_SIZE"
  have fb: "frame_bytes m b = frame_bytes (pm s1) ?tf" "\<And>x. PGROUNDDOWN x \<noteq> b \<Longrightarrow> m x = pm s1 x"
    using frame_copy[of ?tf s b m "pm s1"] T(2) k(2) ne by (simp_all add: m_def s2_def)
  define s3 where "s3 = pupd p (\<lambda>x. x\<lparr>lastAlarm := timeRun x\<rparr>) (s2\<lparr>pm := m\<rparr>)"
  define s4 where "s4 = st (?tf + 8 * of_nat 3) (alarmHandler (procs s p)) s3"
  have pr: "procs s3 = (procs s)(p := (procs s p)\<lparr>alarmRunning := 1, backupTrapFrame := b, lastAlarm := timeRun (procs s p)\<rparr>)"
    by (simp add: s3_def s2_def more pupd_def)
  have "alarm p s = Ok s4"
    using due k(1) b0 by (simp add: alarm_def Let_def s4_def s3_def m_def s2_def more pupd_def TF_EPC_def)
  moreover have k3: "kinv s3" "kpages s3 = kpages s" "kcnt s3 = (kcnt s)(b := 1)"
    using kinv_st[of s2 b m] k(2,4,5,6) fb(2) by (simp_all add: s3_def s2_def)
  moreover have m4: "PGROUNDDOWN x \<noteq> ?tf \<Longrightarrow> pm s4 x = pm s3 x" for x
    using st_frame(1)[of ?tf s3 3 x] T(2) k3(2) by (simp add: s4_def)
  have e4: "s4 = s3\<lparr>pm := pm s4\<rparr>" by (simp add: s4_def st_def)
  have tf: "?tf \<in> kpages s3" "0 < kcnt s3 ?tf" using T k3 ne by simp_all
  have "kinv (s3\<lparr>pm := pm s4\<rparr>)" "kpages (s3\<lparr>pm := pm s4\<rparr>) = kpages s3" "kcnt (s3\<lparr>pm := pm s4\<rparr>) = kcnt s3"
    by (rule kinv_st[OF k3(1) tf m4]; assumption)+
  moreover have "frame_bytes (pm s4) b = frame_bytes (pm s) ?tf"
  proof -
    have "pm s4 (b + of_nat j) = m (b + of_nat j)" if "j < 288" for j
      using m4 page_offset[OF k(2), of j] ne that by (simp add: s3_def)
    moreover have "pm s1 (?tf + of_nat j) = pm s (?tf + of_nat j)" if "j < 288" for j
      using k(7) page_offset[OF T(2), of j] ne that by simp
    ultimately show ?thesis using fb(1) by (simp add: frame_bytes_def TF_SIZE_def)
  qed
  moreover have "ld s4 (?tf + TF_EPC) = alarmHandler (procs s p)"
    using st_frame(2)[of ?tf s3 3] tf by (simp add: s4_def TF_EPC_def)
  moreover have "procs s4 = procs s3" "cur s4 = cur s" by (simp_all add: s4_def st_def s3_def s2_def more pupd_def)
  ultimately show ?thesis using k(2,3) pr e4 by (intro exI[of _ b] exI[of _ s4]) simp
qed

lemma sigreturn_restores:
  fixes s :: "'a fs" defines "tf \<equiv> mytf s" and "b \<equiv> backupTrapFrame (procs s (cur s))"
  assumes F: "has_frame (cur s) s" and B: "b \<in> kpages s" "0 < kcnt s b" "b \<noteq> tf"
  shows "\<exists>s'. sys_sigreturn s = Ok (Ret (load64 (pm s) (b + TF_A0)), s') \<and> frame_bytes (pm s') tf = frame_bytes (pm s) b \<and>
    kinv s' \<and> kpages s' = kpages s \<and> kcnt s' = (kcnt s)(b := kcnt s b - 1) \<and> cur s' = cur s \<and>
    procs s' = (procs s)(cur s := (procs s (cur s))\<lparr>alarmRunning := 0\<rparr>)"
proof -
  let ?s0 = "pupd (cur s) (alarmRunning_update (\<lambda>_. 0)) s"
  have T: "kinv s" "tf \<in> kpages s" "0 < kcnt s tf" using F by (auto simp: has_frame_def tf_def mytf_def)
  have b0: "b \<noteq> 0" using B(1) T(1) by (auto simp: kpages_def page_ok_def kinv_def kmem_inv_def)
  define m where "m = memmove (pm s) tf b TF_SIZE"
  have fb: "frame_bytes m tf = frame_bytes (pm s) b" "\<And>x. PGROUNDDOWN x \<noteq> tf \<Longrightarrow> m x = pm s x"
    using frame_copy[of b s tf m "pm s"] T(2) B by (simp_all add: m_def)
  define s1 where "s1 = ?s0\<lparr>pm := m\<rparr>"
  have k1: "kinv s1" "kpages s1 = kpages s" "kcnt s1 = kcnt s"
    using kinv_st[of ?s0 tf m] T fb(2) by (simp_all add: s1_def)
  from kmem_free_used[of s1 b] k1 B obtain s2 where k: "kfree b s1 = Ok s2" "kinv s2" "kpages s2 = kpages s"
      "kcnt s2 = (kcnt s)(b := kcnt s b - 1)" "\<And>a. PGROUNDDOWN a \<noteq> b \<Longrightarrow> pm s2 a = pm s1 a" by auto
  have more: "procs s2 = procs ?s0" "cur s2 = cur s"
    using more_pst(1)[OF kfree_more[OF k(1)]] more_fsys(2)[OF kfree_more[OF k(1)]] by (simp_all add: s1_def pupd_def)
  have fr: "frame_bytes (pm s2) tf = frame_bytes (pm s) b"
  proof -
    have "pm s2 (tf + of_nat j) = m (tf + of_nat j)" if "j < 288" for j
      using k(5) page_offset[OF T(2), of j] B(3) that by (simp add: s1_def)
    then show ?thesis using fb(1) by (simp add: frame_bytes_def TF_SIZE_def)
  qed
  have a0: "ld s2 (tf + TF_A0) = load64 (pm s) (b + TF_A0)"
    using frame_field[OF fr, of 112] by (simp add: ld_def TF_A0_def)
  have my: "mytf ?s0 = tf" "mytf s2 = tf" "backupTrapFrame (procs ?s0 (cur s)) = b"
    using more by (simp_all add: mytf_def tf_def b_def pupd_def)
  have cur: "cur ?s0 = cur s" by (simp add: pupd_def)
  have "sys_sigreturn s = Ok (Ret (load64 (pm s) (b + TF_A0)), s2)"
    using k(1) b0 a0 unfolding sys_sigreturn_def Let_def cur my by (simp add: s1_def m_def my)
  then show ?thesis using fr k(2-4) more by (intro exI[of _ s2]) (simp add: pupd_def)
qed

lemma kfree_unused:
  assumes "kinv s" "p \<in> kpages s" "kcnt s p = 0" shows "kfree p s = Panic ''kfree: ref count is 0''"
proof -
  obtain fl where fl: "kmem_inv (kpages s) s fl" using assms(1) by (auto simp: kinv_def)
  then show ?thesis using kfree_free_panics[OF fl] kcnt_zero[OF fl assms(2)] assms(3) by simp
qed

lemma sigreturn_stale:
  assumes F: "has_frame (cur s) s" and B: "backupTrapFrame (procs s (cur s)) \<in> kpages s" "kcnt s (backupTrapFrame (procs s (cur s))) = 0"
  shows "sys_sigreturn s = Panic ''kfree: ref count is 0''"
proof -
  let ?b = "backupTrapFrame (procs s (cur s))" and ?s0 = "pupd (cur s) (alarmRunning_update (\<lambda>_. 0)) s"
  have T: "kinv s" "mytf s \<in> kpages s" "0 < kcnt s (mytf s)" using F by (auto simp: has_frame_def mytf_def)
  have ne: "?b \<noteq> mytf s" using T(3) B(2) by auto
  have b0: "?b \<noteq> 0" using B(1) T(1) by (auto simp: kpages_def page_ok_def kinv_def kmem_inv_def)
  let ?m = "memmove (pm s) (mytf s) ?b TF_SIZE"
  have "kinv (?s0\<lparr>pm := ?m\<rparr>)" "kpages (?s0\<lparr>pm := ?m\<rparr>) = kpages s" "kcnt (?s0\<lparr>pm := ?m\<rparr>) = kcnt s"
    using kinv_st[of ?s0 "mytf s" ?m] T frame_copy(2)[OF B(1) T(2) ne refl] by auto
  then have "kfree ?b (?s0\<lparr>pm := ?m\<rparr>) = Panic ''kfree: ref count is 0''" using B by (intro kfree_unused) auto
  then show ?thesis using b0 by (simp add: sys_sigreturn_def Let_def mytf_def pupd_def)
qed

section \<open>A process with an alarm\<close>

text \<open>Process 0 with its trap frame in a page of the allocator, its alarm due, and four free pages.\<close>

definition demo_alarm :: fsys where
  "demo_alarm = (blank_fs [blank_proc\<lparr>pstate := RUNNING, trapframe := 0x87FFC000, alarmFreq := 3, timeRun := 5, alarmHandler := 77\<rparr>])
     \<lparr>pm := pm (demo 0), freelist := freelist (demo 0), refs := refs (demo 0), kend := kend (demo 0)\<rparr>"

lemma demo_alarm_ready: "has_frame 0 demo_alarm" "alarm_due (procs demo_alarm 0)" "0x87FFE000 \<in> kpages demo_alarm" "kcnt demo_alarm 0x87FFE000 = 0"
  "cur demo_alarm = 0"
proof -
  have k: "kinv demo_alarm = kinv (demo 0)" "kpages demo_alarm = kpages (demo 0)" "kcnt demo_alarm = kcnt (demo 0)"
    by (rule kst_cong; simp add: demo_alarm_def)+
  have p: "procs demo_alarm 0 = blank_proc\<lparr>pstate := RUNNING, trapframe := 0x87FFC000, alarmFreq := 3, timeRun := 5, alarmHandler := 77\<rparr>"
    by (simp add: demo_alarm_def blank_fs_def pst.defs demo_sys_def table_of_def)
  show "has_frame 0 demo_alarm" by (simp add: has_frame_def k p demo_kinv demo_pages demo_cnt)
  show "alarm_due (procs demo_alarm 0)" by (simp add: p alarm_due_def blank_proc_def)
  show "0x87FFE000 \<in> kpages demo_alarm" "kcnt demo_alarm 0x87FFE000 = 0" by (simp_all add: k demo_pages demo_cnt)
  show "cur demo_alarm = 0" by (simp add: demo_alarm_def blank_fs_def pst.defs fsys.defs)
qed

section \<open>Properties\<close>

text \<open>
  What the handler and the traps it takes leave alone between the alarm and \<open>sigreturn\<close>: the page that holds
  the saved trap frame, and that the process has a trap frame and that page.
\<close>

definition handler_ran :: "'a fs \<Rightarrow> 'a fs \<Rightarrow> bool" where
  "handler_ran s1 s2 \<longleftrightarrow> (let p = cur s1; b = backupTrapFrame (procs s1 p) in
     cur s2 = p \<and> trapframe (procs s2 p) = trapframe (procs s1 p) \<and> backupTrapFrame (procs s2 p) = b \<and>
     has_frame p s2 \<and> b \<in> kpages s2 \<and> 0 < kcnt s2 b \<and> frame_bytes (pm s2) b = frame_bytes (pm s1) b)"

text \<open>
  C29: An alarm is transparent to the interrupted program.  When it is due and a page is free, the process continues
  at the handler; and whatever the handler does, also to the trap frame, \<open>sigreturn\<close> puts back every byte of the trap frame as
  it was when the alarm went off, returns the interrupted \<open>a0\<close>, and allows the next alarm.
\<close>

theorem alarm_sigreturn_restores:
  assumes "has_frame (cur s) s" "alarm_due (procs s (cur s))" "q \<in> kpages s" "kcnt s q = 0"
  shows "\<exists>s1. alarm (cur s) s = Ok s1 \<and> ld s1 (mytf s + TF_EPC) = alarmHandler (procs s (cur s)) \<and>
    (\<forall>s2. handler_ran s1 s2 \<longrightarrow> (\<exists>s3. sys_sigreturn s2 = Ok (Ret (ld s (mytf s + TF_A0)), s3) \<and>
       frame_bytes (pm s3) (mytf s) = frame_bytes (pm s) (mytf s) \<and> alarmRunning (procs s3 (cur s)) = 0))"
proof -
  let ?p = "cur s" and ?tf = "mytf s"
  from alarm_saves[OF assms] obtain b s1 where a: "alarm ?p s = Ok s1" "kcnt s b = 0" "frame_bytes (pm s1) b = frame_bytes (pm s) ?tf"
      "ld s1 (?tf + TF_EPC) = alarmHandler (procs s ?p)" "cur s1 = ?p"
      "procs s1 = (procs s)(?p := (procs s ?p)\<lparr>alarmRunning := 1, backupTrapFrame := b, lastAlarm := timeRun (procs s ?p)\<rparr>)"
    by (auto simp: mytf_def)
  have "\<exists>s3. sys_sigreturn s2 = Ok (Ret (ld s (?tf + TF_A0)), s3) \<and>
      frame_bytes (pm s3) ?tf = frame_bytes (pm s) ?tf \<and> alarmRunning (procs s3 ?p) = 0" if h: "handler_ran s1 s2" for s2
  proof -
    have h2: "cur s2 = ?p" "mytf s2 = ?tf" "backupTrapFrame (procs s2 ?p) = b" "has_frame ?p s2" "b \<in> kpages s2" "0 < kcnt s2 b"
        "frame_bytes (pm s2) b = frame_bytes (pm s) ?tf"
      using h a(3,5,6) by (auto simp: handler_ran_def Let_def mytf_def)
    have ne: "b \<noteq> ?tf" using a(2) assms(1) by (auto simp: has_frame_def mytf_def)
    from sigreturn_restores[of s2] h2 ne obtain s3 where r: "sys_sigreturn s2 = Ok (Ret (load64 (pm s2) (b + TF_A0)), s3)"
        "frame_bytes (pm s3) ?tf = frame_bytes (pm s2) b" "procs s3 = (procs s2)(?p := (procs s2 ?p)\<lparr>alarmRunning := 0\<rparr>)" by auto
    have "load64 (pm s2) (b + TF_A0) = ld s (?tf + TF_A0)"
      using frame_field[OF h2(7), of 112] by (simp add: ld_def TF_A0_def)
    with r h2(7) show ?thesis by auto
  qed
  with a show ?thesis by blast
qed

theorem alarm_sigreturn_restores_witness:
  "\<exists>s1. alarm 0 demo_alarm = Ok s1 \<and> ld s1 (mytf demo_alarm + TF_EPC) = 77 \<and> (\<forall>s2. handler_ran s1 s2 \<longrightarrow>
     (\<exists>s3. sys_sigreturn s2 = Ok (Ret (ld demo_alarm (mytf demo_alarm + TF_A0)), s3)))"
proof -
  have h: "alarmHandler (procs demo_alarm 0) = 77" by (simp add: demo_alarm_def blank_fs_def pst.defs demo_sys_def table_of_def)
  have f: "has_frame (cur demo_alarm) demo_alarm" "alarm_due (procs demo_alarm (cur demo_alarm))" using demo_alarm_ready by simp_all
  show ?thesis using alarm_sigreturn_restores[OF f demo_alarm_ready(3,4)] unfolding demo_alarm_ready(5) h by blast
qed



end
