(* ===== verification/Tty.thy ===== *)
theory Tty
  imports Pipes
begin

text \<open>
  The terminal: the UART sends what is written to the console in order, and the input handler is a line
  editor.
\<close>

section \<open>Output\<close>

definition tx_content :: "uart \<Rightarrow> u8 list" where
  "tx_content u = ring UART_TX_BUF_SIZE (txbuf u) (tx_r u) (tx_w u)"

definition tx_ok :: "uart \<Rightarrow> bool" where
  "tx_ok u \<longleftrightarrow> unat (tx_w u - tx_r u) \<le> UART_TX_BUF_SIZE"

interpretation txq: byte_queue UART_TX_BUF_SIZE tx_ok tx_full tx_empty tx_content tx_put tx_front tx_take
proof
  fix q c
  have cap: "UART_TX_BUF_SIZE dvd 2 ^ LENGTH(64)" "UART_TX_BUF_SIZE < 2 ^ LENGTH(64)" by (simp_all add: UART_TX_BUF_SIZE_def)
  assume ok: "tx_ok q"
  show "length (tx_content q) \<le> UART_TX_BUF_SIZE" using ok by (simp add: tx_content_def tx_ok_def)
  show full: "tx_full q = (length (tx_content q) = UART_TX_BUF_SIZE)"
    by (simp only: tx_full_def ring_full[OF cap(2)] tx_content_def length_ring)
  show "tx_empty q = (tx_content q = [])" by (simp add: tx_empty_def tx_content_def ring_empty)
  { assume "\<not> tx_full q"
    then have l: "unat (tx_w q - tx_r q) < UART_TX_BUF_SIZE" using ok full by (simp add: tx_content_def tx_ok_def)
    show "tx_ok (tx_put c q)" using l unat_counter_Suc[OF l cap(2)] by (simp add: tx_ok_def tx_put_def)
    show "tx_content (tx_put c q) = tx_content q @ [c]"
      using ring_put[OF cap l] by (simp add: tx_content_def tx_put_def) }
  { assume "\<not> tx_empty q"
    then have ne: "tx_w q \<noteq> tx_r q" by (simp add: tx_empty_def)
    show "tx_ok (tx_take q)" using ok unat_counter_pred[OF ne] by (simp add: tx_ok_def tx_take_def diff_diff_add)
    show "tx_content q = tx_front q # tx_content (tx_take q)"
      using ring_first[OF ne] by (simp add: tx_content_def tx_take_def tx_front_def) }
qed

text \<open>Everything that has been or will be sent.\<close>

definition outbytes :: "'a fs \<Rightarrow> u8 list" where
  "outbytes s = sent (uart s) @ tx_content (uart s)"

lemma uart_simps [simp]:
  "uart (uupd f s) = f (uart s)" "uart (wake_chan ch s) = uart s" "sent (tx_take u) = sent u" "sent (tx_put c u) = sent u"
  "thr_room (tx_take u) = thr_room u" "tx_content (put_thr c u) = tx_content u" "tx_ok (put_thr c u) = tx_ok u"
  "sent (put_thr c u) = sent u @ [c]" "thr_room (put_thr c u) = thr_room u - 1"
  "pm (uupd f s) = pm s" "obj_at (uupd f s) = obj_at s" "mypt (uupd f s) = mypt s" "cons (uupd f s) = cons s"
  "obj_at (wake_chan ch s) = obj_at s" "cons (wake_chan ch s) = cons s"
  by (simp_all add: uupd_def wake_chan_def wakeup_def tx_take_def tx_put_def put_thr_def tx_content_def tx_ok_def mypt_def)

lemma uartstart_sends:
  assumes "tx_ok (uart s)"
  shows "tx_ok (uart (uartstart s)) \<and> outbytes (uartstart s) = outbytes s \<and>
    length (sent (uart s)) \<le> length (sent (uart (uartstart s))) \<and> (tx_content (uart (uartstart s)) = [] \<or> thr_room (uart (uartstart s)) = 0)"
  using assms
proof (induction s rule: uartstart.induct)
  case (1 s)
  show ?case
  proof (cases "tx_empty (uart s) \<or> thr_room (uart s) = 0")
    case True
    then have "uartstart s = s" by (subst uartstart.simps) auto
    then show ?thesis using txq.empty_iff[OF "1.prems"] "1.prems" True by auto
  next
    case False
    define s1 where "s1 = uupd (put_thr (tx_front (uart s))) (wake_chan UartChan (uupd tx_take s))"
    have e: "uartstart s = uartstart s1" using False by (subst uartstart.simps) (simp add: s1_def Let_def)
    have ok: "tx_ok (uart s1)" using txq.drop_ok[OF "1.prems"] False by (simp add: s1_def)
    have "outbytes s1 = outbytes s" "length (sent (uart s)) \<le> length (sent (uart s1))"
      using txq.drop_content[OF "1.prems"] False by (simp_all add: s1_def outbytes_def)
    with "1.IH"[OF _ _ refl refl refl, folded s1_def, OF _ _ ok] False show ?thesis unfolding e by simp
  qed
qed

lemma uartstart_keeps: "pm (uartstart s) = pm s \<and> obj_at (uartstart s) = obj_at s \<and> mypt (uartstart s) = mypt s \<and> cons (uartstart s) = cons s"
proof (induction s rule: uartstart.induct)
  case (1 s)
  then show ?case by (subst (1 2 3 4) uartstart.simps) (auto simp: Let_def)
qed

text \<open>
  \<open>consolewrite\<close> from byte \<open>i\<close> on, with \<open>k\<close> bytes left, sends the writer's bytes in order; it has to wait
  only if the device is busy.
\<close>

definition emitted :: "u64 \<Rightarrow> nat \<Rightarrow> nat \<Rightarrow> 'a fs \<Rightarrow> 'a fs \<Rightarrow> u8 list \<Rightarrow> bool" where
  "emitted src i k s s' bs \<longleftrightarrow> outbytes s' = outbytes s @ bs \<and> tx_ok (uart s') \<and> length bs \<le> k \<and>
     map Some bs = map (\<lambda>j. user_byte (mypt s) s (src + of_nat j)) [i..<i + length bs] \<and>
     (length bs = k \<or> user_byte (mypt s) s (src + of_nat (i + length bs)) = None)"

lemma uartputc_emits:
  assumes "tx_ok (uart s)" "\<not> tx_full (uart s)"
  shows "\<exists>s'. uartputc c s = Ok s' \<and> tx_ok (uart s') \<and> outbytes s' = outbytes s @ [c] \<and>
    pm s' = pm s \<and> obj_at s' = obj_at s \<and> mypt s' = mypt s \<and> length (tx_content (uart s')) \<le> Suc (length (tx_content (uart s)))"
proof -
  let ?s = "uupd (tx_put c) s"
  have p: "tx_ok (uart ?s)" "outbytes ?s = outbytes s @ [c]"
    using txq.put_ok[OF assms] txq.put_content[OF assms] by (simp_all add: outbytes_def)
  have "length (outbytes (uartstart ?s)) = length (outbytes s) + 1" "length (sent (uart s)) \<le> length (sent (uart (uartstart ?s)))"
    using uartstart_sends[OF p(1)] p(2) by simp_all
  then have "length (tx_content (uart (uartstart ?s))) \<le> Suc (length (tx_content (uart s)))" by (simp add: outbytes_def)
  with uartstart_sends[OF p(1)] p(2) uartstart_keeps[of ?s] assms(2) show ?thesis by (simp add: uartputc_def)
qed

lemma consolewrite_loop_emits:
  assumes "tx_ok (uart s)" "hidden (mypt s) (obj_at s ''consolewrite.c'') s"
  shows "(\<exists>s' bs. consolewrite_loop True src [i..<i + k] s = Ok (length bs, s') \<and> emitted src i k s s' bs)
    \<or> consolewrite_loop True src [i..<i + k] s = blocked \<and> UART_TX_BUF_SIZE < length (tx_content (uart s)) + k"
  using assms
proof (induction k arbitrary: i s)
  case 0
  then show ?case by (auto simp: emitted_def)
next
  case (Suc k)
  let ?a = "obj_at s ''consolewrite.c''" and ?va = "src + of_nat i"
  have up: "[i..<i + Suc k] = i # [Suc i..<Suc i + k]" by (simp add: upt_conv_Cons)
  show ?case
  proof (cases "user_byte (mypt s) s ?va")
    case None
    then show ?thesis unfolding up using Suc.prems
      by (auto simp: either_copyin_def copyin_byte Let_def emitted_def)
  next
    case (Some b)
    define s0 where "s0 = s\<lparr>pm := (pm s)(?a := b)\<rparr>"
    have s0: "tx_ok (uart s0)" "outbytes s0 = outbytes s" "uart s0 = uart s" "mypt s0 = mypt s" "obj_at s0 = obj_at s"
      using Suc.prems by (simp_all add: s0_def outbytes_def mypt_def)
    have step: "consolewrite_loop True src [i..<i + Suc k] s =
        bind_res (uartputc b s0) (\<lambda>s. bind_res (consolewrite_loop True src [Suc i..<Suc i + k] s) (\<lambda>(k, s). Ok (Suc k, s)))"
      unfolding up using Some by (simp add: either_copyin_def copyin_byte Let_def s0_def)
    show ?thesis
    proof (cases "tx_full (uart s0)")
      case True
      then have "length (tx_content (uart s)) = UART_TX_BUF_SIZE" using txq.full_iff s0 by auto
      then show ?thesis unfolding step using True by (simp add: uartputc_def blocked_def)
    next
      case False
      obtain s1 where u: "uartputc b s0 = Ok s1" "tx_ok (uart s1)" "outbytes s1 = outbytes s @ [b]" "pm s1 = pm s0"
          "obj_at s1 = obj_at s" "mypt s1 = mypt s" "length (tx_content (uart s1)) \<le> Suc (length (tx_content (uart s)))"
        using uartputc_emits[OF s0(1) False, of b] unfolding s0 by blast
      have m1: "pm s1 = (pm s)(?a := b)" by (simp add: u(4) s0_def)
      have h: "hidden (mypt s1) (obj_at s1 ''consolewrite.c'') s1" "user_byte (mypt s) s1 va = user_byte (mypt s) s va" for va
        using hidden_set[OF Suc.prems(2) m1] u by simp_all
      from Suc.IH[OF u(2) h(1), of "Suc i"] show ?thesis
      proof (elim disjE exE conjE)
        fix s' bs assume "consolewrite_loop True src [Suc i..<Suc i + k] s1 = Ok (length bs, s')" "emitted src (Suc i) k s1 s' bs"
        then have "consolewrite_loop True src [i..<i + Suc k] s = Ok (length (b # bs), s') \<and> emitted src i (Suc k) s s' (b # bs)"
          unfolding step using Some by (auto simp: u(1,3,6) emitted_def h(2) upt_conv_Cons simp del: upt_Suc)
        then show ?thesis by blast
      next
        assume b: "consolewrite_loop True src [Suc i..<Suc i + k] s1 = blocked" "UART_TX_BUF_SIZE < length (tx_content (uart s1)) + k"
        have "consolewrite_loop True src [i..<i + Suc k] s = blocked"
          unfolding step u(1) bind_res.simps b(1) by (simp add: blocked_def)
        moreover have "UART_TX_BUF_SIZE < length (tx_content (uart s)) + Suc k" using b(2) u(7) by linarith
        ultimately show ?thesis by blast
      qed
    qed
  qed
qed

section \<open>Input\<close>

text \<open>
  The specification of the input: the bytes that readers may take, and the line that is being typed.
  Backspace and delete drop the last byte of the line, control-U all of it; a newline,
  control-D or a full buffer hands the line over; a carriage return becomes a newline; what does
  not fit is ignored.
\<close>

type_synonym tty = "u8 list \<times> u8 list"

definition line_step :: "u8 \<Rightarrow> tty \<Rightarrow> tty" where
  "line_step c = (\<lambda>(done, line).
     if c = 21 then (done, [])
     else if c = 8 \<or> c = 127 then (done, butlast line)
     else if c = 0 \<or> c = 16 \<or> length (done @ line) \<ge> INPUT_BUF_SIZE then (done, line)
     else let c = (if c = 13 then 10 else c)
          in if c = 10 \<or> c = 4 \<or> length (done @ line @ [c]) = INPUT_BUF_SIZE then (done @ line @ [c], [])
             else (done, line @ [c]))"

definition tty_of :: "console \<Rightarrow> tty" where
  "tty_of k = (ring INPUT_BUF_SIZE (cbuf k) (cr k) (cw k), ring INPUT_BUF_SIZE (cbuf k) (cw k) (ce k))"

definition cons_ok :: "console \<Rightarrow> bool" where
  "cons_ok k \<longleftrightarrow> unat (cw k - cr k) + unat (ce k - cw k) \<le> INPUT_BUF_SIZE \<and> 10 \<notin> set (snd (tty_of k))"

lemma cons_ok_size: "cons_ok k \<Longrightarrow> unat (cw k - cr k) + unat (ce k - cw k) \<le> INPUT_BUF_SIZE"
  by (simp add: cons_ok_def)

lemma ce_cr:
  assumes "unat (cw k - cr k) + unat (ce k - cw k) \<le> INPUT_BUF_SIZE"
  shows "unat (ce k - cr k) = unat (cw k - cr k) + unat (ce k - cw k)"
proof -
  have "unat (cw k - cr k) + unat (ce k - cw k) < 2 ^ 32" using assms by (simp add: INPUT_BUF_SIZE_def)
  moreover have "ce k - cr k = (cw k - cr k) + (ce k - cw k)" by simp
  ultimately show ?thesis by (simp only: unat_word_ariths(1)) simp
qed

lemma tty_split: "unat (cw k - cr k) + unat (ce k - cw k) \<le> INPUT_BUF_SIZE \<Longrightarrow> ring INPUT_BUF_SIZE (cbuf k) (cr k) (ce k) = fst (tty_of k) @ snd (tty_of k)"
  by (simp add: tty_of_def ring_split[OF ce_cr])

lemma cons_put_tty:
  assumes sz: "unat (cw k - cr k) + unat (ce k - cw k) \<le> INPUT_BUF_SIZE" and room: "unat (ce k - cr k) < INPUT_BUF_SIZE"
  shows "tty_of (cons_put c k) = (fst (tty_of k), snd (tty_of k) @ [c])"
    and "unat (ce (cons_put c k) - cr k) = Suc (unat (ce k - cr k))"
    and "unat (cw k - cr k) + unat (ce (cons_put c k) - cw k) \<le> INPUT_BUF_SIZE"
proof -
  let ?d = "(cbuf k)(unat (ce k) mod INPUT_BUF_SIZE := c)"
  have cap: "INPUT_BUF_SIZE dvd 2 ^ LENGTH(32)" "INPUT_BUF_SIZE < 2 ^ LENGTH(32)" by (simp_all add: INPUT_BUF_SIZE_def)
  have l: "unat (ce k - cw k) < INPUT_BUF_SIZE" using ce_cr[OF sz] room by linarith
  have n: "unat (ce k + 1 - cr k) = Suc (unat (ce k - cr k))" "unat (ce k + 1 - cw k) = Suc (unat (ce k - cw k))"
    using unat_counter_Suc[OF room cap(2)] unat_counter_Suc[OF l cap(2)] by simp_all
  then show "unat (ce (cons_put c k) - cr k) = Suc (unat (ce k - cr k))"
    "unat (cw k - cr k) + unat (ce (cons_put c k) - cw k) \<le> INPUT_BUF_SIZE"
    using room ce_cr[OF sz] by (simp_all add: cons_put_def)
  have line: "ring INPUT_BUF_SIZE ?d (cw k) (ce k + 1) = snd (tty_of k) @ [c]"
    using ring_put[OF cap l] by (simp add: tty_of_def)
  have "ring INPUT_BUF_SIZE ?d (cr k) (cw k) @ ring INPUT_BUF_SIZE ?d (cw k) (ce k + 1) = ring INPUT_BUF_SIZE ?d (cr k) (ce k + 1)"
    using n ce_cr[OF sz] by (intro ring_split[symmetric]) simp
  also have "\<dots> = fst (tty_of k) @ snd (tty_of k) @ [c]" by (simp add: ring_put[OF cap room] tty_split[OF sz])
  finally have "ring INPUT_BUF_SIZE ?d (cr k) (cw k) = fst (tty_of k)" unfolding line by simp
  with line show "tty_of (cons_put c k) = (fst (tty_of k), snd (tty_of k) @ [c])" by (simp add: tty_of_def cons_put_def)
qed

lemma cons_simps [simp]:
  "cons (consputc c s) = cons s" "cons (cupd f s) = f (cons s)" "cons (kprintf fmt args s) = cons s"
proof -
  have p: "cons (consputc c s) = cons s" for c :: "u8 option" and s :: "'a fs"
    by (simp add: consputc_def uartputc_sync_def split: option.splits)
  then show "cons (consputc c s) = cons s" .
  have "cons (fold (\<lambda>c. consputc (Some c)) xs s) = cons s" for xs :: "u8 list" and s :: "'a fs"
    by (induction xs arbitrary: s) (simp_all add: p)
  then show "cons (kprintf fmt args s) = cons s" by (simp add: kprintf_def split: option.splits)
qed (simp add: cupd_def)

lemma cons_fold: "(\<And>x s. cons (f x s) = cons s) \<Longrightarrow> cons (fold f xs s) = cons s"
  by (induction xs arbitrary: s) simp_all

lemma cons_procdump [simp]: "cons (procdump pol s) = cons s"
proof -
  have "cons ((kprintf (chars '' '') [] ^^ n) s) = cons s" for n and s :: "'a fs" by (induction n) simp_all
  then have sp: "cons (print_spaces n s) = cons s" for n and s :: "'a fs" by (simp add: print_spaces_def)
  have "cons (dump_line p s) = cons s" "cons (dump_line_mlfq t p s) = cons s" for p t and s :: "'a fs"
    by (simp_all add: dump_line_def dump_line_mlfq_def print_column_def sp Let_def)
  then show ?thesis by (simp add: procdump_def Let_def cons_fold split: policy.splits)
qed

lemma erase_tty:
  assumes "cons_ok k" "ce k \<noteq> cw k"
  shows "tty_of (k\<lparr>ce := ce k - 1\<rparr>) = (fst (tty_of k), butlast (snd (tty_of k)))" "cons_ok (k\<lparr>ce := ce k - 1\<rparr>)"
    "cbuf k (unat (ce k - 1) mod INPUT_BUF_SIZE) \<in> set (snd (tty_of k))"
proof -
  have l: "snd (tty_of k) = ring INPUT_BUF_SIZE (cbuf k) (cw k) (ce k - 1) @ [cbuf k (unat (ce k - 1) mod INPUT_BUF_SIZE)]"
    using ring_unput[OF assms(2)] by (simp add: tty_of_def)
  show t: "tty_of (k\<lparr>ce := ce k - 1\<rparr>) = (fst (tty_of k), butlast (snd (tty_of k)))"
    unfolding l by (simp add: tty_of_def)
  show "cbuf k (unat (ce k - 1) mod INPUT_BUF_SIZE) \<in> set (snd (tty_of k))" unfolding l by simp
  have "unat (ce k - 1 - cw k) < unat (ce k - cw k)" using unat_counter_pred[OF assms(2)] by (simp add: diff_right_commute)
  then show "cons_ok (k\<lparr>ce := ce k - 1\<rparr>)" using assms(1) t by (auto simp: cons_ok_def dest: in_set_butlastD)
qed

lemma kill_line_tty:
  assumes "cons_ok (cons s)"
  shows "tty_of (cons (kill_line s)) = (fst (tty_of (cons s)), []) \<and> cons_ok (cons (kill_line s))"
  using assms
proof (induction s rule: kill_line.induct)
  case (1 s)
  show ?case
  proof (cases "ce (cons s) = cw (cons s)")
    case True
    then have "kill_line s = s" by (subst kill_line.simps) simp
    then show ?thesis using True "1.prems" by (simp add: tty_of_def)
  next
    case False
    let ?s = "consputc None (cupd (\<lambda>k. k\<lparr>ce := ce k - 1\<rparr>) s)"
    note e = erase_tty[OF "1.prems" False]
    have c: "ce (cons s) \<noteq> cw (cons s) \<and> cbuf (cons s) (unat (ce (cons s) - 1) mod INPUT_BUF_SIZE) \<noteq> 10"
      using False e(3) "1.prems" by (auto simp: cons_ok_def)
    then have k: "kill_line s = kill_line ?s" by (subst kill_line.simps) simp
    show ?thesis unfolding k using "1.IH"[OF c] e(1,2) by simp
  qed
qed

lemma type_tty:
  fixes k c defines "k1 \<equiv> cons_put c k"
  assumes ok: "cons_ok k" and room: "unat (ce k - cr k) < INPUT_BUF_SIZE" and t: "tty_of k = (dn, ln)"
  shows "c = 10 \<or> c = 4 \<or> ce k1 - cr k1 = of_nat INPUT_BUF_SIZE \<longleftrightarrow> c = 10 \<or> c = 4 \<or> length (dn @ ln @ [c]) = INPUT_BUF_SIZE"
    and "tty_of (k1\<lparr>cw := ce k1\<rparr>) = (dn @ ln @ [c], [])" "cons_ok (k1\<lparr>cw := ce k1\<rparr>)"
    and "tty_of k1 = (dn, ln @ [c])" "c \<noteq> 10 \<Longrightarrow> cons_ok k1"
proof -
  note p = cons_put_tty[OF cons_ok_size[OF ok] room, of c, folded k1_def]
  have r: "cr k1 = cr k" "cw k1 = cw k" by (simp_all add: k1_def cons_put_def)
  have "length (dn @ ln) = unat (ce k - cr k)" using t tty_split[OF cons_ok_size[OF ok]] by (metis fst_conv length_ring snd_conv)
  then have n: "unat (ce k1 - cr k1) = length (dn @ ln @ [c])" using p(2) r by simp
  have "ce k1 - cr k1 = of_nat INPUT_BUF_SIZE \<longleftrightarrow> unat (ce k1 - cr k1) = INPUT_BUF_SIZE"
    by (auto simp: INPUT_BUF_SIZE_def) (metis of_nat_numeral of_nat_unat ucast_id)
  then show "c = 10 \<or> c = 4 \<or> ce k1 - cr k1 = of_nat INPUT_BUF_SIZE \<longleftrightarrow> c = 10 \<or> c = 4 \<or> length (dn @ ln @ [c]) = INPUT_BUF_SIZE"
    unfolding n by simp
  show t1: "tty_of k1 = (dn, ln @ [c])" using p(1) t by simp
  have sz: "unat (cw k1 - cr k1) + unat (ce k1 - cw k1) \<le> INPUT_BUF_SIZE" using p(3) r by simp
  show "tty_of (k1\<lparr>cw := ce k1\<rparr>) = (dn @ ln @ [c], [])" using tty_split[OF sz] t1 by (simp add: tty_of_def)
  show "cons_ok (k1\<lparr>cw := ce k1\<rparr>)" using ce_cr[OF sz] sz by (simp add: cons_ok_def tty_of_def)
  show "cons_ok k1" if "c \<noteq> 10" using sz t1 ok t that by (simp add: cons_ok_def)
qed

lemma consoleintr_line:
  assumes ok: "cons_ok (cons s)"
  shows "tty_of (cons (consoleintr pol c s)) = line_step c (tty_of (cons s)) \<and> cons_ok (cons (consoleintr pol c s))"
proof -
  let ?k = "cons s" and ?L = INPUT_BUF_SIZE
  obtain dn ln where t: "tty_of ?k = (dn, ln)" by fastforce
  have len: "length dn = unat (cw ?k - cr ?k)" "length ln = unat (ce ?k - cw ?k)" using t by (auto simp: tty_of_def)
  have n: "unat (ce ?k - cr ?k) = length dn + length ln" using ce_cr[OF cons_ok_size[OF ok]] len by simp
  have lt: "ce ?k - cr ?k < of_nat ?L \<longleftrightarrow> length dn + length ln < ?L"
    by (simp add: word_less_nat_alt n INPUT_BUF_SIZE_def)
  have em: "ln = [] \<longleftrightarrow> ce ?k = cw ?k" using t by (auto simp: tty_of_def ring_empty)
  consider "c = 16" | "c = 21" | "c = 8 \<or> c = 127" | "c = 0 \<or> \<not> length dn + length ln < ?L" "c \<notin> {16, 21, 8, 127}"
    | "c \<notin> {0, 16, 21, 8, 127}" "length dn + length ln < ?L" by auto
  then show ?thesis
  proof cases
    case 1
    then show ?thesis using ok t by (simp add: consoleintr_def line_step_def)
  next
    case 2
    then show ?thesis using kill_line_tty[OF ok] t by (simp add: consoleintr_def line_step_def)
  next
    case 3
    then show ?thesis using erase_tty(1,2)[OF ok] t em ok by (cases "ce ?k = cw ?k") (auto simp: consoleintr_def line_step_def)
  next
    case 4
    then show ?thesis using ok t lt by (auto simp: consoleintr_def line_step_def)
  next
    case 5
    define d where "d = (if c = 13 then 10 else c)"
    have room: "unat (ce ?k - cr ?k) < ?L" using 5 n by simp
    note ty = type_tty[OF ok room t, of d]
    let ?s1 = "cupd (cons_put d) (consputc (Some d) s)"
    have "consoleintr pol c s = (if d = 10 \<or> d = 4 \<or> ce (cons ?s1) - cr (cons ?s1) = of_nat ?L
        then wake_chan ConsChan (cupd (\<lambda>k. k\<lparr>cw := ce k\<rparr>) ?s1) else ?s1)"
      using 5 lt by (simp add: consoleintr_def Let_def d_def)
    moreover have "line_step c (dn, ln) = (if d = 10 \<or> d = 4 \<or> length (dn @ ln @ [d]) = ?L then (dn @ ln @ [d], []) else (dn, ln @ [d]))"
      using 5 by (simp add: line_step_def Let_def d_def)
    ultimately show ?thesis unfolding t using ty by simp
  qed
qed

lemma uart_input_lines:
  "cons_ok (cons s) \<Longrightarrow> tty_of (cons (uart_input pol cs s)) = fold line_step cs (tty_of (cons s)) \<and> cons_ok (cons (uart_input pol cs s))"
proof (induction cs arbitrary: s)
  case (Cons c cs)
  have "cons (snd (uartgetc s)) = cons s" by (simp add: uartgetc_def split: list.splits)
  with Cons.prems consoleintr_line[of "snd (uartgetc s)" pol c] Cons.IH show ?case by simp
qed simp

section \<open>Reading a line\<close>

text \<open>
  What a reader that wants \<open>n\<close> bytes has taken from the input: the bytes \<open>bs\<close> it gets, and \<open>gone\<close>, a
  control-D that ended an empty read or a byte whose copy failed.
\<close>

definition line_read :: "nat \<Rightarrow> bool \<Rightarrow> u8 list \<Rightarrow> u8 list \<Rightarrow> u8 list \<Rightarrow> u8 list \<Rightarrow> bool" where
  "line_read n fresh inp inp' bs gone \<longleftrightarrow>
     inp = bs @ gone @ inp' \<and> length bs \<le> n \<and> 4 \<notin> set bs \<and> 10 \<notin> set (butlast bs) \<and> length gone \<le> 1 \<and>
     (4 \<in> set gone \<longrightarrow> fresh \<and> bs = []) \<and>
     (length bs = n \<or> bs \<noteq> [] \<and> last bs = 10 \<or> gone \<noteq> [] \<or> inp' \<noteq> [] \<and> hd inp' = 4)"

lemma line_read_Cons:
  "line_read n fresh' inp inp' bs gone \<Longrightarrow> c \<noteq> 4 \<Longrightarrow> c \<noteq> 10 \<Longrightarrow> \<not> fresh' \<Longrightarrow> line_read (Suc n) fresh (c # inp) inp' (c # bs) gone"
  by (auto simp: line_read_def)

definition cons_in :: "'a fs \<Rightarrow> u8 list" where
  "cons_in s = ring INPUT_BUF_SIZE (cbuf (cons s)) (cr (cons s)) (cw (cons s))"

lemma consoleread_loop_line:
  assumes "consoleread_loop ud dst target n s = Ok (Some left, s')" "n \<le> unat target"
  shows "\<exists>bs gone. line_read n (n = unat target) (cons_in s) (cons_in s') bs gone \<and> left = n - length bs
    \<and> cw (cons s') = cw (cons s) \<and> ce (cons s') = ce (cons s) \<and> cbuf (cons s') = cbuf (cons s)"
  using assms
proof (induction n arbitrary: dst s)
  case 0
  then show ?case by (auto simp: line_read_def)
next
  case (Suc n)
  define c where "c = cbuf (cons s) (unat (cr (cons s)) mod INPUT_BUF_SIZE)"
  define s1 where "s1 = cupd (\<lambda>k. k\<lparr>cr := cr k + 1\<rparr>) s"
  have ne: "cw (cons s) \<noteq> cr (cons s)" using Suc.prems by (auto simp: blocked_def split: if_splits)
  have front: "cons_in s = c # cons_in s1" using ring_first[OF ne] by (simp add: cons_in_def s1_def c_def)
  have same: "cw (cons s1) = cw (cons s)" "ce (cons s1) = ce (cons s)" "cbuf (cons s1) = cbuf (cons s)" by (simp_all add: s1_def)
  have lt: "of_nat (Suc n) < target \<longleftrightarrow> Suc n \<noteq> unat target"
  proof -
    have "unat (of_nat (Suc n) :: u32) = Suc n" using Suc.prems(2) unsigned_less[of target, where 'a = nat] by (simp add: unat_of_nat del: of_nat_Suc)
    then show ?thesis using Suc.prems(2) by (auto simp: word_less_nat_alt simp del: of_nat_Suc)
  qed
  show ?case
  proof (cases "c = 4")
    case True
    let ?s' = "if of_nat (Suc n) < target then cupd (\<lambda>k. k\<lparr>cr := cr k - 1\<rparr>) s1 else s1"
    have e: "left = Suc n" "s' = ?s'" using Suc.prems(1) ne True by (auto simp: Let_def c_def s1_def)
    have "cons_in (cupd (\<lambda>k. k\<lparr>cr := cr k - 1\<rparr>) s1) = cons_in s" by (simp add: cons_in_def s1_def)
    then have "line_read (Suc n) (Suc n = unat target) (cons_in s) (cons_in s') [] (if Suc n = unat target then [c] else [])"
      using front lt True unfolding e by (auto simp: line_read_def)
    moreover have "left = Suc n - length []" "cw (cons s') = cw (cons s)" "ce (cons s') = ce (cons s)" "cbuf (cons s') = cbuf (cons s)"
      using same unfolding e by simp_all
    ultimately show ?thesis by blast
  next
    case False
    define a where "a = obj_at s1 ''consoleread.cbuf''"
    from Suc.prems(1) ne False obtain r s2 where co: "either_copyout (mypt s1) ud dst a 1 (s1\<lparr>pm := (pm s1)(a := c)\<rparr>) = Ok (r, s2)"
        and k: "(if r = -1 then Ok (Some (Suc n), s2) else if c = 10 then Ok (Some n, s2)
          else consoleread_loop ud (dst + 1) target n s2) = Ok (Some left, s')"
      by (auto simp: Let_def res_simps s1_def a_def simp flip: c_def)
    have "kst.more s2 = kst.more s1" using co by (auto simp: either_copyout_def split: if_splits dest!: copyout_more)
    then have c2: "cons s2 = cons s1" by (cases s1, cases s2) simp
    then have i2: "cons_in s2 = cons_in s1" by (simp add: cons_in_def)
    consider "r = -1" | "r \<noteq> -1" "c = 10" | "r \<noteq> -1" "c \<noteq> 10" by blast
    then show ?thesis
    proof cases
      case 1
      then have "line_read (Suc n) (Suc n = unat target) (cons_in s) (cons_in s') [] [c] \<and> left = Suc n - length []"
        using k front i2 False by (simp add: line_read_def)
      then show ?thesis using 1 k c2 same by auto
    next
      case 2
      then have "line_read (Suc n) (Suc n = unat target) (cons_in s) (cons_in s') [c] [] \<and> left = Suc n - length [c]"
        using k front i2 False by (simp add: line_read_def)
      then show ?thesis using 2 k c2 same by auto
    next
      case 3
      then have "consoleread_loop ud (dst + 1) target n s2 = Ok (Some left, s')" using k by simp
      from Suc.IH[OF this] Suc.prems(2) obtain bs gone where
        ih: "line_read n (n = unat target) (cons_in s2) (cons_in s') bs gone" "left = n - length bs"
          "cw (cons s') = cw (cons s2)" "ce (cons s') = ce (cons s2)" "cbuf (cons s') = cbuf (cons s2)" by auto
      have "line_read (Suc n) (Suc n = unat target) (cons_in s) (cons_in s') (c # bs) gone"
        using line_read_Cons[OF ih(1)] False 3 Suc.prems(2) front i2 by simp
      moreover have "left = Suc n - length (c # bs)" "cw (cons s') = cw (cons s)" "ce (cons s') = ce (cons s)" "cbuf (cons s') = cbuf (cons s)"
        using ih(2-5) c2 same by simp_all
      ultimately show ?thesis by blast
    qed
  qed
qed

lemma consoleread_loop_killed:
  "consoleread_loop ud dst target n s = Ok (None, s') \<Longrightarrow> killed (cur s) s \<noteq> 0"
proof (induction n arbitrary: dst s)
  case (Suc n)
  show ?case
  proof (cases "cr (cons s) = cw (cons s)")
    case True
    then show ?thesis using Suc.prems by (auto simp: blocked_def split: if_splits)
  next
    case False
    define s1 where "s1 = cupd (\<lambda>k. k\<lparr>cr := cr k + 1\<rparr>) s"
    from Suc.prems False obtain a c r s2 where
        co: "either_copyout (mypt s1) ud dst a 1 (s1\<lparr>pm := (pm s1)(a := c)\<rparr>) = Ok (r, s2)"
        and k: "consoleread_loop ud (dst + 1) target n s2 = Ok (None, s')"
      by (auto simp: Let_def res_simps s1_def split: if_splits)
    have "kst.more s2 = kst.more s1" using co by (auto simp: either_copyout_def split: if_splits dest!: copyout_more)
    then have "killed (cur s2) s2 = killed (cur s) s" by (cases s2, cases s1, cases s) (auto simp: s1_def cupd_def killed_def)
    with Suc.IH[OF k] show ?thesis by simp
  qed
qed simp

section \<open>A terminal\<close>

text \<open>Someone types \<open>ab\<close>, a backspace, and return; or has already typed a line.\<close>

definition typing :: fsys where
  "typing = self_sys\<lparr>uart := (uart self_sys)\<lparr>rx := [97, 98, 8, 13]\<rparr>, cons := \<lparr>cbuf = (\<lambda>_. 0), cr = -1, cw = -1, ce = -1\<rparr>\<rparr>"

definition typed :: fsys where
  "typed = self_sys\<lparr>cons := \<lparr>cbuf = (\<lambda>i. if i = 0 then 97 else 10), cr = 0, cw = 2, ce = 2\<rparr>\<rparr>"

lemma typing_ok: "cons_ok (cons typing)"
  by (simp add: typing_def cons_ok_def tty_of_def)

lemma self_tx: "tx_ok (uart self_sys)" "length (tx_content (uart self_sys)) = 0"
    "hidden (mypt self_sys) (obj_at self_sys ''consolewrite.c'') self_sys"
proof -
  have "obj_at self_sys ''consolewrite.c'' = obj_at self_sys ''pipewrite.ch''" by (simp add: self_sys_def)
  with self_hidden show "hidden (mypt self_sys) (obj_at self_sys ''consolewrite.c'') self_sys" by simp
  have "tx_w (uart self_sys) = 0" "tx_r (uart self_sys) = 0" by code_simp+
  then show "tx_ok (uart self_sys)" "length (tx_content (uart self_sys)) = 0" by (simp_all add: tx_ok_def tx_content_def)
qed

lemma typed_read: "\<exists>s'. consoleread False 0x7000 10 typed = Ok (2, s')"
proof -
  have "(case consoleread False 0x7000 10 typed of Ok (v, s') \<Rightarrow> v = 2 | Panic _ \<Rightarrow> False)" by code_simp
  then show ?thesis by (auto split: res.splits)
qed

section \<open>Properties\<close>

text \<open>
  C28: \<open>consolewrite\<close> sends the bytes the writer has in its address space from \<open>src\<close> on, in order and
  after everything written before, whatever the state of the device and of the transmit buffer.  It
  returns how many it took, and waits only when the transmit buffer cannot hold them all.
\<close>

theorem consolewrite_sends_in_order:
  assumes "tx_ok (uart s)" "hidden (mypt s) (obj_at s ''consolewrite.c'') s"
  shows "(\<exists>s' bs. consolewrite True src n s = Ok (of_nat (length bs), s') \<and> emitted src 0 (nat (sint n)) s s' bs)
    \<or> consolewrite True src n s = blocked \<and> UART_TX_BUF_SIZE < length (tx_content (uart s)) + nat (sint n)"
  using consolewrite_loop_emits[OF assms, of src 0 "nat (sint n)"] unfolding consolewrite_def
  by (auto simp: blocked_def)

theorem consolewrite_sends_in_order_witness:
  "\<exists>s' bs. consolewrite True 100 3 self_sys = Ok (of_nat (length bs), s') \<and> emitted 100 0 3 self_sys s' bs"
  using consolewrite_sends_in_order[OF self_tx(1,3), of 100 3] self_tx(2) by (simp add: UART_TX_BUF_SIZE_def)

text \<open>
  C26: The interrupt handler of the UART is a line editor: on the waiting input it does to the console's ring
  buffer what \<open>line_step\<close> does to the lines, whatever the position of the wrapping counters.
\<close>

theorem uartintr_edits_lines:
  assumes "cons_ok (cons s)"
  shows "tty_of (cons (uartintr pol s)) = fold line_step (rx (uart s)) (tty_of (cons s)) \<and> cons_ok (cons (uartintr pol s))"
  using uart_input_lines[OF assms] uartstart_keeps[of "uart_input pol (rx (uart s)) s"] by (simp add: uartintr_def)

theorem uartintr_edits_lines_witness:
  "tty_of (cons (uartintr RR typing)) = ([97, 10], [])"
proof -
  have "fold line_step (rx (uart typing)) (tty_of (cons typing)) = ([97, 10], [])" by code_simp
  with uartintr_edits_lines[OF typing_ok, of RR] show ?thesis by simp
qed



end
