(* ===== verification/Cache.thy ===== *)
theory Cache
  imports Log
begin

text \<open>
  What the buffer cache shows of a disk.  \<open>view\<close> is the content of a block as \<open>bread\<close> returns it: the
  cached data if the block is cached, the disk's otherwise.  The cache invariant says that a block
  is cached at most once and that a buffer which may be recycled is unlocked and clean.
\<close>

section \<open>View and invariant\<close>

definition slot :: "u32 \<Rightarrow> (nat \<Rightarrow> buf) \<Rightarrow> u32 \<Rightarrow> nat option" where
  "slot D B bno = find (\<lambda>b. dev (B b) = D \<and> blockno (B b) = bno) [0..<NBUF]"

definition view :: "u32 \<Rightarrow> (nat \<Rightarrow> buf) \<Rightarrow> (u32 \<Rightarrow> mem) \<Rightarrow> u32 \<Rightarrow> mem" where
  "view D B d bno = (case slot D B bno of
     Some b \<Rightarrow> if valid (B b) then block_of (bdata (B b)) else block_of (d bno) | None \<Rightarrow> block_of (d bno))"

definition once :: "u32 \<Rightarrow> (nat \<Rightarrow> buf) \<Rightarrow> bool" where
  "once D B \<longleftrightarrow> (\<forall>a<NBUF. \<forall>b<NBUF. dev (B a) = D \<and> dev (B b) = D \<and> blockno (B a) = blockno (B b) \<longrightarrow> a = b)"

lemma onceD: "once D B \<Longrightarrow> a < NBUF \<Longrightarrow> b < NBUF \<Longrightarrow> dev (B a) = D \<Longrightarrow> dev (B b) = D \<Longrightarrow> blockno (B a) = blockno (B b) \<Longrightarrow> a = b"
  by (simp add: once_def)

definition cache_ok :: "u32 \<Rightarrow> (nat \<Rightarrow> buf) \<Rightarrow> (u32 \<Rightarrow> mem) \<Rightarrow> bool" where
  "cache_ok D B d \<longleftrightarrow>
     once D B \<and> (\<forall>b<NBUF. refcnt (B b) = 0 \<longrightarrow> \<not> slocked (slock (B b))) \<and>
     (\<forall>b<NBUF. refcnt (B b) = 0 \<and> dev (B b) = D \<and> valid (B b) \<longrightarrow> block_of (bdata (B b)) = block_of (d (blockno (B b))))"

definition lru_ok :: "nat list \<Rightarrow> bool" where
  "lru_ok l \<longleftrightarrow> distinct l \<and> set l = {..<NBUF}"

lemma block_of_idem [simp]: "block_of (block_of m) = block_of m"
  by (simp add: block_of_def fun_eq_iff)

lemma find_in: "find P xs = Some b \<Longrightarrow> b \<in> set xs \<and> P b"
  by (auto simp: find_Some_iff)

lemma find_unique:
  assumes "set xs = set ys" "\<And>a b. a \<in> set ys \<Longrightarrow> b \<in> set ys \<Longrightarrow> P a \<Longrightarrow> P b \<Longrightarrow> a = b"
  shows "find P xs = find P ys"
proof (cases "find P ys")
  case None
  then have "find P xs = None" using assms(1) by (simp add: find_None_iff)
  with None show ?thesis by simp
next
  case (Some b)
  then have b: "b \<in> set ys" "P b" by (auto simp: find_Some_iff)
  then obtain a where a: "find P xs = Some a" using assms(1) by (cases "find P xs") (auto simp: find_None_iff)
  then have "a \<in> set ys" "P a" using assms(1) by (auto simp: find_Some_iff)
  with assms(2) b a Some show ?thesis by auto
qed

lemma slot_Some: "slot D B bno = Some b \<Longrightarrow> b < NBUF \<and> dev (B b) = D \<and> blockno (B b) = bno"
  by (auto simp: slot_def find_Some_iff)

lemma slot_None: "slot D B bno = None \<longleftrightarrow> (\<forall>b<NBUF. \<not> (dev (B b) = D \<and> blockno (B b) = bno))"
  by (auto simp: slot_def find_None_iff)

lemma slot_eq:
  assumes "once D B" "b < NBUF" "dev (B b) = D" "blockno (B b) = bno" shows "slot D B bno = Some b"
proof -
  obtain a where a: "slot D B bno = Some a" using slot_None[of D B bno] assms by (cases "slot D B bno") auto
  with slot_Some[OF a] assms onceD[OF assms(1)] show ?thesis by auto
qed

lemma slot_lru:
  assumes "once D B" "lru_ok l" shows "find (\<lambda>b. dev (B b) = D \<and> blockno (B b) = bno) l = slot D B bno"
  unfolding slot_def by (rule find_unique) (use assms onceD[OF assms(1)] in \<open>auto simp: lru_ok_def atLeast0LessThan\<close>)

section \<open>Reading and releasing a buffer\<close>

text \<open>What a buffer is after \<open>bread\<close> of block \<open>bno\<close> has locked it for process \<open>p\<close>.\<close>

definition got :: "u32 \<Rightarrow> u32 \<Rightarrow> u32 \<Rightarrow> (nat \<Rightarrow> buf) \<Rightarrow> (u32 \<Rightarrow> mem) \<Rightarrow> nat \<Rightarrow> buf \<Rightarrow> bool" where
  "got p D bno B d b x \<longleftrightarrow> b < NBUF \<and> dev x = D \<and> blockno x = bno \<and> valid x \<and> slock x = \<lparr>slocked = True, spid = p\<rparr> \<and>
     block_of (bdata x) = view D B d bno \<and> refcnt x \<noteq> 0 \<and>
     (slot D B bno = Some b \<and> refcnt x = refcnt (B b) + 1 \<or> slot D B bno = None \<and> refcnt (B b) = 0 \<and> refcnt x = 1)"

text \<open>Buffer \<open>b\<close> is the place for block \<open>bno\<close>: it has it, or it is free and no other has it.\<close>

definition placed :: "u32 \<Rightarrow> u32 \<Rightarrow> (nat \<Rightarrow> buf) \<Rightarrow> nat \<Rightarrow> bool" where
  "placed D bno B b \<longleftrightarrow> b < NBUF \<and> (slot D B bno = Some b \<or> slot D B bno = None \<and> refcnt (B b) = 0)"

lemma got_placed: "got p D bno B d b x \<Longrightarrow> placed D bno B b"
  by (auto simp: got_def placed_def)

text \<open>A block can be read when its buffer is unlocked, or else a buffer is free.\<close>

definition ready :: "u32 \<Rightarrow> u32 \<Rightarrow> (nat \<Rightarrow> buf) \<Rightarrow> bool" where
  "ready D bno B \<longleftrightarrow> (case slot D B bno of Some b \<Rightarrow> \<not> slocked (slock (B b)) \<and> refcnt (B b) \<noteq> -1 | None \<Rightarrow> \<exists>b<NBUF. refcnt (B b) = 0)"

lemma sleeplock_set [simp]: "l\<lparr>slocked := a, spid := p\<rparr> = \<lparr>slocked = a, spid = p\<rparr>"
  by (cases l) simp

lemma cache_once: "cache_ok D B d \<Longrightarrow> once D B"
  by (simp add: cache_ok_def)

lemma bread_got:
  assumes "cache_ok D (bufs s) (disk s)" "lru_ok (lru s)" "ready D bno (bufs s)"
  shows "\<exists>b x. bread D bno s = Ok (b, s\<lparr>bufs := (bufs s)(b := x)\<rparr>) \<and> got (mypid s) D bno (bufs s) (disk s) b x"
proof (cases "slot D (bufs s) bno")
  case (Some b)
  note b = slot_Some[OF Some]
  have f: "find (\<lambda>b. dev (bufs s b) = D \<and> blockno (bufs s b) = bno) (lru s) = Some b"
    using slot_lru[OF cache_once[OF assms(1)] assms(2)] Some by simp
  let ?x = "(bufs s b)\<lparr>refcnt := refcnt (bufs s b) + 1, slock := \<lparr>slocked = True, spid = mypid s\<rparr>, valid := True,
      bdata := if valid (bufs s b) then bdata (bufs s b) else block_of (disk s bno)\<rparr>"
  have "bread D bno s = Ok (b, s\<lparr>bufs := (bufs s)(b := ?x)\<rparr>)"
    using assms(3) Some b
    by (cases "bufs s b") (auto simp: bread_def bget_def f lock_buf_def acquiresleep_def bupd_def ready_def disk_rw_def mypid_def)
  moreover have "refcnt (bufs s b) + 1 \<noteq> 0" using assms(3) Some by (simp add: ready_def) (metis add_eq_0_iff2)
  then have "got (mypid s) D bno (bufs s) (disk s) b ?x" using b Some by (simp add: got_def view_def)
  ultimately show ?thesis by blast
next
  case None
  have f: "find (\<lambda>b. dev (bufs s b) = D \<and> blockno (bufs s b) = bno) (lru s) = None"
    using slot_lru[OF cache_once[OF assms(1)] assms(2)] None by simp
  obtain b where r: "find (\<lambda>b. refcnt (bufs s b) = 0) (rev (lru s)) = Some b"
    using assms(2,3) None by (cases "find (\<lambda>b. refcnt (bufs s b) = 0) (rev (lru s))") (auto simp: find_None_iff lru_ok_def ready_def)
  then have b: "b < NBUF" "refcnt (bufs s b) = 0" using assms(2) find_in[OF r] by (auto simp: lru_ok_def)
  then have u: "\<not> slocked (slock (bufs s b))" using assms(1) by (simp add: cache_ok_def)
  let ?x = "(bufs s b)\<lparr>dev := D, blockno := bno, valid := True, refcnt := 1, slock := \<lparr>slocked = True, spid = mypid s\<rparr>,
      bdata := block_of (disk s bno)\<rparr>"
  have "bread D bno s = Ok (b, s\<lparr>bufs := (bufs s)(b := ?x)\<rparr>)"
    using u by (cases "bufs s b") (auto simp: bread_def bget_def f r lock_buf_def acquiresleep_def bupd_def disk_rw_def mypid_def)
  moreover have "got (mypid s) D bno (bufs s) (disk s) b ?x" using b None by (simp add: got_def view_def)
  ultimately show ?thesis by blast
qed

text \<open>Reading a block changes the view of none, and keeps the invariant.\<close>

lemma once_upd:
  assumes "once D B" "placed D bno B b" "dev y = D" "blockno y = bno" shows "once D (B(b := y))"
proof -
  have u: "a = b" if "a < NBUF" "dev (B a) = D" "blockno (B a) = bno" for a
    using slot_eq[OF assms(1) that] assms(2) by (auto simp: placed_def)
  show ?thesis unfolding once_def
  proof (intro allI impI)
    fix a c assume ac: "a < NBUF" "c < NBUF" "dev ((B(b := y)) a) = D \<and> dev ((B(b := y)) c) = D \<and> blockno ((B(b := y)) a) = blockno ((B(b := y)) c)"
    then show "a = c" using u onceD[OF assms(1)] assms(3,4) by (metis fun_upd_apply)
  qed
qed

lemma slot_upd:
  assumes "once D B" "placed D bno B b" "dev y = D" "blockno y = bno"
  shows "slot D (B(b := y)) bn = (if bn = bno then Some b else if slot D B bn = Some b then None else slot D B bn)"
proof -
  note o = once_upd[OF assms]
  have b: "b < NBUF" using assms(2) by (auto simp: placed_def)
  have same: "slot D (B(b := y)) bno = Some b" using slot_eq[OF o b] assms(3,4) by simp
  have "slot D (B(b := y)) bn = (if slot D B bn = Some b then None else slot D B bn)" if bn: "bn \<noteq> bno"
  proof (cases "slot D B bn")
    case None
    then have "slot D (B(b := y)) bn = None" using assms(3,4) bn unfolding slot_None by auto
    with None show ?thesis by simp
  next
    case (Some c)
    note c = slot_Some[OF Some]
    show ?thesis
    proof (cases "c = b")
      case True
      have "a = b" if "a < NBUF" "dev (B a) = D" "blockno (B a) = bn" for a using slot_eq[OF assms(1) that] Some True by simp
      then have "slot D (B(b := y)) bn = None" unfolding slot_None using assms(3,4) bn by auto
      with True Some show ?thesis by simp
    next
      case False
      then show ?thesis using slot_eq[OF o, of c bn] c Some by simp
    qed
  qed
  with same show ?thesis by simp
qed

lemma view_upd:
  assumes o: "once D B" and pl: "placed D bno B b" and y: "dev y = D" "blockno y = bno" "valid y"
    and clean: "refcnt (B b) = 0 \<Longrightarrow> dev (B b) = D \<Longrightarrow> valid (B b) \<Longrightarrow> block_of (bdata (B b)) = block_of (d (blockno (B b)))"
  shows "view D (B(b := y)) d = (view D B d)(bno := block_of (bdata y))"
proof
  fix bn
  note s = slot_upd[OF o pl y(1,2), of bn]
  show "view D (B(b := y)) d bn = ((view D B d)(bno := block_of (bdata y))) bn"
  proof (cases "bn = bno")
    case True
    then show ?thesis using s y(3) by (simp add: view_def)
  next
    case False
    show ?thesis
    proof (cases "slot D B bn = Some b")
      case True
      note c = slot_Some[OF True]
      have "slot D B bno \<noteq> Some b" using c False slot_Some[of D B bno b] by auto
      then have "refcnt (B b) = 0" using pl by (auto simp: placed_def)
      then have "valid (B b) \<Longrightarrow> block_of (bdata (B b)) = block_of (d bn)" using clean c by auto
      then show ?thesis using s False True by (simp add: view_def)
    next
      case ne: False
      then show ?thesis using s False slot_Some[of D B bn] by (auto simp: view_def split: option.splits)
    qed
  qed
qed

lemma cache_upd:
  assumes "cache_ok D B d" "got p D bno B d b x" "dev y = D" "blockno y = bno" "refcnt y \<noteq> 0"
  shows "cache_ok D (B(b := y)) d"
  using assms once_upd[OF cache_once[OF assms(1)] got_placed[OF assms(2)] assms(3,4)] by (simp add: cache_ok_def)

text \<open>What a release leaves of a buffer, and what it keeps.\<close>

definition unlocked :: "buf \<Rightarrow> buf" where
  "unlocked x = x\<lparr>slock := \<lparr>slocked = False, spid = 0\<rparr>, refcnt := refcnt x - 1\<rparr>"

definition same :: "'a fs \<Rightarrow> 'a fs \<Rightarrow> bool" where
  "same s s' \<longleftrightarrow> disk s' = disk s \<and> dwrites s' = dwrites s \<and> log s' = log s \<and> mypid s' = mypid s"

lemma mypid_simps [simp]: "mypid (s\<lparr>bufs := B\<rparr>) = mypid s" "mypid (s\<lparr>lru := l\<rparr>) = mypid s" "mypid (s\<lparr>disk := d\<rparr>) = mypid s"
  "mypid (s\<lparr>dwrites := ws\<rparr>) = mypid s" "mypid (s\<lparr>log := g\<rparr>) = mypid s"
  by (simp_all add: mypid_def)

lemma brelse_unlocks:
  assumes "slock (bufs s b) = \<lparr>slocked = True, spid = mypid s\<rparr>" "lru_ok (lru s)" "b < NBUF"
  shows "\<exists>s'. brelse b s = Ok s' \<and> bufs s' = (bufs s)(b := unlocked (bufs s b)) \<and> lru_ok (lru s') \<and> same s s'"
proof -
  let ?w = "\<lambda>s. wake_chan (BufLock b) s"
  have w: "bufs (?w s) = bufs s" "lru (?w s) = lru s" "disk (?w s) = disk s" "dwrites (?w s) = dwrites s" "log (?w s) = log s"
      "mypid (?w s) = mypid s" for s :: "'a fs"
    by (simp_all add: wake_chan_def wakeup_def mypid_def wake_def Let_def)
  have l: "lru_ok (b # remove1 b (lru s))" using assms(2,3) by (auto simp: lru_ok_def set_remove1_eq)
  have h: "holdingsleep (slock (bufs s b)) s" using assms(1) by (simp add: holdingsleep_def)
  show ?thesis using h l assms(2)
    by (auto simp: brelse_def Let_def releasesleep_def bupd_def w same_def unlocked_def)
qed

section \<open>Copying a block\<close>

text \<open>Between operations of a transaction nobody holds a buffer.\<close>

definition idle :: "u32 \<Rightarrow> (nat \<Rightarrow> buf) \<Rightarrow> (u32 \<Rightarrow> mem) \<Rightarrow> bool" where
  "idle D B d \<longleftrightarrow> cache_ok D B d \<and> (\<forall>b<NBUF. \<not> slocked (slock (B b)) \<and> refcnt (B b) \<noteq> -1)"

definition cache_idle :: "u32 \<Rightarrow> 'a fs \<Rightarrow> bool" where
  "cache_idle D s \<longleftrightarrow> idle D (bufs s) (disk s) \<and> lru_ok (lru s)"

definition pinned :: "u32 \<Rightarrow> (nat \<Rightarrow> buf) \<Rightarrow> u32 \<Rightarrow> bool" where
  "pinned D B bno \<longleftrightarrow> (\<exists>b. slot D B bno = Some b \<and> refcnt (B b) \<noteq> 0)"

definition free_bufs :: "(nat \<Rightarrow> buf) \<Rightarrow> nat set" where
  "free_bufs B = {b. b < NBUF \<and> refcnt (B b) = 0}"

lemma finite_free [simp]: "finite (free_bufs B)"
  by (simp add: free_bufs_def)

text \<open>Two blocks read one after the other.\<close>

lemma two_reads:
  assumes q: "cache_idle D s" and ne: "X \<noteq> Y" and f: "free_bufs (bufs s) \<noteq> {}" "pinned D (bufs s) Y \<or> 2 \<le> card (free_bufs (bufs s))"
  shows "\<exists>b x c y. let B = bufs s; s1 = s\<lparr>bufs := B(b := x)\<rparr>; s2 = s\<lparr>bufs := B(b := x, c := y)\<rparr> in
    bread D X s = Ok (b, s1) \<and> bread D Y s1 = Ok (c, s2) \<and> b \<noteq> c \<and>
    got (mypid s) D X B (disk s) b x \<and> got (mypid s) D Y (B(b := x)) (disk s) c y \<and>
    cache_ok D (B(b := x)) (disk s) \<and> view D (B(b := x)) (disk s) = view D B (disk s)"
proof -
  have C: "cache_ok D (bufs s) (disk s)" "lru_ok (lru s)" using q by (auto simp: cache_idle_def idle_def)
  have "ready D X (bufs s)" using q f(1) slot_Some[of D "bufs s" X] by (auto simp: ready_def cache_idle_def idle_def free_bufs_def split: option.splits)
  from bread_got[OF C this] obtain b x where 1: "bread D X s = Ok (b, s\<lparr>bufs := (bufs s)(b := x)\<rparr>)" "got (mypid s) D X (bufs s) (disk s) b x" by blast
  let ?B = "(bufs s)(b := x)" and ?s = "s\<lparr>bufs := (bufs s)(b := x)\<rparr>"
  have x: "dev x = D" "blockno x = X" "valid x" "refcnt x \<noteq> 0" "block_of (bdata x) = view D (bufs s) (disk s) X" "b < NBUF"
    using 1(2) by (auto simp: got_def)
  have C1: "cache_ok D ?B (disk s)" by (rule cache_upd[OF C(1) 1(2) x(1,2,4)])
  have v: "view D ?B (disk s) = view D (bufs s) (disk s)" using view_upd[OF cache_once[OF C(1)] got_placed[OF 1(2)] x(1-3), of "disk s"] x(5,6) C(1) by (simp add: cache_ok_def)
  have sl: "slot D ?B Y = (if slot D (bufs s) Y = Some b then None else slot D (bufs s) Y)"
    using slot_upd[OF cache_once[OF C(1)] got_placed[OF 1(2)] x(1,2), of Y] ne by simp
  have "ready D Y ?B"
  proof (cases "slot D ?B Y")
    case None
    then have "\<not> pinned D (bufs s) Y" using sl 1(2) ne slot_Some[of D "bufs s" X b] slot_Some[of D "bufs s" Y b]
      by (auto simp: pinned_def got_def split: if_splits)
    then have "2 \<le> card (free_bufs (bufs s))" using f(2) by simp
    then have "\<not> free_bufs (bufs s) \<subseteq> {b}" using card_mono[of "{b}" "free_bufs (bufs s)"] by auto
    then show ?thesis using None by (auto simp: ready_def free_bufs_def)
  next
    case (Some c)
    with sl have "slot D (bufs s) Y = Some c" "c \<noteq> b" by (auto split: if_splits)
    with slot_Some[OF this(1)] Some q show ?thesis by (simp add: ready_def cache_idle_def idle_def)
  qed
  with bread_got[of D ?s Y] C1 C(2) obtain c y where 2: "bread D Y ?s = Ok (c, ?s\<lparr>bufs := ?B(c := y)\<rparr>)"
      "got (mypid s) D Y ?B (disk s) c y" by auto
  have "c \<noteq> b" using 2(2) sl x slot_Some[of D ?B Y] ne by (auto simp: got_def)
  then show ?thesis using 1 2 C1 v by (auto simp: Let_def)
qed

lemma once_cong:
  assumes "\<And>a. dev (B' a) = dev (B a) \<and> blockno (B' a) = blockno (B a)"
  shows "once D B' = once D B" "slot D B' bn = slot D B bn"
  using assms by (simp_all add: once_def slot_def)

lemma free_view:
  assumes "cache_ok D B d" "placed D X B b" "refcnt (B b) = 0" shows "view D B d X = block_of (d X)"
  using assms slot_Some[of D B X b] by (auto simp: placed_def cache_ok_def view_def)

text \<open>
  The effect of one buffer on an idle cache: block \<open>X\<close> was put in its place, got the data of \<open>y\<close>, was
  possibly written and unpinned, and was released.
\<close>

lemma settle:
  assumes i: "idle D B d" and pl: "placed D X B b" and y: "dev y = D" "blockno y = X" "valid y" "\<not> slocked (slock y)"
    and r: "refcnt y = refcnt (B b) - (if u then 1 else 0)" "u \<Longrightarrow> refcnt (B b) \<noteq> 0"
    and clean: "refcnt y = 0 \<Longrightarrow> block_of (bdata y) = block_of (d' X)" and d: "\<And>n. n \<noteq> X \<Longrightarrow> d' n = d n"
  shows "idle D (B(b := y)) d'" "view D (B(b := y)) d' = (view D B d)(X := block_of (bdata y))"
    "pinned D B n \<Longrightarrow> pinned D (B(b := y)) n \<or> n = X \<and> u" "free_bufs B \<subseteq> free_bufs (B(b := y))"
proof -
  have C: "cache_ok D B d" "once D B" "b < NBUF" using i pl by (auto simp: idle_def cache_ok_def placed_def)
  note o = once_upd[OF C(2) pl y(1,2)]
  have sl: "slot D (B(b := y)) n = (if n = X then Some b else if slot D B n = Some b then None else slot D B n)" for n
    by (rule slot_upd[OF C(2) pl y(1,2)])
  have other: "blockno (B a) \<noteq> X" if "a < NBUF" "a \<noteq> b" "dev (B a) = D" for a
    using slot_eq[OF C(2) that(1,3)] pl that(2) by (auto simp: placed_def)
  have "refcnt y \<noteq> -1" using r i C(3) by (cases u) (auto simp: idle_def)
  moreover have "cache_ok D (B(b := y)) d'"
    using C(1) o y(1,2,4) clean d other by (auto simp: cache_ok_def)
  ultimately show "idle D (B(b := y)) d'" using i y(4) by (auto simp: idle_def)
  have "view D (B(b := y)) d = (view D B d)(X := block_of (bdata y))"
    using view_upd[OF C(2) pl y(1-3), of d] C(1,3) by (auto simp: cache_ok_def)
  moreover have "view D (B(b := y)) d' n = view D (B(b := y)) d n" for n
    using sl[of n] d[of n] y(3) by (cases "n = X") (auto simp: view_def split: option.splits)
  ultimately show "view D (B(b := y)) d' = (view D B d)(X := block_of (bdata y))" by auto
  show "pinned D (B(b := y)) n \<or> n = X \<and> u" if "pinned D B n"
    using that sl[of n] r pl slot_Some[of D B n b] slot_Some[of D B X b] by (auto simp: pinned_def placed_def)
  show "free_bufs B \<subseteq> free_bufs (B(b := y))" using r by (auto simp: free_bufs_def split: if_splits)
qed

section \<open>Writing a block through the cache\<close>

text \<open>Block \<open>X\<close> was written with content \<open>m\<close>, and unpinned if \<open>u\<close>; the cache is cache_idle again.\<close>

definition put_block :: "u32 \<Rightarrow> u32 \<Rightarrow> mem \<Rightarrow> bool \<Rightarrow> 'a fs \<Rightarrow> 'a fs \<Rightarrow> bool" where
  "put_block D X m u s s' \<longleftrightarrow> cache_idle D s' \<and> view D (bufs s') (disk s') = (view D (bufs s) (disk s))(X := m) \<and>
     disk s' = (disk s)(X := m) \<and> dwrites s' = (X, m) # dwrites s \<and> log s' = log s \<and>
     (\<forall>n. pinned D (bufs s) n \<longrightarrow> pinned D (bufs s') n \<or> n = X \<and> u) \<and> card (free_bufs (bufs s)) \<le> card (free_bufs (bufs s'))"

lemma block_of_copy: "block_of (\<lambda>x. if unat x < BSIZE then m x else m' x) = block_of m"
  by (auto simp: block_of_def)

lemma bwrite_held:
  assumes "slock (bufs s b) = \<lparr>slocked = True, spid = mypid s\<rparr>"
  shows "bwrite b s = Ok (s\<lparr>disk := (disk s)(blockno (bufs s b) := block_of (bdata (bufs s b))),
     dwrites := (blockno (bufs s b), block_of (bdata (bufs s b))) # dwrites s\<rparr>)"
  using assms by (simp add: bwrite_def holdingsleep_def disk_rw_def)

text \<open>The releases of two held buffers.\<close>

lemma two_releases:
  assumes "b \<noteq> c" "b < NBUF" "c < NBUF" "lru_ok (lru s)"
    and "slock (bufs s b) = \<lparr>slocked = True, spid = mypid s\<rparr>" "slock (bufs s c) = \<lparr>slocked = True, spid = mypid s\<rparr>"
  shows "\<exists>s'. bind_res (brelse c s) (brelse b) = Ok s' \<and> bufs s' = (bufs s)(b := unlocked (bufs s b), c := unlocked (bufs s c))
    \<and> lru_ok (lru s') \<and> same s s'"
proof -
  obtain s1 where 1: "brelse c s = Ok s1" "bufs s1 = (bufs s)(c := unlocked (bufs s c))" "lru_ok (lru s1)" "same s s1"
    using brelse_unlocks[OF assms(6,4,3)] by blast
  have "slock (bufs s1 b) = \<lparr>slocked = True, spid = mypid s1\<rparr>" using assms(1,5) 1 by (simp add: same_def)
  from brelse_unlocks[OF this 1(3) assms(2)] obtain s2 where "brelse b s1 = Ok s2" "bufs s2 = (bufs s1)(b := unlocked (bufs s1 b))"
      "lru_ok (lru s2)" "same s1 s2" by blast
  with 1 assms(1) show ?thesis by (simp add: same_def fun_upd_twist)
qed

text \<open>The final state of two buffers, the one written and the one read.\<close>

lemma settle_two:
  assumes q: "cache_idle D s" and ne: "X \<noteq> Y" "b \<noteq> c"
    and g: "got p D X (bufs s) (disk s) b x" "got p D Y ((bufs s)(b := x)) (disk s) c y"
    and C: "cache_ok D ((bufs s)(b := x)) (disk s)" "view D ((bufs s)(b := x)) (disk s) = view D (bufs s) (disk s)"
    and x': "x' = (if first then unlocked (x\<lparr>bdata := m, refcnt := refcnt x - w\<rparr>) else unlocked x)"
    and y': "y' = (if first then unlocked y else unlocked (y\<lparr>bdata := m, refcnt := refcnt y - w\<rparr>))"
    and Z: "Z = (if first then X else Y)" and w: "w = (if u then 1 else 0)" "u \<Longrightarrow> pinned D (bufs s) Z"
    and fin: "bufs s' = (bufs s)(b := x', c := y')" "disk s' = (disk s)(Z := block_of m)" "dwrites s' = (Z, block_of m) # dwrites s"
      "log s' = log s" "lru_ok (lru s')"
  shows "put_block D Z (block_of m) u s s'"
proof -
  let ?B = "bufs s" and ?d = "disk s" and ?d' = "(disk s)(Z := block_of m)"
  have i: "idle D ?B ?d" "cache_ok D ?B ?d" using q by (auto simp: cache_idle_def idle_def)
  have px: "placed D X ?B b" by (rule got_placed[OF g(1)])
  have X: "dev x' = D" "blockno x' = X" "valid x'" "\<not> slocked (slock x')"
    using g(1) by (auto simp: x' unlocked_def got_def)
  have pinb: "refcnt (?B b) \<noteq> 0" if "u" "first" using w(2) that px by (auto simp: Z pinned_def placed_def)
  have rx: "refcnt x' = refcnt (?B b) - (if first \<and> u then 1 else 0)"
    using g(1) pinb by (auto simp: x' unlocked_def got_def w(1) algebra_simps)
  let ?d1 = "if first then ?d' else ?d"
  have s1: "idle D (?B(b := x')) ?d1" "view D (?B(b := x')) ?d1 = (view D ?B ?d)(X := block_of (bdata x'))"
      "\<And>n. pinned D ?B n \<Longrightarrow> pinned D (?B(b := x')) n \<or> n = X \<and> first \<and> u" "free_bufs ?B \<subseteq> free_bufs (?B(b := x'))"
    using settle[OF i(1) px X rx, of ?d1] pinb free_view[OF i(2) px] g(1) rx
    by (auto simp: Z x' unlocked_def got_def)
  have py: "placed D Y (?B(b := x')) c"
  proof -
    have "slot D (?B(b := x')) Y = slot D (?B(b := x)) Y" using X g(1) by (intro once_cong) (auto simp: got_def)
    then show ?thesis using got_placed[OF g(2)] ne(2) by (simp add: placed_def)
  qed
  have Y: "dev y' = D" "blockno y' = Y" "valid y'" "\<not> slocked (slock y')"
    using g(2) by (auto simp: y' unlocked_def got_def)
  have pinc: "refcnt ((?B(b := x')) c) \<noteq> 0" if uf: "u" "\<not> first"
  proof -
    obtain e where e: "slot D ?B Y = Some e" "refcnt (?B e) \<noteq> 0" using w(2)[OF uf(1)] uf(2) by (auto simp: Z pinned_def)
    then have "e \<noteq> b" using px slot_Some[OF e(1)] slot_Some[of D ?B X b] ne(1) by (auto simp: placed_def)
    moreover have "dev x = D" "blockno x = X" using g(1) by (auto simp: got_def)
    ultimately have "slot D (?B(b := x)) Y = Some e"
      using slot_upd[OF cache_once[OF i(2)] px, of x Y] ne(1) e(1) by simp
    then show ?thesis using g(2) e(2) ne(2) by (auto simp: got_def)
  qed
  have ry: "refcnt y' = refcnt ((?B(b := x')) c) - (if \<not> first \<and> u then 1 else 0)"
    using g(2) ne(2) by (auto simp: y' unlocked_def got_def w(1) algebra_simps)
  have cl: "block_of (bdata y') = block_of (?d' Y)" if "refcnt y' = 0"
    using that ry free_view[OF C(1) got_placed[OF g(2)]] g(2) ne by (auto simp: y' unlocked_def got_def Z)
  have d: "?d' n = ?d1 n" if "n \<noteq> Y" for n using that by (auto simp: Z)
  note s2 = settle[where d' = ?d' and B = "?B(b := x')" and b = c, OF s1(1) py Y ry _ cl d]
  have vx: "block_of (bdata x') = (if first then block_of m else view D ?B ?d X)" using g(1) by (auto simp: x' unlocked_def got_def)
  have vy: "block_of (bdata y') = (if first then view D ?B ?d Y else block_of m)" using g(2) C(2) by (auto simp: y' unlocked_def got_def)
  have "cache_idle D s'" using s2(1) pinc fin by (auto simp: cache_idle_def)
  moreover have "view D (bufs s') (disk s') = (view D ?B ?d)(Z := block_of m)"
  proof
    have e: "view D (bufs s') (disk s') = (view D ?B ?d)(X := block_of (bdata x'), Y := block_of (bdata y'))"
      using s2(2) pinc s1(2) fin(1,2) by simp
    show "view D (bufs s') (disk s') n = ((view D ?B ?d)(Z := block_of m)) n" for n
      unfolding e vx vy Z using ne(1) by simp
  qed
  moreover have "pinned D ?B n \<longrightarrow> pinned D (bufs s') n \<or> n = Z \<and> u" for n
    using s2(3)[of n] s1(3)[of n] pinc fin(1) by (auto simp: Z)
  moreover have "card (free_bufs ?B) \<le> card (free_bufs (bufs s'))"
    using s2(4) s1(4) pinc fin(1) by (intro card_mono) auto
  ultimately show ?thesis using fin by (simp add: put_block_def)
qed

lemma copy_buf_eq:
  "copy_buf dst src s = s\<lparr>bufs := (bufs s)(dst := (bufs s dst)\<lparr>bdata :=
     (\<lambda>z. if unat z < BSIZE then bdata (bufs s src) z else bdata (bufs s dst) z)\<rparr>)\<rparr>"
  by (cases "bufs s dst") (simp add: copy_buf_def bupd_def cong: if_cong)

text \<open>One round of \<open>write_log\<close>: the cached content of \<open>Y\<close> goes to block \<open>X\<close>.\<close>

lemma log_copy:
  assumes q: "cache_idle D s" and ne: "X \<noteq> Y" and f: "free_bufs (bufs s) \<noteq> {}" "pinned D (bufs s) Y \<or> 2 \<le> card (free_bufs (bufs s))"
  shows "\<exists>b s1 c s2 s3 s'. bread D X s = Ok (b, s1) \<and> log s1 = log s \<and> bread D Y s1 = Ok (c, s2) \<and>
    bwrite b (copy_buf b c s2) = Ok s3 \<and> bind_res (brelse c s3) (brelse b) = Ok s' \<and>
    put_block D X (view D (bufs s) (disk s) Y) False s s'"
proof -
  from two_reads[OF q ne f] obtain b x c y where r:
    "bread D X s = Ok (b, s\<lparr>bufs := (bufs s)(b := x)\<rparr>)"
    "bread D Y (s\<lparr>bufs := (bufs s)(b := x)\<rparr>) = Ok (c, s\<lparr>bufs := (bufs s)(b := x, c := y)\<rparr>)" "b \<noteq> c"
    "got (mypid s) D X (bufs s) (disk s) b x" "got (mypid s) D Y ((bufs s)(b := x)) (disk s) c y"
    "cache_ok D ((bufs s)(b := x)) (disk s)" "view D ((bufs s)(b := x)) (disk s) = view D (bufs s) (disk s)"
    unfolding Let_def by blast
  define m where "m = (\<lambda>z. if unat z < BSIZE then bdata y z else bdata x z)"
  have m: "block_of m = view D (bufs s) (disk s) Y" using r(5,7) by (simp add: m_def block_of_copy got_def)
  define s2 where "s2 = s\<lparr>bufs := (bufs s)(b := x\<lparr>bdata := m\<rparr>, c := y)\<rparr>"
  have c2: "copy_buf b c (s\<lparr>bufs := (bufs s)(b := x, c := y)\<rparr>) = s2"
    using r(3) by (simp add: copy_buf_eq s2_def m_def fun_upd_twist cong: if_cong)
  define s3 where "s3 = s2\<lparr>disk := (disk s)(X := block_of m), dwrites := (X, block_of m) # dwrites s\<rparr>"
  have w: "bwrite b s2 = Ok s3" using bwrite_held[of s2 b] r(3,4) by (simp add: s2_def s3_def got_def)
  have "lru_ok (lru s3)" "slock (bufs s3 b) = \<lparr>slocked = True, spid = mypid s3\<rparr>" "slock (bufs s3 c) = \<lparr>slocked = True, spid = mypid s3\<rparr>"
      "b < NBUF" "c < NBUF"
    using q r(3-5) by (auto simp: s3_def s2_def cache_idle_def got_def)
  with two_releases[of b c s3] r(3) obtain s' where rel: "bind_res (brelse c s3) (brelse b) = Ok s'"
      "bufs s' = (bufs s3)(b := unlocked (bufs s3 b), c := unlocked (bufs s3 c))" "lru_ok (lru s')" "same s3 s'" by blast
  have "put_block D X (block_of m) False s s'"
  proof (rule settle_two[OF q ne r(3-7), where first = True and m = m and w = 0 and u = False])
    show "bufs s' = (bufs s)(b := unlocked (x\<lparr>bdata := m, refcnt := refcnt x - 0\<rparr>), c := unlocked y)"
      using rel(2) r(3) by (simp add: s3_def s2_def fun_upd_twist)
  qed (use rel(3,4) in \<open>simp_all add: same_def s3_def s2_def\<close>)
  then show ?thesis using r(1,2) c2 w rel(1) m
    by (intro exI[of _ b] exI[of _ "s\<lparr>bufs := (bufs s)(b := x)\<rparr>"] exI[of _ c] exI[of _ "s\<lparr>bufs := (bufs s)(b := x, c := y)\<rparr>"] exI[of _ s3] exI[of _ s']) simp
qed

text \<open>One round of \<open>install_trans\<close>: the content of the log block \<open>X\<close> goes to block \<open>Y\<close>.\<close>

lemma install_copy:
  assumes q: "cache_idle D s" and ne: "X \<noteq> Y" and f: "free_bufs (bufs s) \<noteq> {}" "pinned D (bufs s) Y \<or> 2 \<le> card (free_bufs (bufs s))"
    and p: "\<not> rec \<Longrightarrow> pinned D (bufs s) Y"
  shows "\<exists>b s1 c s2 s3 s'. bread D X s = Ok (b, s1) \<and> log s1 = log s \<and> bread D Y s1 = Ok (c, s2) \<and>
    bwrite c (copy_buf c b s2) = Ok s3 \<and> bind_res (brelse b (if rec then s3 else bunpin c s3)) (brelse c) = Ok s' \<and>
    put_block D Y (view D (bufs s) (disk s) X) (\<not> rec) s s'"
proof -
  from two_reads[OF q ne f] obtain b x c y where r:
    "bread D X s = Ok (b, s\<lparr>bufs := (bufs s)(b := x)\<rparr>)"
    "bread D Y (s\<lparr>bufs := (bufs s)(b := x)\<rparr>) = Ok (c, s\<lparr>bufs := (bufs s)(b := x, c := y)\<rparr>)" "b \<noteq> c"
    "got (mypid s) D X (bufs s) (disk s) b x" "got (mypid s) D Y ((bufs s)(b := x)) (disk s) c y"
    "cache_ok D ((bufs s)(b := x)) (disk s)" "view D ((bufs s)(b := x)) (disk s) = view D (bufs s) (disk s)"
    unfolding Let_def by blast
  define m where "m = (\<lambda>z. if unat z < BSIZE then bdata x z else bdata y z)"
  have m: "block_of m = view D (bufs s) (disk s) X" using r(4) by (simp add: m_def block_of_copy got_def)
  define w where "w = (if \<not> rec then 1 else 0 :: u32)"
  define s2 where "s2 = s\<lparr>bufs := (bufs s)(b := x, c := y\<lparr>bdata := m\<rparr>)\<rparr>"
  have c2: "copy_buf c b (s\<lparr>bufs := (bufs s)(b := x, c := y)\<rparr>) = s2"
    using r(3) by (simp add: copy_buf_eq s2_def m_def cong: if_cong)
  define s3 where "s3 = s2\<lparr>disk := (disk s)(Y := block_of m), dwrites := (Y, block_of m) # dwrites s\<rparr>"
  have wr: "bwrite c s2 = Ok s3" using bwrite_held[of s2 c] r(3,5) by (simp add: s2_def s3_def got_def)
  define s4 where "s4 = (if rec then s3 else bunpin c s3)"
  have s4: "bufs s4 = (bufs s)(b := x, c := y\<lparr>bdata := m, refcnt := refcnt y - w\<rparr>)" "disk s4 = disk s3" "dwrites s4 = dwrites s3"
      "log s4 = log s" "lru s4 = lru s" "mypid s4 = mypid s"
    using r(3) by (auto simp: s4_def s3_def s2_def bunpin_def bupd_def w_def)
  have "lru_ok (lru s4)" "slock (bufs s4 c) = \<lparr>slocked = True, spid = mypid s4\<rparr>" "slock (bufs s4 b) = \<lparr>slocked = True, spid = mypid s4\<rparr>"
      "c < NBUF" "b < NBUF"
    using q r(3-5) by (auto simp: s4 cache_idle_def got_def)
  with two_releases[of c b s4] r(3) obtain s' where rel: "bind_res (brelse b s4) (brelse c) = Ok s'"
      "bufs s' = (bufs s4)(c := unlocked (bufs s4 c), b := unlocked (bufs s4 b))" "lru_ok (lru s')" "same s4 s'" by blast
  have "put_block D Y (block_of m) (\<not> rec) s s'"
  proof (rule settle_two[OF q ne r(3-7), where first = False and m = m and w = w and u = "\<not> rec"])
    show "bufs s' = (bufs s)(b := unlocked x, c := unlocked (y\<lparr>bdata := m, refcnt := refcnt y - w\<rparr>))"
      using rel(2) r(3) by (simp add: s4 fun_upd_twist)
    show "\<not> rec \<Longrightarrow> pinned D (bufs s) Y" using p by simp
  qed (use rel(3,4) s4 in \<open>simp_all add: same_def s3_def s2_def w_def\<close>)
  then show ?thesis using r(1,2) c2 wr rel(1) m unfolding s4_def
    by (intro exI[of _ b] exI[of _ "s\<lparr>bufs := (bufs s)(b := x)\<rparr>"] exI[of _ c] exI[of _ "s\<lparr>bufs := (bufs s)(b := x, c := y)\<rparr>"] exI[of _ s3] exI[of _ s']) simp
qed

end
