(* ===== verification/Le_Fields.thy ===== *)
theory Le_Fields
  imports Cstring
begin

text \<open>Little-endian fields in a block: what a load returns after stores to the same and to other fields.\<close>

lemma load_le_cong:
  assumes "\<And>i. i < k \<Longrightarrow> m (a + of_nat i) = m' (a + of_nat i)"
  shows "(load_le m a k :: 'a::len word) = load_le m' a k"
  using assms by (intro bit_word_eqI) (auto simp: bit_load_le less_mult_imp_div_less mult.commute)

lemma load_le_store_same:
  fixes v :: "'a::len word"
  assumes "LENGTH('a) = 8 * k" "k \<le> 8" shows "load_le (store_le m a v k) a k = v"
proof (rule bit_word_eqI)
  fix n assume n: "n < LENGTH('a)"
  have k: "n div 8 < k" using n assms(1) by (simp add: less_mult_imp_div_less mult.commute)
  then have "n div 8 < 2 ^ 64" using assms(2) by simp
  then have "unat (of_nat (n div 8) :: u64) = n div 8" by (simp add: unat_of_nat)
  with k n assms(1) show "bit (load_le (store_le m a v k) a k :: 'a word) n = bit v n"
    by (simp add: bit_load_le store_le_def bit_simps)
qed

text \<open>Fields are intervals of offsets that do not wrap around.\<close>

definition apart :: "u64 \<Rightarrow> nat \<Rightarrow> u64 \<Rightarrow> nat \<Rightarrow> bool" where
  "apart a k b l \<longleftrightarrow> (unat a + k \<le> unat b \<or> unat b + l \<le> unat a) \<and> unat a + k < 2 ^ 64 \<and> unat b + l < 2 ^ 64"

lemma apart_sym: "apart a k b l = apart b l a k"
  by (auto simp: apart_def)

lemma store_le_apart:
  assumes "apart a k b l" "i < l" shows "store_le m a v k (b + of_nat i) = m (b + of_nat i)"
proof -
  have u: "unat (b + of_nat i) = unat b + i" using assms by (intro unat_add_small) (auto simp: apart_def)
  have "k \<le> unat (b + of_nat i - a)"
  proof (cases "unat a + k \<le> unat b")
    case True
    then have "a \<le> b + of_nat i" using u by (simp add: word_le_nat_alt)
    then show ?thesis using True u by (simp add: unat_sub)
  next
    case False
    then have l: "unat b + l \<le> unat a" using assms by (auto simp: apart_def)
    then have lt: "b + of_nat i < a" using u assms(2) by (simp add: word_less_nat_alt)
    have "uint (b + of_nat i - a) = (uint (b + of_nat i) - uint a) mod 2 ^ 64" by (simp add: uint_word_ariths(2))
    also have "uint (b + of_nat i) - uint a = int (unat b + i) - int (unat a)" unfolding uint_nat u ..
    also have "\<dots> mod 2 ^ 64 = (int (unat b + i) - int (unat a) + 2 ^ 64) mod 2 ^ 64" by simp
    also have "\<dots> = int (unat b + i) - int (unat a) + 2 ^ 64"
    proof (rule mod_pos_pos_trivial)
      have "int (unat a) < 2 ^ 64" using unsigned_less[of a, where 'a = int] by simp
      then show "0 \<le> int (unat b + i) - int (unat a) + 2 ^ 64" by linarith
      show "int (unat b + i) - int (unat a) + 2 ^ 64 < 2 ^ 64" using l assms(2) by linarith
    qed
    finally have "int (unat (b + of_nat i - a)) = int (unat b + i) - int (unat a) + 2 ^ 64" by (simp only: uint_nat)
    moreover have "int (unat a) + int k < 2 ^ 64"
    proof -
      have "unat a + k < 2 ^ 64" using assms(1) by (simp only: apart_def)
      then have "int (unat a + k) < int (2 ^ 64)" by (simp only: of_nat_less_iff)
      then show ?thesis by (simp only: of_nat_add of_nat_power of_nat_numeral)
    qed
    ultimately show ?thesis by linarith
  qed
  then show ?thesis by (simp add: store_le_def)
qed

lemma load_le_store_apart:
  "apart a k b l \<Longrightarrow> (load_le (store_le m a v k) b l :: 'a::len word) = load_le m b l"
  by (rule load_le_cong) (rule store_le_apart)

end
