(* ===== verification/Crash.thy ===== *)
theory Crash
  imports Cache Le_Fields Sharing
begin

text \<open>
  Atomicity of the log: a crash at any point of \<open>commit\<close>, followed by recovery, leaves either all or
  none of the transaction's blocks on the disk.
\<close>

section \<open>The log header\<close>

definition head_n :: "mem \<Rightarrow> int" where "head_n m = sint (load_le m 0 4 :: u32)"
definition head_block :: "mem \<Rightarrow> nat \<Rightarrow> u32" where "head_block m i = load_le m (4 + 4 * of_nat i) 4"

lemma unat_field: "i < 30 \<Longrightarrow> unat (4 + 4 * of_nat i :: u64) = 4 + 4 * i"
  by (simp add: unat_word_ariths unat_of_nat)

lemma load_le_block_of:
  assumes "unat a + k \<le> BSIZE" shows "(load_le (block_of m) a k :: 'a::len word) = load_le m a k"
proof (rule load_le_cong)
  fix i assume "i < k"
  then have "unat (a + of_nat i) = unat a + i" using assms by (intro unat_add_small) (simp add: BSIZE_def)
  then show "block_of m (a + of_nat i) = m (a + of_nat i)" using assms \<open>i < k\<close> by (simp add: block_of_def)
qed

lemma head_block_of: "head_n (block_of m) = head_n m" "i < 30 \<Longrightarrow> head_block (block_of m) i = head_block m i"
  unfolding head_n_def head_block_def
  by (subst load_le_block_of; simp add: BSIZE_def unat_field)+

lemma head_blocks_apart:
  "k \<le> 30 \<Longrightarrow> (\<And>i. i < k \<Longrightarrow> apart (4 + 4 * of_nat i) 4 a 4) \<Longrightarrow>
   (load_le (head_blocks bl k m) a 4 :: u32) = load_le m a 4"
  by (induction k) (simp_all add: load_le_store_apart)

lemma head_blocks_load:
  assumes "i < k" "k \<le> 30" shows "head_block (head_blocks bl k m) i = bl i"
  using assms
proof (induction k)
  case (Suc k)
  show ?case
  proof (cases "i = k")
    case True
    then show ?thesis by (simp add: head_block_def load_le_store_same)
  next
    case False
    then have "apart (4 + 4 * of_nat k) 4 (4 + 4 * of_nat i) 4" using Suc.prems by (simp add: apart_def unat_field)
    then show ?thesis using Suc False by (simp add: head_block_def load_le_store_apart)
  qed
qed simp

lemma head_roundtrip:
  assumes "0 \<le> n" "n \<le> 30"
  shows "head_n (head_blocks bl (nat n) (store_le m 0 (word_of_int n :: u32) 4)) = n"
    and "i < nat n \<Longrightarrow> head_block (head_blocks bl (nat n) (store_le m 0 (word_of_int n :: u32) 4)) i = bl i"
proof -
  have "(load_le (head_blocks bl (nat n) (store_le m 0 (word_of_int n :: u32) 4)) 0 4 :: u32) = load_le (store_le m 0 (word_of_int n :: u32) 4) 0 4"
    using assms by (intro head_blocks_apart) (auto simp: apart_def unat_field)
  also have "\<dots> = word_of_int n" by (simp add: load_le_store_same)
  finally show "head_n (head_blocks bl (nat n) (store_le m 0 (word_of_int n :: u32) 4)) = n"
    using assms by (simp add: head_n_def sint_word_of_int32)
  show "i < nat n \<Longrightarrow> head_block (head_blocks bl (nat n) (store_le m 0 (word_of_int n :: u32) 4)) i = bl i"
    using assms by (intro head_blocks_load) auto
qed

lemma read_one:
  assumes "cache_idle D s" "free_bufs (bufs s) \<noteq> {}"
  shows "\<exists>b x. bread D X s = Ok (b, s\<lparr>bufs := (bufs s)(b := x)\<rparr>) \<and> got (mypid s) D X (bufs s) (disk s) b x"
proof -
  have "ready D X (bufs s)" using assms slot_Some[of D "bufs s" X]
    by (auto simp: ready_def cache_idle_def idle_def free_bufs_def split: option.splits)
  with bread_got[of D s X] assms(1) show ?thesis by (auto simp: cache_idle_def idle_def)
qed

text \<open>Releasing the one buffer that was read, and perhaps changed and written.\<close>

lemma settle_one:
  assumes q: "cache_idle D s" and g: "got (mypid s) D X (bufs s) (disk s) b x"
    and m: "m = bdata x \<and> disk s' = disk s \<or> block_of m = block_of (disk s' X)"
    and fin: "bufs s' = (bufs s)(b := unlocked (x\<lparr>bdata := m\<rparr>))" "\<And>n. n \<noteq> X \<Longrightarrow> disk s' n = disk s n" "lru_ok (lru s')"
  shows "cache_idle D s'" "view D (bufs s') (disk s') = (view D (bufs s) (disk s))(X := block_of m)"
    "pinned D (bufs s) n \<Longrightarrow> pinned D (bufs s') n" "card (free_bufs (bufs s)) \<le> card (free_bufs (bufs s'))"
proof -
  let ?y = "unlocked (x\<lparr>bdata := m\<rparr>)"
  have i: "idle D (bufs s) (disk s)" "cache_ok D (bufs s) (disk s)" using q by (auto simp: cache_idle_def idle_def)
  have Y: "dev ?y = D" "blockno ?y = X" "valid ?y" "\<not> slocked (slock ?y)" "refcnt ?y = refcnt (bufs s b) - (if False then 1 else 0)"
    using g by (auto simp: unlocked_def got_def)
  have cl: "block_of (bdata ?y) = block_of (disk s' X)" if "refcnt ?y = 0"
    using m that Y(5) free_view[OF i(2) got_placed[OF g]] g by (auto simp: unlocked_def got_def)
  note s1 = settle[OF i(1) got_placed[OF g] Y _ cl fin(2)]
  show "cache_idle D s'" using s1(1) fin(1,3) by (simp add: cache_idle_def)
  show "view D (bufs s') (disk s') = (view D (bufs s) (disk s))(X := block_of m)" using s1(2) fin(1) by (simp add: unlocked_def)
  show "pinned D (bufs s) n \<Longrightarrow> pinned D (bufs s') n" using s1(3)[of n] fin(1) by simp
  show "card (free_bufs (bufs s)) \<le> card (free_bufs (bufs s'))" using s1(4) fin(1) by (intro card_mono) auto
qed

lemma write_head_put:
  assumes q: "cache_idle (ldev (log s)) s" and f: "free_bufs (bufs s) \<noteq> {}" and n: "0 \<le> lhn (log s)" "lhn (log s) \<le> 30"
  shows "\<exists>m s'. write_head s = Ok s' \<and> put_block (ldev (log s)) (lstart (log s)) (block_of m) False s s' \<and>
     head_n m = lhn (log s) \<and> (\<forall>i<nat (lhn (log s)). head_block m i = lhblock (log s) i)"
proof -
  let ?D = "ldev (log s)" and ?L = "lstart (log s)"
  obtain b x where r: "bread ?D ?L s = Ok (b, s\<lparr>bufs := (bufs s)(b := x)\<rparr>)" "got (mypid s) ?D ?L (bufs s) (disk s) b x"
    using read_one[OF q f] by blast
  define m where "m = head_blocks (lhblock (log s)) (nat (lhn (log s))) (store_le (bdata x) 0 (word_of_int (lhn (log s)) :: u32) 4)"
  define s1 where "s1 = s\<lparr>bufs := (bufs s)(b := x\<lparr>bdata := m\<rparr>)\<rparr>"
  define s2 where "s2 = s1\<lparr>disk := (disk s)(?L := block_of m), dwrites := (?L, block_of m) # dwrites s\<rparr>"
  have x: "b < NBUF" "blockno x = ?L" "slock x = \<lparr>slocked = True, spid = mypid s\<rparr>" using r(2) by (auto simp: got_def)
  have w: "bwrite b s1 = Ok s2" using bwrite_held[of s1 b] x by (simp add: s1_def s2_def)
  have "slock (bufs s2 b) = \<lparr>slocked = True, spid = mypid s2\<rparr>" "lru_ok (lru s2)" using x q by (simp_all add: s2_def s1_def cache_idle_def)
  from brelse_unlocks[OF this x(1)] obtain s' where rel: "brelse b s2 = Ok s'" "bufs s' = (bufs s2)(b := unlocked (bufs s2 b))"
      "lru_ok (lru s')" "same s2 s'" by blast
  have "write_head s = Ok s'"
    using r(1) w rel(1) by (cases x) (simp add: write_head_def Let_def bupd_def s1_def m_def)
  moreover have "put_block ?D ?L (block_of m) False s s'"
    using settle_one[OF q r(2), of m s'] rel by (auto simp: put_block_def same_def s2_def s1_def)
  moreover have "head_n m = lhn (log s)" "\<forall>i<nat (lhn (log s)). head_block m i = lhblock (log s) i"
    using head_roundtrip[OF n] by (simp_all add: m_def)
  ultimately show ?thesis by blast
qed

text \<open>Reading the header: only the log in memory changes.\<close>

definition read_only :: "u32 \<Rightarrow> 'a fs \<Rightarrow> 'a fs \<Rightarrow> bool" where
  "read_only D s s' \<longleftrightarrow> cache_idle D s' \<and> view D (bufs s') (disk s') = view D (bufs s) (disk s) \<and> disk s' = disk s \<and>
     dwrites s' = dwrites s \<and> card (free_bufs (bufs s)) \<le> card (free_bufs (bufs s'))"

lemma read_head_log:
  assumes q: "cache_idle (ldev (log s)) s" and f: "free_bufs (bufs s) \<noteq> {}"
    and v: "v = view (ldev (log s)) (bufs s) (disk s) (lstart (log s))" and n: "head_n v \<le> 30"
  shows "\<exists>s'. read_head s = Ok s' \<and> read_only (ldev (log s)) s s' \<and> lhn (log s') = head_n v \<and>
     (\<forall>i<nat (head_n v). lhblock (log s') i = head_block v i) \<and> ldev (log s') = ldev (log s) \<and> lstart (log s') = lstart (log s)"
proof -
  let ?D = "ldev (log s)" and ?L = "lstart (log s)"
  obtain b x where r: "bread ?D ?L s = Ok (b, s\<lparr>bufs := (bufs s)(b := x)\<rparr>)" "got (mypid s) ?D ?L (bufs s) (disk s) b x"
    using read_one[OF q f] by blast
  have x: "b < NBUF" "slock x = \<lparr>slocked = True, spid = mypid s\<rparr>" "block_of (bdata x) = v" using r(2) by (auto simp: got_def v)
  have hn: "head_n (bdata x) = head_n v" "\<And>i. i < 30 \<Longrightarrow> head_block (bdata x) i = head_block v i"
    using head_block_of(1)[of "bdata x"] head_block_of(2)[where m = "bdata x"] x(3) by auto
  define l where "l = (log s)\<lparr>lhn := head_n (bdata x),
    lhblock := (\<lambda>i. if i < nat (head_n (bdata x)) then head_block (bdata x) i else lhblock (log s) i)\<rparr>"
  define s1 where "s1 = s\<lparr>bufs := (bufs s)(b := x), log := l\<rparr>"
  have h: "read_head s = brelse b s1"
    using r(1) by (simp add: read_head_def Let_def lupd_def s1_def l_def head_n_def head_block_def cong: if_cong)
  have "slock (bufs s1 b) = \<lparr>slocked = True, spid = mypid s1\<rparr>" "lru_ok (lru s1)" using x q by (simp_all add: s1_def cache_idle_def)
  from brelse_unlocks[OF this x(1)] obtain s' where rel: "brelse b s1 = Ok s'" "bufs s' = (bufs s1)(b := unlocked (bufs s1 b))"
      "lru_ok (lru s')" "same s1 s'" by blast
  have e: "bufs s' = (bufs s)(b := unlocked (x\<lparr>bdata := bdata x\<rparr>))" "disk s' = disk s" "log s' = l" "dwrites s' = dwrites s"
    using rel(2,4) by (simp_all add: s1_def same_def)
  have "(view ?D (bufs s) (disk s))(?L := block_of (bdata x)) = view ?D (bufs s) (disk s)" using x(3) v by auto
  with settle_one[OF q r(2), of "bdata x" s'] e rel(3) have "read_only ?D s s'" by (simp add: read_only_def)
  moreover have "lhn l = head_n v" "\<forall>i<nat (head_n v). lhblock l i = head_block v i" "ldev l = ?D" "lstart l = ?L"
    using hn n by (simp_all add: l_def)
  ultimately show ?thesis using h rel(1) e(3) by auto
qed

section \<open>The loops of the log\<close>

text \<open>Disk writes in order of time, and what a sequence of them does through the cache.\<close>

definition apply_writes :: "(u32 \<times> mem) list \<Rightarrow> (u32 \<Rightarrow> mem) \<Rightarrow> u32 \<Rightarrow> mem" where
  "apply_writes ws d = fold (\<lambda>(b, m) d. d(b := m)) ws d"

lemma apply_writes_simps [simp]:
  "apply_writes [] d = d" "apply_writes ((b, m) # ws) d = apply_writes ws (d(b := m))"
  "apply_writes (ws @ vs) d = apply_writes vs (apply_writes ws d)"
  by (simp_all add: apply_writes_def)

lemma apply_writes_other: "x \<notin> fst ` set ws \<Longrightarrow> apply_writes ws d x = d x"
  by (induction ws arbitrary: d) auto

lemma apply_writes_hit: "distinct (map fst ws) \<Longrightarrow> (x, m) \<in> set ws \<Longrightarrow> apply_writes ws d x = m"
proof (induction ws arbitrary: d)
  case (Cons w ws)
  obtain b c where w: "w = (b, c)" by fastforce
  show ?case
  proof (cases "(x, m) \<in> set ws")
    case True
    then show ?thesis using Cons by (simp add: w)
  next
    case False
    then have "x = b" "m = c" using Cons.prems(2) w by auto
    then show ?thesis using Cons.prems(1) apply_writes_other[of x ws] by (simp add: w)
  qed
qed simp

definition puts :: "u32 \<Rightarrow> (u32 \<times> mem) list \<Rightarrow> u32 set \<Rightarrow> 'a fs \<Rightarrow> 'a fs \<Rightarrow> bool" where
  "puts D ws U s s' \<longleftrightarrow> cache_idle D s' \<and> view D (bufs s') (disk s') = apply_writes ws (view D (bufs s) (disk s)) \<and>
     disk s' = apply_writes ws (disk s) \<and> dwrites s' = rev ws @ dwrites s \<and> log s' = log s \<and>
     (\<forall>n. pinned D (bufs s) n \<longrightarrow> pinned D (bufs s') n \<or> n \<in> U) \<and> card (free_bufs (bufs s)) \<le> card (free_bufs (bufs s'))"

lemma puts_refl: "cache_idle D s \<Longrightarrow> puts D [] U s s"
  by (simp add: puts_def)

lemma puts_Cons: "put_block D X m u s s1 \<Longrightarrow> puts D ws U s1 s' \<Longrightarrow> u \<longrightarrow> X \<in> U \<Longrightarrow> puts D ((X, m) # ws) U s s'"
  by (auto simp: puts_def put_block_def)

lemma puts_append: "puts D ws U s s1 \<Longrightarrow> puts D vs U' s1 s' \<Longrightarrow> puts D (ws @ vs) (U \<union> U') s s'"
  by (auto simp: puts_def)

lemma puts_one: "put_block D X m False s s' \<Longrightarrow> puts D [(X, m)] {} s s'"
  by (auto simp: puts_def put_block_def)

lemma card_free_ne: "card (free_bufs B) \<le> card (free_bufs B') \<Longrightarrow> free_bufs B \<noteq> {} \<Longrightarrow> free_bufs B' \<noteq> {}"
  by (metis card_eq_0_iff finite_free le_zero_eq)

lemma write_log_loop_puts:
  assumes "cache_idle (ldev (log s)) s" "free_bufs (bufs s) \<noteq> {}"
    and "\<forall>i\<in>set ts. pinned (ldev (log s)) (bufs s) (bl i) \<and> view (ldev (log s)) (bufs s) (disk s) (bl i) = V i \<and> lhblock (log s) i = bl i"
    and "\<forall>i\<in>set ts. \<forall>j\<in>set ts. bl i \<noteq> lstart (log s) + of_nat j + 1"
  shows "\<exists>s'. write_log_loop ts s = Ok s' \<and> puts (ldev (log s)) (map (\<lambda>i. (lstart (log s) + of_nat i + 1, V i)) ts) {} s s'"
  using assms
proof (induction ts arbitrary: s)
  case Nil
  then show ?case by (simp add: puts_refl)
next
  case (Cons t ts)
  let ?D = "ldev (log s)" and ?X = "lstart (log s) + of_nat t + 1"
  have ne: "?X \<noteq> bl t" using Cons.prems(4) by (metis list.set_intros(1))
  have p: "pinned ?D (bufs s) (bl t) \<or> 2 \<le> card (free_bufs (bufs s))" "V t = view ?D (bufs s) (disk s) (bl t)" "lhblock (log s) t = bl t"
    using Cons.prems(3) by auto
  obtain b s1 c s2 s3 s4 where r: "bread ?D ?X s = Ok (b, s1)" "log s1 = log s" "bread ?D (bl t) s1 = Ok (c, s2)"
      "bwrite b (copy_buf b c s2) = Ok s3" "bind_res (brelse c s3) (brelse b) = Ok s4" "put_block ?D ?X (V t) False s s4"
    using log_copy[OF Cons.prems(1) ne Cons.prems(2) p(1)] p(2) by auto
  have step: "write_log_loop (t # ts) s = write_log_loop ts s4"
    using r p(3) by (auto simp: res_simps)
  have l: "log s4 = log s" "cache_idle ?D s4" "card (free_bufs (bufs s)) \<le> card (free_bufs (bufs s4))"
    using r(6) by (auto simp: put_block_def)
  have "\<exists>s'. write_log_loop ts s4 = Ok s' \<and> puts (ldev (log s4)) (map (\<lambda>i. (lstart (log s4) + of_nat i + 1, V i)) ts) {} s4 s'"
  proof (rule Cons.IH)
    show "cache_idle (ldev (log s4)) s4" using l by simp
    show "free_bufs (bufs s4) \<noteq> {}" by (rule card_free_ne[OF l(3) Cons.prems(2)])
    show "\<forall>i\<in>set ts. pinned (ldev (log s4)) (bufs s4) (bl i) \<and> view (ldev (log s4)) (bufs s4) (disk s4) (bl i) = V i \<and> lhblock (log s4) i = bl i"
      using Cons.prems(3,4) r(6) l(1) by (auto simp: put_block_def)
    show "\<forall>i\<in>set ts. \<forall>j\<in>set ts. bl i \<noteq> lstart (log s4) + of_nat j + 1" using Cons.prems(4) l(1) by simp
  qed
  with step l(1) puts_Cons[OF r(6)] show ?case by auto
qed

lemma install_loop_puts:
  assumes "cache_idle (ldev (log s)) s" "free_bufs (bufs s) \<noteq> {}" "rec \<Longrightarrow> 2 \<le> card (free_bufs (bufs s))" "distinct (map bl ts)"
    and "\<forall>i\<in>set ts. (\<not> rec \<longrightarrow> pinned (ldev (log s)) (bufs s) (bl i)) \<and> lhblock (log s) i = bl i \<and>
       view (ldev (log s)) (bufs s) (disk s) (lstart (log s) + of_nat i + 1) = V i"
    and "\<forall>i\<in>set ts. \<forall>j\<in>set ts. bl i \<noteq> lstart (log s) + of_nat j + 1"
  shows "\<exists>s'. install_loop rec ts s = Ok s' \<and> puts (ldev (log s)) (map (\<lambda>i. (bl i, V i)) ts) (if rec then {} else bl ` set ts) s s'"
  using assms
proof (induction ts arbitrary: s)
  case Nil
  then show ?case by (simp add: puts_refl)
next
  case (Cons t ts)
  let ?D = "ldev (log s)" and ?X = "lstart (log s) + of_nat t + 1"
  have ne: "?X \<noteq> bl t" using Cons.prems(6) by (metis list.set_intros(1))
  have p: "pinned ?D (bufs s) (bl t) \<or> 2 \<le> card (free_bufs (bufs s))" "\<not> rec \<Longrightarrow> pinned ?D (bufs s) (bl t)"
      "V t = view ?D (bufs s) (disk s) ?X" "lhblock (log s) t = bl t"
    using Cons.prems(3,5) by auto
  obtain b s1 c s2 s3 s4 where r: "bread ?D ?X s = Ok (b, s1)" "log s1 = log s" "bread ?D (bl t) s1 = Ok (c, s2)"
      "bwrite c (copy_buf c b s2) = Ok s3" "bind_res (brelse b (if rec then s3 else bunpin c s3)) (brelse c) = Ok s4"
      "put_block ?D (bl t) (V t) (\<not> rec) s s4"
    using install_copy[OF Cons.prems(1) ne Cons.prems(2) p(1), of rec] p(2,3) by auto
  have step: "install_loop rec (t # ts) s = install_loop rec ts s4"
    using r p(4) by (auto simp: res_simps Let_def)
  have l: "log s4 = log s" "cache_idle ?D s4" "card (free_bufs (bufs s)) \<le> card (free_bufs (bufs s4))"
    using r(6) by (auto simp: put_block_def)
  have "\<exists>s'. install_loop rec ts s4 = Ok s' \<and> puts (ldev (log s4)) (map (\<lambda>i. (bl i, V i)) ts) (if rec then {} else bl ` set ts) s4 s'"
  proof (rule Cons.IH)
    show "cache_idle (ldev (log s4)) s4" using l by simp
    show "free_bufs (bufs s4) \<noteq> {}" by (rule card_free_ne[OF l(3) Cons.prems(2)])
    show "rec \<Longrightarrow> 2 \<le> card (free_bufs (bufs s4))" using Cons.prems(3) l(3) by linarith
    show "distinct (map bl ts)" using Cons.prems(4) by simp
    show "\<forall>i\<in>set ts. (\<not> rec \<longrightarrow> pinned (ldev (log s4)) (bufs s4) (bl i)) \<and> lhblock (log s4) i = bl i \<and>
       view (ldev (log s4)) (bufs s4) (disk s4) (lstart (log s4) + of_nat i + 1) = V i"
    proof
      fix i assume i: "i \<in> set ts"
      then have "bl i \<in> bl ` set ts" by (rule imageI)
      then have "bl i \<noteq> bl t" using Cons.prems(4) by auto
      moreover have "bl t \<noteq> lstart (log s) + of_nat i + 1" using i Cons.prems(6) by simp
      ultimately have "bl i \<noteq> bl t" "lstart (log s) + of_nat i + 1 \<noteq> bl t" by auto
      with i Cons.prems(5) r(6) l(1) show "(\<not> rec \<longrightarrow> pinned (ldev (log s4)) (bufs s4) (bl i)) \<and> lhblock (log s4) i = bl i \<and>
         view (ldev (log s4)) (bufs s4) (disk s4) (lstart (log s4) + of_nat i + 1) = V i"
        by (auto simp: put_block_def)
    qed
    show "\<forall>i\<in>set ts. \<forall>j\<in>set ts. bl i \<noteq> lstart (log s4) + of_nat j + 1" using Cons.prems(6) l(1) by simp
  qed
  then obtain s' where s': "install_loop rec ts s4 = Ok s'" "puts ?D (map (\<lambda>i. (bl i, V i)) ts) (if rec then {} else bl ` set ts) s4 s'"
    using l(1) by auto
  have "puts ?D (map (\<lambda>i. (bl i, V i)) ts) (if rec then {} else bl ` set (t # ts)) s4 s'" using s'(2) by (auto simp: puts_def)
  then show ?case using puts_Cons[OF r(6)] step s'(1) by auto
qed

section \<open>Commit and recovery\<close>

text \<open>The blocks of the log: its header and a block for each of at most 30 entries.\<close>

definition log_area :: "u32 \<Rightarrow> u32 set" where
  "log_area L = (\<lambda>i. L + of_nat i) ` {..30}"

text \<open>
  A transaction that is ready to be committed: its blocks are pinned in the cache, different from each
  other and not part of the log, and the header on the disk is clear.
\<close>

definition txn_ready :: "'a fs \<Rightarrow> bool" where
  "txn_ready s \<longleftrightarrow> (let D = ldev (log s); L = lstart (log s); n = nat (lhn (log s)); bl = lhblock (log s) in
     cache_idle D s \<and> free_bufs (bufs s) \<noteq> {} \<and> 0 \<le> lhn (log s) \<and> lhn (log s) < 30 \<and> distinct (map bl [0..<n]) \<and>
     (\<forall>i<n. bl i \<notin> log_area L \<and> pinned D (bufs s) (bl i)) \<and> head_n (disk s L) = 0)"

definition txn_content :: "'a fs \<Rightarrow> nat \<Rightarrow> mem" where
  "txn_content s i = view (ldev (log s)) (bufs s) (disk s) (lhblock (log s) i)"

lemma log_area_block: "i < 30 \<Longrightarrow> L + of_nat i + 1 \<in> log_area L" "L \<in> log_area L"
proof -
  show "i < 30 \<Longrightarrow> L + of_nat i + 1 \<in> log_area L"
    unfolding log_area_def by (rule image_eqI[of _ _ "Suc i"]) (auto simp: algebra_simps)
  show "L \<in> log_area L" unfolding log_area_def by (rule image_eqI[of _ _ 0]) auto
qed

text \<open>The writes of a commit, in order: the log blocks, the header, the blocks themselves, the cleared header.\<close>

definition log_writes :: "'a fs \<Rightarrow> (u32 \<times> mem) list" where
  "log_writes s = map (\<lambda>i. (lstart (log s) + of_nat i + 1, txn_content s i)) [0..<nat (lhn (log s))]"

definition home_writes :: "'a fs \<Rightarrow> (u32 \<times> mem) list" where
  "home_writes s = map (\<lambda>i. (lhblock (log s) i, txn_content s i)) [0..<nat (lhn (log s))]"

lemma log_block_inj:
  assumes "i < 30" "j < 30" shows "L + of_nat i + 1 = L + of_nat j + (1 :: u32) \<longleftrightarrow> i = j"
proof
  assume "L + of_nat i + 1 = L + of_nat j + (1 :: u32)"
  then have "unat (of_nat i :: u32) = unat (of_nat j :: u32)" by simp
  then show "i = j" using assms by (simp add: unat_of_nat)
qed simp

lemma log_block_head: "i < 30 \<Longrightarrow> L + of_nat i + 1 \<noteq> (L :: u32)"
proof
  assume i: "i < 30" "L + of_nat i + 1 = L"
  then have "of_nat (Suc i) = (0 :: u32)" by (simp add: algebra_simps)
  then have "unat (of_nat (Suc i) :: u32) = 0" by simp
  then show False using i(1) by (simp add: unat_of_nat del: of_nat_Suc)
qed

lemma log_writes_fst: "n = nat (lhn (log s)) \<Longrightarrow> map fst (log_writes s) = map (\<lambda>i. lstart (log s) + of_nat i + 1) [0..<n]"
    "n = nat (lhn (log s)) \<Longrightarrow> map fst (home_writes s) = map (lhblock (log s)) [0..<n]"
  by (simp_all add: log_writes_def home_writes_def)

lemma txn_readyD:
  assumes "txn_ready s"
  shows "cache_idle (ldev (log s)) s" "free_bufs (bufs s) \<noteq> {}" "0 \<le> lhn (log s)" "lhn (log s) < 30" "nat (lhn (log s)) < 30"
    "distinct (map fst (home_writes s))" "head_n (disk s (lstart (log s))) = 0"
    "distinct (map fst (log_writes s))" "fst ` set (log_writes s) \<subseteq> log_area (lstart (log s))" "lstart (log s) \<notin> fst ` set (log_writes s)"
    "fst ` set (home_writes s) \<inter> log_area (lstart (log s)) = {}"
    "\<forall>i<nat (lhn (log s)). pinned (ldev (log s)) (bufs s) (lhblock (log s) i)"
proof -
  let ?n = "nat (lhn (log s))"
  show r: "cache_idle (ldev (log s)) s" "free_bufs (bufs s) \<noteq> {}" "0 \<le> lhn (log s)" "lhn (log s) < 30" "nat (lhn (log s)) < 30"
    "distinct (map fst (home_writes s))" "head_n (disk s (lstart (log s))) = 0"
    "\<forall>i<nat (lhn (log s)). pinned (ldev (log s)) (bufs s) (lhblock (log s) i)"
    using assms log_writes_fst(2)[OF refl, of s] by (auto simp: txn_ready_def Let_def)
  show "distinct (map fst (log_writes s))" unfolding log_writes_fst(1)[OF refl]
    using r(5) log_block_inj by (auto simp: distinct_map inj_on_def)
  show "fst ` set (log_writes s) \<subseteq> log_area (lstart (log s))" "lstart (log s) \<notin> fst ` set (log_writes s)"
    using r(5) log_area_block(1) log_block_head by (auto simp: log_writes_def)
  show "fst ` set (home_writes s) \<inter> log_area (lstart (log s)) = {}"
    using assms by (auto simp: home_writes_def txn_ready_def Let_def)
qed

lemma lupd_simps [simp]:
  "bufs (lupd f s) = bufs s" "disk (lupd f s) = disk s" "dwrites (lupd f s) = dwrites s" "lru (lupd f s) = lru s" "log (lupd f s) = f (log s)"
  by (simp_all add: lupd_def)

lemma cache_idle_lupd [simp]: "cache_idle D (lupd f s) = cache_idle D s"
  by (simp add: cache_idle_def)

lemma log_writes_hit: "distinct (map fst (log_writes s)) \<Longrightarrow> i < nat (lhn (log s)) \<Longrightarrow>
  apply_writes (log_writes s) d (lstart (log s) + of_nat i + 1) = txn_content s i"
  by (erule apply_writes_hit) (auto simp: log_writes_def)

text \<open>The end of a commit and of recovery: the header is cleared.\<close>

lemma clear_head:
  assumes "cache_idle (ldev (log s)) s" "free_bufs (bufs s) \<noteq> {}"
  shows "\<exists>m s'. write_head (lupd (lhn_update (\<lambda>_. 0)) s) = Ok s' \<and> head_n m = 0 \<and> disk s' = (disk s)(lstart (log s) := block_of m) \<and>
    dwrites s' = (lstart (log s), block_of m) # dwrites s \<and> cache_idle (ldev (log s)) s' \<and> log s' = (log s)\<lparr>lhn := 0\<rparr>"
proof -
  let ?s = "lupd (lhn_update (\<lambda>_. 0)) s"
  from write_head_put[of ?s] assms obtain m s' where "write_head ?s = Ok s'"
      "put_block (ldev (log s)) (lstart (log s)) (block_of m) False ?s s'" "head_n m = 0" by auto
  then show ?thesis by (auto simp: put_block_def)
qed

lemma commit_writes:
  assumes R: "txn_ready s" and pos: "0 < lhn (log s)"
  shows "\<exists>m1 m2 s'. commit s = Ok s' \<and> cache_idle (ldev (log s)) s' \<and> log s' = (log s)\<lparr>lhn := 0\<rparr> \<and>
    dwrites s' = rev (log_writes s @ [(lstart (log s), block_of m1)] @ home_writes s @ [(lstart (log s), block_of m2)]) @ dwrites s \<and>
    disk s' = apply_writes (log_writes s @ [(lstart (log s), block_of m1)] @ home_writes s @ [(lstart (log s), block_of m2)]) (disk s) \<and>
    head_n m1 = lhn (log s) \<and> (\<forall>i<nat (lhn (log s)). head_block m1 i = lhblock (log s) i) \<and> head_n m2 = 0"
proof -
  let ?D = "ldev (log s)" and ?L = "lstart (log s)" and ?n = "nat (lhn (log s))" and ?bl = "lhblock (log s)"
  note r = txn_readyD[OF R]
  have out: "\<forall>i\<in>set [0..<?n]. \<forall>j\<in>set [0..<?n]. ?bl i \<noteq> ?L + of_nat j + 1"
  proof (intro ballI)
    fix i j assume ij: "i \<in> set [0..<?n]" "j \<in> set [0..<?n]"
    then have "?bl i \<in> fst ` set (home_writes s)" by (simp add: home_writes_def image_image)
    then have "?bl i \<notin> log_area ?L" using r(11) by blast
    moreover have "?L + of_nat j + 1 \<in> log_area ?L" using ij(2) r(5) by (intro log_area_block(1)) simp
    ultimately show "?bl i \<noteq> ?L + of_nat j + 1" by auto
  qed
  obtain s1 where 1: "write_log s = Ok s1" "puts ?D (log_writes s) {} s s1"
    using write_log_loop_puts[OF r(1,2), of "[0..<?n]" ?bl "txn_content s"] r(12) out
    by (auto simp: write_log_def log_writes_def txn_content_def)
  have l1: "log s1 = log s" "cache_idle ?D s1" "free_bufs (bufs s1) \<noteq> {}"
    using 1(2) card_free_ne[OF _ r(2)] by (auto simp: puts_def)
  obtain m1 s2 where 2: "write_head s1 = Ok s2" "put_block ?D ?L (block_of m1) False s1 s2" "head_n m1 = lhn (log s)"
      "\<forall>i<?n. head_block m1 i = ?bl i"
    using write_head_put[of s1] l1 r(3,4) by auto
  note p12 = puts_append[OF 1(2) puts_one[OF 2(2)]]
  have l2: "log s2 = log s" "cache_idle ?D s2" "free_bufs (bufs s2) \<noteq> {}" "\<forall>i<?n. pinned ?D (bufs s2) (?bl i)"
    using p12 card_free_ne[OF _ r(2)] r(12) by (auto simp: puts_def)
  have "view ?D (bufs s2) (disk s2) = apply_writes (log_writes s @ [(?L, block_of m1)]) (view ?D (bufs s) (disk s))"
    using p12 unfolding puts_def by (elim conjE)
  then have v: "view ?D (bufs s2) (disk s2) (?L + of_nat i + 1) = txn_content s i" if "i < ?n" for i
    using log_writes_hit[OF r(8) that] log_block_head[of i ?L] that r(5) by simp
  obtain s3 where 3: "install_trans False s2 = Ok s3" "puts ?D (home_writes s) (?bl ` {0..<?n}) s2 s3"
    using install_loop_puts[of s2 False ?bl "[0..<?n]" "txn_content s"] l2 v out r(6)
    by (auto simp: install_trans_def home_writes_def comp_def)
  note p123 = puts_append[OF p12 3(2)]
  have l3: "log s3 = log s" "cache_idle ?D s3" "free_bufs (bufs s3) \<noteq> {}"
    using p123 card_free_ne[OF _ r(2)] by (auto simp: puts_def)
  obtain m2 s4 where 4: "write_head (lupd (lhn_update (\<lambda>_. 0)) s3) = Ok s4" "head_n m2 = 0" "disk s4 = (disk s3)(?L := block_of m2)"
      "dwrites s4 = (?L, block_of m2) # dwrites s3" "cache_idle ?D s4" "log s4 = (log s)\<lparr>lhn := 0\<rparr>"
    using clear_head[of s3] l3 by auto
  have "commit s = Ok s4" using pos 1(1) 2(1) 3(1) 4(1) by (simp add: commit_def)
  then show ?thesis using 2(3,4) 4 p123 by (intro exI[of _ m1] exI[of _ m2] exI[of _ s4]) (simp add: puts_def)
qed

section \<open>Recovery\<close>

text \<open>After a boot the cache is empty: no buffer is in use.\<close>

definition booted :: "u32 \<Rightarrow> u32 \<Rightarrow> 'a fs \<Rightarrow> bool" where
  "booted D L t \<longleftrightarrow> ldev (log t) = D \<and> lstart (log t) = L \<and> cache_idle D t \<and> (\<forall>b<NBUF. refcnt (bufs t b) = 0)"

lemma booted_view: "booted D L t \<Longrightarrow> view D (bufs t) (disk t) x = block_of (disk t x)"
  using slot_Some[of D "bufs t" x] by (auto simp: booted_def cache_idle_def idle_def cache_ok_def view_def split: option.splits)

lemma booted_free: "booted D L t \<Longrightarrow> card (free_bufs (bufs t)) = 30"
proof -
  assume "booted D L t"
  then have "free_bufs (bufs t) = {..<NBUF}" by (auto simp: booted_def free_bufs_def)
  then show ?thesis by (simp add: NBUF_def)
qed

definition replay :: "u32 \<Rightarrow> (u32 \<Rightarrow> mem) \<Rightarrow> (u32 \<times> mem) list" where
  "replay L d = map (\<lambda>i. (head_block (d L) i, block_of (d (L + of_nat i + 1)))) [0..<nat (head_n (d L))]"

lemma recover_installs:
  assumes B: "booted D L t" and n: "head_n (disk t L) < 30" and dis: "distinct (map fst (replay L (disk t)))"
    and out: "fst ` set (replay L (disk t)) \<inter> log_area L = {}"
  shows "\<exists>m t'. recover_from_log t = Ok t' \<and> head_n m = 0 \<and> disk t' = (apply_writes (replay L (disk t)) (disk t))(L := block_of m)"
proof -
  let ?n = "nat (head_n (disk t L))" and ?bl = "head_block (disk t L)"
  have b: "ldev (log t) = D" "lstart (log t) = L" "cache_idle D t" using B by (auto simp: booted_def)
  have f: "2 \<le> card (free_bufs (bufs t))" "free_bufs (bufs t) \<noteq> {}" using booted_free[OF B] by auto
  have h: "head_n (block_of (disk t L)) = head_n (disk t L)" "\<And>i. i < 30 \<Longrightarrow> head_block (block_of (disk t L)) i = ?bl i"
    using head_block_of by auto
  obtain t1 where 1: "read_head t = Ok t1" "read_only D t t1" "lhn (log t1) = head_n (disk t L)"
      "\<forall>i<?n. lhblock (log t1) i = ?bl i" "ldev (log t1) = D" "lstart (log t1) = L"
    using read_head_log[of t "block_of (disk t L)"] b f(2) booted_view[OF B, of L] h n by auto
  have t1: "cache_idle D t1" "free_bufs (bufs t1) \<noteq> {}" "2 \<le> card (free_bufs (bufs t1))"
    using 1(2) f card_free_ne[OF _ f(2)] by (auto simp: read_only_def)
  have "view D (bufs t1) (disk t1) = view D (bufs t) (disk t)" using 1(2) unfolding read_only_def by (elim conjE)
  then have v: "view D (bufs t1) (disk t1) (L + of_nat i + 1) = block_of (disk t (L + of_nat i + 1))" for i using booted_view[OF B] by simp
  have o: "\<forall>i\<in>set [0..<?n]. \<forall>j\<in>set [0..<?n]. ?bl i \<noteq> L + of_nat j + 1"
  proof (intro ballI)
    fix i j assume ij: "i \<in> set [0..<?n]" "j \<in> set [0..<?n]"
    then have "?bl i \<in> fst ` set (replay L (disk t))" by (simp add: replay_def image_image)
    moreover have "L + of_nat j + 1 \<in> log_area L" using ij(2) n by (intro log_area_block(1)) simp
    ultimately show "?bl i \<noteq> L + of_nat j + 1" using out by auto
  qed
  have ds: "distinct (map ?bl [0..<?n])" using dis by (simp add: replay_def comp_def)
  obtain t2 where 2: "install_trans True t1 = Ok t2" "puts D (replay L (disk t)) {} t1 t2"
    using install_loop_puts[of t1 True ?bl "[0..<?n]" "\<lambda>i. block_of (disk t (L + of_nat i + 1))"] t1 v o ds 1(3-6)
    by (auto simp: install_trans_def replay_def)
  have t2: "cache_idle D t2" "free_bufs (bufs t2) \<noteq> {}" "log t2 = log t1" using 2(2) card_free_ne[OF _ t1(2)] by (auto simp: puts_def)
  obtain m t3 where "write_head (lupd (lhn_update (\<lambda>_. 0)) t2) = Ok t3" "head_n m = 0" "disk t3 = (disk t2)(L := block_of m)"
    using clear_head[of t2] t2 1(5,6) by auto
  moreover have "disk t2 = apply_writes (replay L (disk t)) (disk t)" using 2(2) 1(2) by (simp add: puts_def read_only_def)
  ultimately show ?thesis using 1(1) 2(1) by (intro exI[of _ m] exI[of _ t3]) (simp add: recover_from_log_def)
qed

section \<open>Crashes\<close>

text \<open>The disk with the transaction's blocks in their places.\<close>

definition new_disk :: "'a fs \<Rightarrow> u32 \<Rightarrow> mem" where
  "new_disk s = apply_writes (home_writes s) (disk s)"

lemma home_writes_idem:
  assumes "distinct (map fst ws)" "x \<notin> A" "\<And>y. y \<notin> A \<Longrightarrow> y \<notin> fst ` set ws \<Longrightarrow> d y = d0 y"
  shows "apply_writes ws d x = apply_writes ws d0 x"
proof (cases "x \<in> fst ` set ws")
  case True
  then obtain m where "(x, m) \<in> set ws" by force
  then show ?thesis using apply_writes_hit[OF assms(1)] by metis
next
  case False
  then show ?thesis using assms(2,3) by (simp add: apply_writes_other)
qed

text \<open>
  A crash before the header is written: recovery finds a clear header.  A crash after it:
  recovery copies the logged blocks to their places once more.
\<close>

lemma recover_clear:
  assumes "booted D L t" "head_n (disk t L) = 0"
  shows "\<exists>t'. recover_from_log t = Ok t' \<and> (\<forall>x. x \<noteq> L \<longrightarrow> disk t' x = disk t x)"
proof -
  have "replay L (disk t) = []" using assms(2) by (simp add: replay_def)
  with recover_installs[OF assms(1)] assms(2) show ?thesis by fastforce
qed

lemma recover_logged:
  assumes B: "booted D L t" and R: "txn_ready s" and L: "L = lstart (log s)"
    and h: "head_n (disk t L) = lhn (log s)" "\<forall>i<nat (lhn (log s)). head_block (disk t L) i = lhblock (log s) i"
    and c: "\<forall>i<nat (lhn (log s)). block_of (disk t (L + of_nat i + 1)) = txn_content s i"
    and o: "\<And>x. x \<notin> log_area L \<Longrightarrow> x \<notin> fst ` set (home_writes s) \<Longrightarrow> disk t x = disk s x"
  shows "\<exists>t'. recover_from_log t = Ok t' \<and> (\<forall>x. x \<notin> log_area L \<longrightarrow> disk t' x = new_disk s x)"
proof -
  note r = txn_readyD[OF R, folded L]
  have rp: "replay L (disk t) = home_writes s" using h c by (simp add: replay_def home_writes_def)
  obtain m t' where t': "recover_from_log t = Ok t'" "disk t' = (apply_writes (home_writes s) (disk t))(L := block_of m)"
    using recover_installs[OF B, unfolded rp] h(1) r(4,6,11) by auto
  have "disk t' x = new_disk s x" if x: "x \<notin> log_area L" for x
  proof -
    have "x \<noteq> L" using x log_area_block(2) by auto
    then show ?thesis using t'(2) home_writes_idem[OF r(6) x, of "disk t" "disk s"] o by (simp add: new_disk_def)
  qed
  with t'(1) show ?thesis by blast
qed

lemma block_of_view: "block_of (txn_content s i) = txn_content s i"
  by (auto simp: txn_content_def view_def split: option.splits)

lemma crash_early:
  assumes R: "txn_ready s" and B: "booted D (lstart (log s)) t" and k: "k \<le> nat (lhn (log s))"
    and d: "disk t = apply_writes (take k (log_writes s)) (disk s)"
  shows "\<exists>t'. recover_from_log t = Ok t' \<and> (\<forall>x. x \<notin> log_area (lstart (log s)) \<longrightarrow> disk t' x = disk s x)"
proof -
  note r = txn_readyD[OF R]
  have t: "fst ` set (take k (log_writes s)) \<subseteq> fst ` set (log_writes s)" using set_take_subset[of k "log_writes s"] by auto
  have keep: "disk t x = disk s x" if "x \<notin> fst ` set (log_writes s)" for x
    unfolding d by (rule apply_writes_other) (use t that in auto)
  have "head_n (disk t (lstart (log s))) = 0" using keep[OF r(10)] r(7) by simp
  from recover_clear[OF B this] obtain t' where t': "recover_from_log t = Ok t'" "\<forall>x. x \<noteq> lstart (log s) \<longrightarrow> disk t' x = disk t x" by blast
  have "disk t' x = disk s x" if x: "x \<notin> log_area (lstart (log s))" for x
  proof -
    have "x \<noteq> lstart (log s)" "x \<notin> fst ` set (log_writes s)" using x log_area_block(2) r(9) by auto
    then show ?thesis using t'(2) keep by simp
  qed
  with t'(1) show ?thesis by blast
qed

lemma crash_late:
  assumes R: "txn_ready s" and B: "booted D (lstart (log s)) t"
    and m: "head_n m1 = lhn (log s)" "\<forall>i<nat (lhn (log s)). head_block m1 i = lhblock (log s) i"
    and d: "disk t = apply_writes (log_writes s @ [(lstart (log s), block_of m1)] @ take j (home_writes s)) (disk s)"
  shows "\<exists>t'. recover_from_log t = Ok t' \<and> (\<forall>x. x \<notin> log_area (lstart (log s)) \<longrightarrow> disk t' x = new_disk s x)"
proof (rule recover_logged[OF B R refl])
  let ?L = "lstart (log s)"
  note r = txn_readyD[OF R]
  have t: "fst ` set (take j (home_writes s)) \<subseteq> fst ` set (home_writes s)" using set_take_subset[of j "home_writes s"] by auto
  have area: "disk t x = ((apply_writes (log_writes s) (disk s))(?L := block_of m1)) x" if "x \<notin> fst ` set (home_writes s)" for x
    unfolding d apply_writes_simps by (rule apply_writes_other) (use t that in auto)
  have home: "x \<notin> fst ` set (home_writes s)" if "x \<in> log_area ?L" for x using r(11) that by blast
  have L: "disk t ?L = block_of m1" using area[OF home[OF log_area_block(2)]] by simp
  show "head_n (disk t ?L) = lhn (log s)" "\<forall>i<nat (lhn (log s)). head_block (disk t ?L) i = lhblock (log s) i"
    unfolding L using m head_block_of r(5) by auto
  show "\<forall>i<nat (lhn (log s)). block_of (disk t (?L + of_nat i + 1)) = txn_content s i"
  proof (intro allI impI)
    fix i assume i: "i < nat (lhn (log s))"
    then have a: "?L + of_nat i + 1 \<in> log_area ?L" "?L + of_nat i + 1 \<noteq> ?L" using r(5) log_area_block(1)[of i ?L] log_block_head[of i ?L] by auto
    show "block_of (disk t (?L + of_nat i + 1)) = txn_content s i"
      using area[OF home[OF a(1)]] a(2) log_writes_hit[OF r(8) i] by (simp add: block_of_view)
  qed
  fix x assume x: "x \<notin> log_area ?L" "x \<notin> fst ` set (home_writes s)"
  then have "x \<noteq> ?L" "x \<notin> fst ` set (log_writes s)" using log_area_block(2) r(9) by auto
  then show "disk t x = disk s x" using area[OF x(2)] by (simp add: apply_writes_other)
qed

lemma crash_done:
  assumes R: "txn_ready s" and B: "booted D (lstart (log s)) t" and m: "head_n m2 = 0"
    and d: "disk t = apply_writes (log_writes s @ [(lstart (log s), block_of m1)] @ home_writes s @ [(lstart (log s), block_of m2)]) (disk s)"
  shows "\<exists>t'. recover_from_log t = Ok t' \<and> (\<forall>x. x \<notin> log_area (lstart (log s)) \<longrightarrow> disk t' x = new_disk s x)"
proof -
  let ?L = "lstart (log s)"
  note r = txn_readyD[OF R]
  have "head_n (disk t ?L) = 0" using m head_block_of(1)[of m2] by (simp add: d)
  from recover_clear[OF B this] obtain t' where t': "recover_from_log t = Ok t'" "\<forall>x. x \<noteq> ?L \<longrightarrow> disk t' x = disk t x" by blast
  have "disk t' x = new_disk s x" if x: "x \<notin> log_area ?L" for x
  proof -
    have n: "x \<noteq> ?L" using x log_area_block(2) by auto
    have "disk t x = apply_writes (home_writes s) ((apply_writes (log_writes s) (disk s))(?L := block_of m1)) x" using n by (simp add: d)
    also have "\<dots> = new_disk s x" unfolding new_disk_def
    proof (rule home_writes_idem[OF r(6) x])
      fix y assume "y \<notin> log_area ?L" "y \<notin> fst ` set (home_writes s)"
      then have "y \<noteq> ?L" "y \<notin> fst ` set (log_writes s)" using log_area_block(2) r(9) by auto
      then show "((apply_writes (log_writes s) (disk s))(?L := block_of m1)) y = disk s y" by (simp add: apply_writes_other)
    qed
    finally show ?thesis using t'(2) n by simp
  qed
  with t'(1) show ?thesis by blast
qed

text \<open>A transaction of one block, number 40, with bytes 7.\<close>

definition demo_txn :: fsys where
  "demo_txn = (let s = blank_fs [] in s\<lparr>
     bufs := (bufs s)(0 := \<lparr>valid = True, dev = 1, blockno = 40, slock = initsleeplock, refcnt = 1, bdata = (\<lambda>_. 7)\<rparr>),
     log := (log s)\<lparr>lhn := 1, lhblock := (\<lambda>_. 40)\<rparr>\<rparr>)"

lemma demo_quiet:
  assumes "lru s = rev [0..<NBUF]" "\<And>b. b \<noteq> 0 \<Longrightarrow> bufs s b = bufs (blank_fs []) b" "refcnt (bufs s 0) = 1 \<or> bufs s 0 = bufs (blank_fs []) 0"
    "\<not> slocked (slock (bufs s 0))"
  shows "cache_idle 1 s"
proof -
  have b: "dev (bufs (blank_fs []) x) = 0" "refcnt (bufs (blank_fs []) x) = 0" "\<not> slocked (slock (bufs (blank_fs []) x))" for x
    by (simp_all add: blank_fs_def pst.defs fsys.defs demo_sys_def initsleeplock_def)
  have z: "dev (bufs s x) = 1 \<Longrightarrow> x = 0" for x using assms(2)[of x] b(1)[of x] by (cases "x = 0") auto
  have o: "once 1 (bufs s)" unfolding once_def by (metis z)
  have u: "\<not> slocked (slock (bufs s x))" "refcnt (bufs s x) \<noteq> -1" for x using assms(2)[of x] assms(3,4) b(2,3)[of x] by (cases "x = 0"; auto)+
  have "refcnt (bufs s x) = 0 \<Longrightarrow> dev (bufs s x) = 1 \<Longrightarrow> False" for x using z[of x] assms(3) b(1)[of 0] by auto
  then have "cache_ok 1 (bufs s) (disk s)" using o u by (auto simp: cache_ok_def)
  moreover have "lru_ok (lru s)" unfolding assms(1) lru_ok_def by auto
  ultimately show ?thesis using u by (auto simp: cache_idle_def idle_def)
qed

lemma demo_txn_simps:
  "ldev (log demo_txn) = 1" "lstart (log demo_txn) = 2"
  "lhn (log demo_txn) = 1" "lhblock (log demo_txn) = (\<lambda>_. 40)" "disk demo_txn = (\<lambda>_ _. 0)"
  by (simp_all add: demo_txn_def Let_def blank_fs_def pst.defs fsys.defs demo_sys_def)

lemma demo_ready: "txn_ready demo_txn"
proof -
  have q: "cache_idle 1 demo_txn"
    by (rule demo_quiet) (simp_all add: demo_txn_def Let_def blank_fs_def pst.defs fsys.defs demo_sys_def initsleeplock_def)
  have o: "once 1 (bufs demo_txn)" using q by (simp add: cache_idle_def idle_def cache_ok_def)
  have b: "dev (bufs demo_txn 0) = 1" "blockno (bufs demo_txn 0) = 40" "refcnt (bufs demo_txn 0) = 1" "refcnt (bufs demo_txn 1) = 0"
    by (simp_all add: demo_txn_def Let_def blank_fs_def pst.defs fsys.defs demo_sys_def)
  have p: "pinned 1 (bufs demo_txn) 40" using slot_eq[OF o _ b(1,2)] b(3) by (auto simp: pinned_def NBUF_def)
  have f: "free_bufs (bufs demo_txn) \<noteq> {}" using b(4) by (auto simp: free_bufs_def NBUF_def intro!: exI[of _ 1])
  have "(40 :: u32) \<noteq> 2 + of_nat i" if "i \<le> 30" for i
  proof
    assume "(40 :: u32) = 2 + of_nat i"
    then have "unat (40 :: u32) = unat (2 + of_nat i :: u32)" by simp
    then show False using that by (simp add: unat_word_ariths unat_of_nat)
  qed
  then have a: "(40 :: u32) \<notin> log_area 2" by (auto simp: log_area_def)
  have h: "head_n (\<lambda>_. 0) = 0" by (simp add: head_n_def numeral_eq_Suc)
  show ?thesis unfolding txn_ready_def Let_def demo_txn_simps using q p f a h by simp
qed



end
