(* ===== verification/Ondisk.thy ===== *)
theory Ondisk
  imports Crash Fs
begin

text \<open>
  Inodes on the disk: what \<open>iupdate\<close> stores is what \<open>ilock\<close> loads, and the other inodes of the
  block stay as they are.
\<close>

section \<open>Fields of an inode\<close>

lemma unat_off: "unat o' \<le> 960 \<Longrightarrow> c < 128 \<Longrightarrow> unat (o' + of_nat c :: u64) = unat o' + c"
  by (rule unat_add_small) simp

lemma off_apart:
  assumes "unat o' \<le> 960" "c + k \<le> 64" "c' + l \<le> 64" "c + k \<le> c' \<or> c' + l \<le> c"
  shows "apart (o' + of_nat c) k (o' + of_nat c') l"
  using assms unat_off[of o' c] unat_off[of o' c'] by (cases "c < 128"; cases "c' < 128") (auto simp: apart_def)

lemma dinode_off: "unat (dinode_off n) = 64 * (unat n mod 16)" "unat (dinode_off n) \<le> 960"
proof -
  have "unat (ucast (n mod 16) :: u64) = unat n mod 16" by (simp add: unsigned_ucast_eq unsigned_take_bit_eq unat_mod_distrib)
  then show e: "unat (dinode_off n) = 64 * (unat n mod 16)"
    unfolding dinode_off_def by (simp add: unat_word_ariths)
  show "unat (dinode_off n) \<le> 960" unfolding e using mod_less_divisor[of 16 "unat n"] by linarith
qed

lemma other_inode_apart:
  assumes "unat n mod 16 \<noteq> unat n' mod 16" "c + k \<le> 64" "c' + l \<le> 64"
  shows "apart (dinode_off n + of_nat c) k (dinode_off n' + of_nat c') l"
proof -
  have u: "unat (dinode_off n + of_nat c) = 64 * (unat n mod 16) + c" "unat (dinode_off n' + of_nat c') = 64 * (unat n' mod 16) + c'"
    using unat_off[OF dinode_off(2), of c n] unat_off[OF dinode_off(2), of c' n'] assms by (simp_all add: dinode_off(1))
  have "unat n mod 16 < 16" "unat n' mod 16 < 16" by simp_all
  moreover have "unat n mod 16 + 1 \<le> unat n' mod 16 \<or> unat n' mod 16 + 1 \<le> unat n mod 16" using assms(1) by linarith
  ultimately show ?thesis unfolding apart_def u using assms(2,3) by auto
qed

text \<open>The fields as pairs of offset and width; a store to one leaves the others.\<close>

primrec addr_stores :: "(nat \<Rightarrow> u32) \<Rightarrow> u64 \<Rightarrow> nat \<Rightarrow> mem \<Rightarrow> mem" where
  "addr_stores a o' 0 m = m"
| "addr_stores a o' (Suc k) m = store_le (addr_stores a o' k m) (o' + of_nat (12 + 4 * k)) (a k) 4"

lemma di_store_eq:
  "di_store ip o' m = addr_stores (addrs ip) o' 13
     (store_le (store_le (store_le (store_le (store_le m (o' + of_nat 0) (itype ip) 2) (o' + of_nat 2) (imajor ip) 2)
          (o' + of_nat 4) (iminor ip) 2) (o' + of_nat 6) (nlink ip) 2) (o' + of_nat 8) (isize ip) 4)"
proof -
  have "fold (\<lambda>k m. store_le m (o' + 12 + 4 * of_nat k) (addrs ip k) 4) [0..<j] m = addr_stores (addrs ip) o' j m" for j m
    by (induction j) (simp_all add: add.assoc)
  then show ?thesis by (simp add: di_store_def NDIRECT_def)
qed

lemma addr_stores_apart:
  "(\<And>i. i < k \<Longrightarrow> apart (o' + of_nat (12 + 4 * i)) 4 b l) \<Longrightarrow> (load_le (addr_stores a o' k m) b l :: 'a::len word) = load_le m b l"
  by (induction k) (simp_all add: load_le_store_apart)

lemma addr_stores_load:
  assumes "unat o' \<le> 960" "i < k" "k \<le> 13" shows "(load_le (addr_stores a o' k m) (o' + of_nat (12 + 4 * i)) 4 :: u32) = a i"
  using assms(2,3)
proof (induction k)
  case (Suc k)
  show ?case
  proof (cases "i = k")
    case True
    then show ?thesis by (simp add: load_le_store_same del: of_nat_add of_nat_mult)
  next
    case False
    have "apart (o' + of_nat (12 + 4 * k)) 4 (o' + of_nat (12 + 4 * i)) 4"
      using assms(1) Suc.prems False by (intro off_apart) auto
    then show ?thesis using Suc False by (simp add: load_le_store_apart del: of_nat_add of_nat_mult)
  qed
qed simp

lemma di_fields:
  assumes o: "unat o' \<le> 960"
  shows "(load_le (di_store ip o' m) (o' + of_nat 0) 2 :: u16) = itype ip" "(load_le (di_store ip o' m) (o' + of_nat 2) 2 :: u16) = imajor ip"
    "(load_le (di_store ip o' m) (o' + of_nat 4) 2 :: u16) = iminor ip" "(load_le (di_store ip o' m) (o' + of_nat 6) 2 :: u16) = nlink ip"
    "(load_le (di_store ip o' m) (o' + of_nat 8) 4 :: u32) = isize ip"
    "k \<le> NDIRECT \<Longrightarrow> (load_le (di_store ip o' m) (o' + of_nat (12 + 4 * k)) 4 :: u32) = addrs ip k"
proof -
  note ap = off_apart[OF o]
  have a: "(load_le (addr_stores (addrs ip) o' 13 m') (o' + of_nat c) l :: 'b::len word) = load_le m' (o' + of_nat c) l" if "c + l \<le> 12" for c l m'
    using that by (intro addr_stores_apart ap) auto
  show "(load_le (di_store ip o' m) (o' + of_nat 8) 4 :: u32) = isize ip"
    unfolding di_store_eq by (subst a) (simp_all add: load_le_store_same)
  show "(load_le (di_store ip o' m) (o' + of_nat 6) 2 :: u16) = nlink ip"
    unfolding di_store_eq by (subst a; simp add: load_le_store_same load_le_store_apart[OF ap] del: of_nat_numeral)
  show "(load_le (di_store ip o' m) (o' + of_nat 4) 2 :: u16) = iminor ip"
    unfolding di_store_eq by (subst a; simp add: load_le_store_same load_le_store_apart[OF ap] del: of_nat_numeral)
  show "(load_le (di_store ip o' m) (o' + of_nat 2) 2 :: u16) = imajor ip"
    unfolding di_store_eq by (subst a; simp add: load_le_store_same load_le_store_apart[OF ap] del: of_nat_numeral)
  show "(load_le (di_store ip o' m) (o' + of_nat 0) 2 :: u16) = itype ip"
    unfolding di_store_eq
    by (subst a; simp add: load_le_store_same load_le_store_apart[OF ap[where c' = 0, simplified]] del: of_nat_numeral)
  show "k \<le> NDIRECT \<Longrightarrow> (load_le (di_store ip o' m) (o' + of_nat (12 + 4 * k)) 4 :: u32) = addrs ip k"
    unfolding di_store_eq by (rule addr_stores_load[OF o]) (simp_all add: NDIRECT_def)
qed

lemma di_load_store:
  assumes "unat o' \<le> 960"
  shows "di_load (di_store ip o' m) o' ip0 = ip0\<lparr>itype := itype ip, imajor := imajor ip, iminor := iminor ip, nlink := nlink ip,
    isize := isize ip, addrs := (\<lambda>k. if k \<le> NDIRECT then addrs ip k else addrs ip0 k)\<rparr>"
  using di_fields[OF assms] by (simp add: di_load_def add.assoc cong: if_cong)

lemma di_load_cong:
  assumes "\<And>c l. c + l \<le> 64 \<Longrightarrow> l \<le> 4 \<Longrightarrow> (load_le m (o' + of_nat c) l :: u32) = load_le m' (o' + of_nat c) l"
    "\<And>c l. c + l \<le> 64 \<Longrightarrow> l \<le> 4 \<Longrightarrow> (load_le m (o' + of_nat c) l :: u16) = load_le m' (o' + of_nat c) l"
  shows "di_load m o' ip0 = di_load m' o' ip0"
proof -
  have "(load_le m (o' + 12 + 4 * of_nat k) 4 :: u32) = load_le m' (o' + 12 + 4 * of_nat k) 4" if "k \<le> NDIRECT" for k
    using assms(1)[of "12 + 4 * k" 4] that by (simp add: NDIRECT_def add.assoc)
  then show ?thesis using assms(1)[of 8 4] assms(2)[of 0 2] assms(2)[of 2 2] assms(2)[of 4 2] assms(2)[of 6 2]
    by (simp add: di_load_def cong: if_cong)
qed

lemma di_store_other:
  assumes "unat n mod 16 \<noteq> unat n' mod 16" "c' + l \<le> 64"
  shows "(load_le (di_store ip (dinode_off n) m) (dinode_off n' + of_nat c') l :: 'b::len word) = load_le m (dinode_off n' + of_nat c') l"
proof -
  note ap = other_inode_apart[OF assms(1) _ assms(2)]
  have "(load_le (addr_stores (addrs ip) (dinode_off n) 13 m') (dinode_off n' + of_nat c') l :: 'b word) = load_le m' (dinode_off n' + of_nat c') l" for m'
    by (intro addr_stores_apart ap) auto
  then show ?thesis unfolding di_store_eq by (simp add: load_le_store_apart[OF ap] load_le_store_apart[OF ap[where c = 0, simplified]] del: of_nat_numeral)
qed

lemma di_load_other:
  "unat n mod 16 \<noteq> unat n' mod 16 \<Longrightarrow> di_load (di_store ip (dinode_off n) m) (dinode_off n') ip0 = di_load m (dinode_off n') ip0"
  by (rule di_load_cong) (rule di_store_other; assumption)+

lemma di_load_block_of: "di_load (block_of m) (dinode_off n) ip0 = di_load m (dinode_off n) ip0"
proof (rule di_load_cong)
  fix c l :: nat assume "c + l \<le> 64"
  then have "unat (dinode_off n + of_nat c) + l \<le> BSIZE" using unat_off[OF dinode_off(2), of c n] dinode_off(2)[of n] by (simp add: BSIZE_def)
  then show "(load_le (block_of m) (dinode_off n + of_nat c) l :: u32) = load_le m (dinode_off n + of_nat c) l"
    "(load_le (block_of m) (dinode_off n + of_nat c) l :: u16) = load_le m (dinode_off n + of_nat c) l"
    by (simp_all add: load_le_block_of)
qed

section \<open>Updating an inode\<close>

text \<open>There is room for one more block in the running transaction.\<close>

definition can_log :: "'a fs \<Rightarrow> bool" where
  "can_log s \<longleftrightarrow> lhn (log s) < LOGSIZE \<and> lhn (log s) < lsize (log s) - 1 \<and> 1 \<le> outstanding (log s)"

lemma log_write_logs:
  assumes "can_log s"
  shows "\<exists>s' p. log_write b s = Ok s' \<and> bufs s' = (bufs s)(b := (bufs s b)\<lparr>refcnt := refcnt (bufs s b) + p\<rparr>) \<and>
    disk s' = disk s \<and> lru s' = lru s \<and> mypid s' = mypid s"
proof -
  let ?i = "log_slot (log s) (blockno (bufs s b))"
  let ?s = "lupd (\<lambda>l. l\<lparr>lhblock := (lhblock l)(?i := blockno (bufs s b))\<rparr>) s"
  let ?s' = "if ?i = nat (lhn (log s)) then lupd (\<lambda>l. l\<lparr>lhn := lhn l + 1\<rparr>) (bpin b ?s) else ?s"
  have "log_write b s = Ok ?s'" using assms by (auto simp: log_write_def can_log_def Let_def)
  moreover have "bufs ?s' = (bufs s)(b := (bufs s b)\<lparr>refcnt := refcnt (bufs s b) + (if ?i = nat (lhn (log s)) then 1 else 0)\<rparr>)"
    by (simp add: bpin_def bupd_def)
  moreover have "disk ?s' = disk s" "lru ?s' = lru s" "mypid ?s' = mypid s"
    by (simp_all add: bpin_def bupd_def lupd_def)
  ultimately show ?thesis by blast
qed

lemma iupdate_stores:
  fixes s :: "'a fs" and i
  defines "D \<equiv> idev (inodes s i)" and "X \<equiv> IBLOCK (inum (inodes s i)) (sb s)"
  assumes q: "cache_idle D s" and f: "free_bufs (bufs s) \<noteq> {}" and l: "can_log s"
  shows "\<exists>s' m. iupdate i s = Ok s' \<and> block_of m = view D (bufs s) (disk s) X \<and>
    view D (bufs s') (disk s') = (view D (bufs s) (disk s))(X := block_of (di_store (inodes s i) (dinode_off (inum (inodes s i))) m))"
proof -
  obtain b x where r: "bread D X s = Ok (b, s\<lparr>bufs := (bufs s)(b := x)\<rparr>)" "got (mypid s) D X (bufs s) (disk s) b x"
    using read_one[OF q f] by blast
  let ?m = "di_store (inodes s i) (dinode_off (inum (inodes s i))) (bdata x)"
  define s1 where "s1 = s\<lparr>bufs := (bufs s)(b := x\<lparr>bdata := ?m\<rparr>)\<rparr>"
  have "can_log s1" using l by (simp add: s1_def can_log_def)
  from log_write_logs[OF this, of b] obtain s2 p where w: "log_write b s1 = Ok s2"
      "bufs s2 = (bufs s1)(b := (bufs s1 b)\<lparr>refcnt := refcnt (bufs s1 b) + p\<rparr>)" "disk s2 = disk s" "lru s2 = lru s" "mypid s2 = mypid s"
    by (auto simp: s1_def)
  have x: "b < NBUF" "slock x = \<lparr>slocked = True, spid = mypid s\<rparr>" "dev x = D" "blockno x = X" "valid x"
      "block_of (bdata x) = view D (bufs s) (disk s) X" using r(2) by (auto simp: got_def)
  have "slock (bufs s2 b) = \<lparr>slocked = True, spid = mypid s2\<rparr>" "lru_ok (lru s2)" using w x q by (simp_all add: s1_def cache_idle_def)
  from brelse_unlocks[OF this x(1)] obtain s3 where rel: "brelse b s2 = Ok s3" "bufs s3 = (bufs s2)(b := unlocked (bufs s2 b))"
      "lru_ok (lru s3)" "same s2 s3" by blast
  have "iupdate i s = Ok s3"
    using r(1) w(1) rel(1) by (cases x) (simp add: iupdate_def Let_def bupd_def s1_def D_def X_def)
  moreover have "bufs s3 = (bufs s)(b := unlocked (x\<lparr>bdata := ?m, refcnt := refcnt x + p\<rparr>))" "disk s3 = disk s"
    using rel(2,4) w by (simp_all add: s1_def same_def)
  moreover have "view D ((bufs s)(b := unlocked (x\<lparr>bdata := ?m, refcnt := refcnt x + p\<rparr>))) (disk s) = (view D (bufs s) (disk s))(X := block_of ?m)"
    using view_upd[of D "bufs s" X b "unlocked (x\<lparr>bdata := ?m, refcnt := refcnt x + p\<rparr>)" "disk s"] got_placed[OF r(2)] q x
    by (simp add: unlocked_def cache_idle_def idle_def cache_ok_def)
  ultimately show ?thesis using x(6) by auto
qed

text \<open>An inode with some fields set, in an idle cache inside a transaction.\<close>

definition demo_inode :: fsys where
  "demo_inode = (let s = blank_fs [] in s\<lparr>log := (log s)\<lparr>outstanding := 1\<rparr>,
     inodes := (\<lambda>i. (inodes s i)\<lparr>idev := 1, inum := 5, itype := 2, isize := 77\<rparr>)\<rparr>)"

lemma demo_inode_ready: "cache_idle 1 demo_inode" "free_bufs (bufs demo_inode) \<noteq> {}" "can_log demo_inode" "idev (inodes demo_inode 0) = 1"
proof -
  show "cache_idle 1 demo_inode"
    by (rule demo_quiet) (simp_all add: demo_inode_def Let_def blank_fs_def pst.defs fsys.defs demo_sys_def initsleeplock_def)
  have "refcnt (bufs demo_inode 0) = 0" by (simp add: demo_inode_def Let_def blank_fs_def pst.defs fsys.defs demo_sys_def)
  then show "free_bufs (bufs demo_inode) \<noteq> {}" by (auto simp: free_bufs_def NBUF_def intro!: exI[of _ 0])
  show "can_log demo_inode" "idev (inodes demo_inode 0) = 1"
    by (simp_all add: can_log_def demo_inode_def Let_def blank_fs_def pst.defs fsys.defs demo_sys_def LOGSIZE_def)
qed

section \<open>Reservation of log space\<close>

primrec log_write_each :: "nat list \<Rightarrow> 'a fs \<Rightarrow> 'a fs res" where
  "log_write_each [] s = Ok s"
| "log_write_each (b # bs) s = bind_res (log_write b s) (log_write_each bs)"

lemma log_write_new:
  assumes "0 \<le> lhn (log s)" "lhn (log s) < 29" "lsize (log s) = 30" "1 \<le> outstanding (log s)"
    and new: "\<forall>i<nat (lhn (log s)). lhblock (log s) i \<noteq> blockno (bufs s b)"
  shows "\<exists>s'. log_write b s = Ok s' \<and> lhn (log s') = lhn (log s) + 1 \<and> lsize (log s') = 30 \<and> outstanding (log s') = outstanding (log s) \<and>
    lhblock (log s') = (lhblock (log s))(nat (lhn (log s)) := blockno (bufs s b)) \<and> (\<forall>c. blockno (bufs s' c) = blockno (bufs s c))"
proof -
  have "find (\<lambda>i. lhblock (log s) i = blockno (bufs s b)) [0..<nat (lhn (log s))] = None" using new by (auto simp: find_None_iff)
  then have "log_slot (log s) (blockno (bufs s b)) = nat (lhn (log s))" by (simp add: log_slot_def)
  then show ?thesis using assms by (auto simp: log_write_def LOGSIZE_def Let_def bpin_def bupd_def lupd_def)
qed

lemma log_write_each_overflow:
  assumes "0 \<le> lhn (log s)" "lhn (log s) + int (length bs) = 30" "bs \<noteq> []" "lsize (log s) = 30" "1 \<le> outstanding (log s)"
    "distinct (map (\<lambda>b. blockno (bufs s b)) bs)" "\<forall>i<nat (lhn (log s)). \<forall>b\<in>set bs. lhblock (log s) i \<noteq> blockno (bufs s b)"
  shows "log_write_each bs s = Panic ''too big a transaction''"
  using assms
proof (induction bs arbitrary: s)
  case (Cons b bs)
  show ?case
  proof (cases "bs = []")
    case True
    then show ?thesis using Cons.prems(2,4) by (simp add: log_write_def)
  next
    case False
    then have "lhn (log s) < 29" using Cons.prems(2) by (cases bs) auto
    with log_write_new[of s b] Cons.prems obtain s' where w: "log_write b s = Ok s'" "lhn (log s') = lhn (log s) + 1" "lsize (log s') = 30"
        "outstanding (log s') = outstanding (log s)" "lhblock (log s') = (lhblock (log s))(nat (lhn (log s)) := blockno (bufs s b))"
        "\<forall>c. blockno (bufs s' c) = blockno (bufs s c)" by auto
    have "log_write_each bs s' = Panic ''too big a transaction''"
    proof (rule Cons.IH)
      show "\<forall>i<nat (lhn (log s')). \<forall>b\<in>set bs. lhblock (log s') i \<noteq> blockno (bufs s' b)"
        using Cons.prems(1,6,7) w(2,5,6) by (auto simp: nat_add_distrib)
    qed (use w Cons.prems False in auto)
    then show ?thesis using w(1) by simp
  qed
qed simp

text \<open>Thirty buffers with different blocks.\<close>

definition demo_full :: fsys where
  "demo_full = (let s = blank_fs [] in s\<lparr>bufs := (\<lambda>b. (bufs s b)\<lparr>blockno := 100 + of_nat b\<rparr>)\<rparr>)"



text \<open>
  C40: The reservation in \<open>begin_op\<close> does not leave room for the header block of the log.  With the log of 30 blocks
  that \<open>mkfs\<close> makes, three system calls may be admitted together, ten blocks each; when they log thirty
  different blocks, as they are allowed to, \<open>log_write\<close> panics at the last.
\<close>

theorem log_reservation_overflow:
  assumes "lsize (log s) = 30" "lhn (log s) = 0" "outstanding (log s) = 0" "\<not> committing (log s)"
    and "int (length bs) = 3 * MAXOPBLOCKS" "distinct (map (\<lambda>b. blockno (bufs s b)) bs)"
  shows "\<exists>s'. bind_res (begin_op s) (\<lambda>s. bind_res (begin_op s) begin_op) = Ok s' \<and>
    log_write_each bs s' = Panic ''too big a transaction''"
proof -
  let ?s = "lupd (\<lambda>l. l\<lparr>outstanding := 3\<rparr>) s"
  have "bind_res (begin_op s) (\<lambda>s. bind_res (begin_op s) begin_op) = Ok ?s"
    using assms(2-4) by (simp add: begin_op_def MAXOPBLOCKS_def LOGSIZE_def lupd_def)
  moreover have "log_write_each bs ?s = Panic ''too big a transaction''"
    by (rule log_write_each_overflow) (use assms in \<open>auto simp: MAXOPBLOCKS_def\<close>)
  ultimately show ?thesis by blast
qed

theorem log_reservation_overflow_witness:
  "\<exists>s'. bind_res (begin_op demo_full) (\<lambda>s. bind_res (begin_op s) begin_op) = Ok s' \<and>
    log_write_each [0..<30] s' = Panic ''too big a transaction''"
proof (rule log_reservation_overflow)
  have "blockno (bufs demo_full b) = 100 + of_nat b" for b by (simp add: demo_full_def Let_def)
  then show "distinct (map (\<lambda>b. blockno (bufs demo_full b)) [0..<30])" by simp code_simp
qed (simp_all add: demo_full_def Let_def blank_fs_def pst.defs fsys.defs demo_sys_def MAXOPBLOCKS_def)

end
