(* ===== verification/Virtio.thy ===== *)
theory Virtio
  imports Bio Ring
begin

text \<open>
  The driver of the virtio disk, \<^verbatim>\<open>kernel/virtio_disk.c\<close>, with the structures of
  \<^verbatim>\<open>kernel/virtio.h\<close>.  The contents of the three pages shared with the device are typed fields;
  an address in a descriptor is the object it is the address of.  A section under \<open>vdisk_lock\<close> is one
  step, so \<open>virtio_disk_rw\<close> is cut where it sleeps: \<open>virtio_rw_start\<close> is a round of the loop that
  allocates descriptors and, when that succeeds, everything up to the first sleep on the buffer;
  \<open>virtio_rw_wait\<close> is a round of the loop that waits for the buffer and, when that ends, the rest.
\<close>

section \<open>Data\<close>

definition NUM :: nat where "NUM = 8"
definition VRING_DESC_F_NEXT :: u16 where "VRING_DESC_F_NEXT = 1"
definition VRING_DESC_F_WRITE :: u16 where "VRING_DESC_F_WRITE = 2"
definition VIRTIO_BLK_T_IN :: u32 where "VIRTIO_BLK_T_IN = 0"
definition VIRTIO_BLK_T_OUT :: u32 where "VIRTIO_BLK_T_OUT = 1"

text \<open>What a descriptor points at: nothing, \<open>ops[i]\<close>, the data of a buffer, or \<open>info[i].status\<close>.\<close>

datatype dma = DmaNull | DmaOps nat | DmaData nat | DmaStatus nat

record virtq_desc =
  d_addr :: dma
  d_len :: u32
  d_flags :: u16
  d_next :: u16

record virtio_blk_req =
  r_type :: u32
  r_reserved :: u32
  r_sector :: u64

text \<open>
  \<open>struct disk\<close>: the pages of the descriptors and of the two rings, their contents (\<open>used_cnt\<close> is
  \<open>used->idx\<close>, \<open>used_ring\<close> the \<open>id\<close> fields of \<open>used->ring\<close>), the driver's own fields, the \<open>disk\<close>
  field of every \<open>struct buf\<close>, and the writes to device registers, latest first.
\<close>

record vdisk =
  desc_pg :: u64
  avail_pg :: u64
  used_pg :: u64
  desc :: "nat \<Rightarrow> virtq_desc"
  avail_idx :: u16
  avail_ring :: "nat \<Rightarrow> u16"
  used_cnt :: u16
  used_ring :: "nat \<Rightarrow> u32"
  dfree :: "nat \<Rightarrow> bool"
  used_idx :: u16
  info_b :: "nat \<Rightarrow> nat option"
  info_status :: "nat \<Rightarrow> u8"
  ops :: "nat \<Rightarrow> virtio_blk_req"
  bdisk :: "nat \<Rightarrow> bool"
  mmio :: "(u32 \<times> u32) list"

record vsys = fsys + vd :: vdisk

type_synonym 'a vs = "'a vsys_scheme"

definition vupd :: "(vdisk \<Rightarrow> vdisk) \<Rightarrow> 'a vs \<Rightarrow> 'a vs" where
  "vupd f s = s\<lparr>vd := f (vd s)\<rparr>"

section \<open>Initialisation\<close>

text \<open>
  The device's registers: \<open>rd w r\<close> is what register \<open>r\<close> reads after the writes \<open>w\<close>.
\<close>

definition put_reg :: "u32 \<Rightarrow> u32 \<Rightarrow> 'a vs \<Rightarrow> 'a vs" where
  "put_reg r v s = vupd (mmio_update (\<lambda>w. (r, v) # w)) s"

definition virtio_features :: "u64 \<Rightarrow> u64" where
  "virtio_features f = fold (\<lambda>n f. f AND NOT (push_bit n 1)) [5, 7, 11, 12, 27, 29, 28] f"

definition virtio_disk_init :: "((u32 \<times> u32) list \<Rightarrow> u32 \<Rightarrow> u32) \<Rightarrow> 'a vs \<Rightarrow> 'a vs res" where
  "virtio_disk_init rd s =
     (let get = (\<lambda>s r. rd (mmio (vd s)) r) in
      if get s 0x000 \<noteq> 0x74726976 \<or> get s 0x004 \<noteq> 2 \<or> get s 0x008 \<noteq> 2 \<or> get s 0x00c \<noteq> 0x554d4551
      then Panic ''could not find virtio disk''
      else
      let s = put_reg 0x070 0 s;
          s = put_reg 0x070 1 s;
          s = put_reg 0x070 (1 OR 2) s;
          s = put_reg 0x020 (ucast (virtio_features (ucast (get s 0x010)))) s;
          s = put_reg 0x070 (1 OR 2 OR 8) s;
          status = get s 0x070
      in if status AND 8 = 0 then Panic ''virtio disk FEATURES_OK unset''
      else let s = put_reg 0x030 0 s in
      if get s 0x044 \<noteq> 0 then Panic ''virtio disk should not be ready''
      else let mx = get s 0x034 in
      if mx = 0 then Panic ''virtio disk has no queue 0''
      else if mx < of_nat NUM then Panic ''virtio disk max queue too short''
      else
      bind_res (kalloc s) (\<lambda>(d, s). bind_res (kalloc s) (\<lambda>(a, s). bind_res (kalloc s) (\<lambda>(u, s).
      if d = 0 \<or> a = 0 \<or> u = 0 then Panic ''virtio disk kalloc''
      else
      let s = s\<lparr>pm := memset (memset (memset (pm s) d 0 (ucast PGSIZE)) a 0 (ucast PGSIZE)) u 0 (ucast PGSIZE)\<rparr>;
          s = vupd (\<lambda>v. v\<lparr>desc_pg := d, avail_pg := a, used_pg := u,
                desc := (\<lambda>_. \<lparr>d_addr = DmaNull, d_len = 0, d_flags = 0, d_next = 0\<rparr>),
                avail_idx := 0, avail_ring := (\<lambda>_. 0), used_cnt := 0, used_ring := (\<lambda>_. 0)\<rparr>) s;
          s = put_reg 0x038 (of_nat NUM) s;
          s = put_reg 0x080 (ucast d) s;
          s = put_reg 0x084 (ucast (drop_bit 32 d)) s;
          s = put_reg 0x090 (ucast a) s;
          s = put_reg 0x094 (ucast (drop_bit 32 a)) s;
          s = put_reg 0x0a0 (ucast u) s;
          s = put_reg 0x0a4 (ucast (drop_bit 32 u)) s;
          s = put_reg 0x044 1 s;
          s = vupd (\<lambda>v. v\<lparr>dfree := (\<lambda>i. i < NUM \<or> dfree v i)\<rparr>) s
      in Ok (put_reg 0x070 (status OR 4) s)))))"

section \<open>Descriptors\<close>

definition alloc_desc :: "'a vs \<Rightarrow> nat option \<times> 'a vs" where
  "alloc_desc s =
     (case find (dfree (vd s)) [0..<NUM] of
        Some i \<Rightarrow> (Some i, vupd (\<lambda>v. v\<lparr>dfree := (dfree v)(i := False)\<rparr>) s)
      | None \<Rightarrow> (None, s))"

definition free_desc :: "nat option \<Rightarrow> nat \<Rightarrow> 'a vs \<Rightarrow> 'a vs res" where
  "free_desc me i s =
     (if NUM \<le> i then Panic ''free_desc 1''
      else if dfree (vd s) i then Panic ''free_desc 2''
      else Ok (wakeup me DiskFree (vupd (\<lambda>v. v\<lparr>
             desc := (desc v)(i := \<lparr>d_addr = DmaNull, d_len = 0, d_flags = 0, d_next = 0\<rparr>),
             dfree := (dfree v)(i := True)\<rparr>) s)))"

definition busy_descs :: "'a vs \<Rightarrow> nat set" where
  "busy_descs s = {i. i < NUM \<and> \<not> dfree (vd s) i}"

lemma vd_simps [simp]:
  "vd (vupd f s) = f (vd s)" "vd (wakeup me ch s) = vd s" "vd (pupd p g s) = vd s" "vd (sleep_enter p ch s) = vd s"
  "vd (sleep_leave p s) = vd s" "vd (bupd b h s) = vd s"
  by (simp_all add: vupd_def wakeup_def pupd_def sleep_enter_def sleep_leave_def bupd_def)

lemma free_desc_busy:
  "free_desc me i s = Ok s' \<Longrightarrow> busy_descs s' = busy_descs s - {i} \<and> i \<in> busy_descs s"
  by (auto simp: free_desc_def busy_descs_def split: if_splits)

function free_chain :: "nat option \<Rightarrow> nat \<Rightarrow> 'a vs \<Rightarrow> 'a vs res" where
  "free_chain me i s =
     (let flag = d_flags (desc (vd s) i); nxt = d_next (desc (vd s) i) in
      bind_res (free_desc me i s) (\<lambda>s.
        if flag AND VRING_DESC_F_NEXT \<noteq> 0 then free_chain me (unat nxt) s else Ok s))"
  by pat_completeness auto
termination
proof (relation "measure (\<lambda>(me, i, s). card (busy_descs s))")
  fix me :: "nat option" and i and s s1 :: "'a vs"
  assume "free_desc me i s = Ok s1"
  then have "busy_descs s1 \<subset> busy_descs s" using free_desc_busy by blast
  then show "\<And>nxt. ((me, unat (nxt :: u16), s1), me, i, s) \<in> measure (\<lambda>(me, i, s). card (busy_descs s))"
    by (simp add: psubset_card_mono busy_descs_def)
qed simp

definition alloc3_desc :: "nat option \<Rightarrow> 'a vs \<Rightarrow> ((nat \<times> nat \<times> nat) option \<times> 'a vs) res" where
  "alloc3_desc me s =
     (case alloc_desc s of
        (None, s) \<Rightarrow> Ok (None, s)
      | (Some i, s) \<Rightarrow> (case alloc_desc s of
          (None, s) \<Rightarrow> bind_res (free_desc me i s) (\<lambda>s. Ok (None, s))
        | (Some j, s) \<Rightarrow> (case alloc_desc s of
            (None, s) \<Rightarrow> bind_res (free_desc me i s) (\<lambda>s. bind_res (free_desc me j s) (\<lambda>s. Ok (None, s)))
          | (Some k, s) \<Rightarrow> Ok (Some (i, j, k), s))))"

section \<open>Transfers\<close>

definition sector_of :: "u32 \<Rightarrow> u64" where
  "sector_of bno = ucast (bno * of_nat (BSIZE div 512))"

text \<open>The three descriptors of a transfer, and the announcement to the device.\<close>

definition submit :: "nat \<Rightarrow> bool \<Rightarrow> u64 \<Rightarrow> nat \<times> nat \<times> nat \<Rightarrow> vdisk \<Rightarrow> vdisk" where
  "submit b write sector idx v =
     (let (i, j, k) = idx;
          v = v\<lparr>ops := (ops v)(i := \<lparr>r_type = (if write then VIRTIO_BLK_T_OUT else VIRTIO_BLK_T_IN),
                                   r_reserved = 0, r_sector = sector\<rparr>)\<rparr>;
          v = v\<lparr>desc := (desc v)(i := \<lparr>d_addr = DmaOps i, d_len = 16, d_flags = VRING_DESC_F_NEXT, d_next = of_nat j\<rparr>)\<rparr>;
          v = v\<lparr>desc := (desc v)(j := \<lparr>d_addr = DmaData b, d_len = of_nat BSIZE,
                  d_flags = (if write then 0 else VRING_DESC_F_WRITE) OR VRING_DESC_F_NEXT, d_next = of_nat k\<rparr>)\<rparr>;
          v = v\<lparr>info_status := (info_status v)(i := 0xff)\<rparr>;
          v = v\<lparr>desc := (desc v)(k := \<lparr>d_addr = DmaStatus i, d_len = 1, d_flags = VRING_DESC_F_WRITE, d_next = 0\<rparr>)\<rparr>;
          v = v\<lparr>bdisk := (bdisk v)(b := True), info_b := (info_b v)(i := Some b)\<rparr>;
          v = v\<lparr>avail_ring := (avail_ring v)(unat (avail_idx v) mod NUM := of_nat i)\<rparr>;
          v = v\<lparr>avail_idx := avail_idx v + 1\<rparr>
      in v\<lparr>mmio := (0x050, 0) # mmio v\<rparr>)"

definition virtio_rw_start :: "nat \<Rightarrow> nat \<Rightarrow> bool \<Rightarrow> 'a vs \<Rightarrow> ((nat \<times> nat \<times> nat) option \<times> 'a vs) res" where
  "virtio_rw_start me b write s =
     bind_res (alloc3_desc (Some me) s) (\<lambda>(r, s).
       case r of
         None \<Rightarrow> Ok (None, sleep_enter me DiskFree s)
       | Some idx \<Rightarrow> Ok (Some idx, sleep_enter me (BufIO b)
             (vupd (submit b write (sector_of (blockno (bufs s b))) idx) s)))"

definition virtio_rw_wait :: "nat \<Rightarrow> nat \<Rightarrow> nat \<Rightarrow> 'a vs \<Rightarrow> (bool \<times> 'a vs) res" where
  "virtio_rw_wait me b i s =
     (if bdisk (vd s) b then Ok (False, sleep_enter me (BufIO b) s)
      else bind_res (free_chain (Some me) i (vupd (\<lambda>v. v\<lparr>info_b := (info_b v)(i := None)\<rparr>) s)) (\<lambda>s. Ok (True, s)))"

section \<open>Interrupts\<close>

lemma counter_progress: "(x :: u16) \<noteq> y \<Longrightarrow> unat (y - (x + 1)) < unat (y - x)"
  using unat_counter_pred[of y x] by (simp add: diff_diff_add)

text \<open>The loop over the used ring; \<open>id\<close> comes from the device and indexes \<open>info\<close>.\<close>

function intr_loop :: "nat option \<Rightarrow> 'a vs \<Rightarrow> 'a vs res" where
  "intr_loop me s =
     (if used_idx (vd s) = used_cnt (vd s) then Ok s
      else let i = unat (used_ring (vd s) (unat (used_idx (vd s)) mod NUM)) in
        if info_status (vd s) i \<noteq> 0 then Panic ''virtio_disk_intr status''
        else case info_b (vd s) i of None \<Rightarrow> null_deref
          | Some b \<Rightarrow> intr_loop me (vupd (\<lambda>v. v\<lparr>used_idx := used_idx v + 1\<rparr>)
              (wakeup me (BufIO b) (vupd (\<lambda>v. v\<lparr>bdisk := (bdisk v)(b := False)\<rparr>) s))))"
  by pat_completeness auto
termination
  by (relation "measure (\<lambda>(me, s). unat (used_cnt (vd s) - used_idx (vd s)))") (auto simp: counter_progress)

definition virtio_disk_intr :: "((u32 \<times> u32) list \<Rightarrow> u32 \<Rightarrow> u32) \<Rightarrow> nat option \<Rightarrow> 'a vs \<Rightarrow> 'a vs res" where
  "virtio_disk_intr rd me s = intr_loop me (put_reg 0x064 (rd (mmio (vd s)) 0x060 AND 3) s)"

declare free_chain.simps [simp del] intr_loop.simps [simp del]

end
