(* ===== verification/Diskio.thy ===== *)
theory Diskio
  imports Virtio Lifecycle
begin

text \<open>
  Processes, the disk and its interrupts together.  Several processes are in \<open>virtio_disk_rw\<close> at once,
  the device takes requests from the available ring and finishes them in any order, and interrupts
  arrive at any time.  The device is a parameter; \<open>blk_device\<close> is what the virtio specification says of a
  block device.  The invariant gives that the driver never panics, that no process sleeps for an event
  that has already happened, and that a finished call has transferred its block.
\<close>

section \<open>The device\<close>

text \<open>A device has read the available ring up to \<open>last_avail\<close> and is working on the chains \<open>taken\<close>.\<close>

record vdev =
  last_avail :: u16
  taken :: "nat list"

text \<open>
  The chain at \<open>h\<close> is a request in the format of the specification: read or write the block at
  \<open>sector\<close> to or from the data of buffer \<open>b\<close>, report in the status byte \<open>j\<close>.
\<close>

definition blk_request :: "vdisk \<Rightarrow> nat \<Rightarrow> bool \<Rightarrow> u64 \<Rightarrow> nat \<Rightarrow> nat \<Rightarrow> bool" where
  "blk_request v h write sector b j \<longleftrightarrow>
     (let d0 = desc v h; d1 = desc v (unat (d_next d0)); d2 = desc v (unat (d_next d1)) in
      (\<exists>i. d_addr d0 = DmaOps i \<and> r_type (ops v i) = (if write then VIRTIO_BLK_T_OUT else VIRTIO_BLK_T_IN)
         \<and> r_sector (ops v i) = sector)
      \<and> d_len d0 = 16 \<and> d_flags d0 = VRING_DESC_F_NEXT
      \<and> d_addr d1 = DmaData b \<and> d_len d1 = of_nat BSIZE
      \<and> d_flags d1 = (if write then 0 else VRING_DESC_F_WRITE) OR VRING_DESC_F_NEXT
      \<and> d_addr d2 = DmaStatus j \<and> d_len d2 = 1 \<and> d_flags d2 = VRING_DESC_F_WRITE)"

text \<open>A sector is 512 bytes, half a block.\<close>

definition transfer :: "bool \<Rightarrow> u64 \<Rightarrow> nat \<Rightarrow> 'a vs \<Rightarrow> 'a vs" where
  "transfer write sector b s =
     (let bno = ucast (sector div 2) in
      if write then s\<lparr>disk := (disk s)(bno := block_of (bdata (bufs s b))),
                      dwrites := (bno, block_of (bdata (bufs s b))) # dwrites s\<rparr>
      else bupd b (bdata_update (\<lambda>_. block_of (disk s bno))) s)"

definition finished :: "nat \<Rightarrow> bool \<Rightarrow> u64 \<Rightarrow> nat \<Rightarrow> nat \<Rightarrow> 'a vs \<Rightarrow> 'a vs" where
  "finished h write sector b j s =
     vupd (\<lambda>v. v\<lparr>info_status := (info_status v)(j := 0),
                 used_ring := (used_ring v)(unat (used_cnt v) mod NUM := of_nat h),
                 used_cnt := used_cnt v + 1\<rparr>) (transfer write sector b s)"

text \<open>
  What the driver relies on: a step of the device either takes the next entry of the available ring, or
  finishes a chain it has taken.  Finishing a well-formed request transfers the block, clears the status
  byte and appends the chain to the used ring.
\<close>

definition blk_device :: "('a vs \<times> vdev \<Rightarrow> 'a vs \<times> vdev \<Rightarrow> bool) \<Rightarrow> bool" where
  "blk_device device \<longleftrightarrow> (\<forall>s d s' d'. device (s, d) (s', d') \<longrightarrow>
     (last_avail d \<noteq> avail_idx (vd s) \<and> s' = s \<and>
      d' = \<lparr>last_avail = last_avail d + 1,
            taken = taken d @ [unat (avail_ring (vd s) (unat (last_avail d) mod NUM))]\<rparr>)
     \<or> (\<exists>h \<in> set (taken d). d' = d\<lparr>taken := remove1 h (taken d)\<rparr> \<and>
          (\<forall>write sector b j. blk_request (vd s) h write sector b j \<longrightarrow> s' = finished h write sector b j s)))"

section \<open>Interleavings\<close>

text \<open>
  Where a process is: not in the driver, waiting for descriptors, or waiting for its transfer with
  the descriptors it has (the local array \<open>idx\<close>).  \<open>m\<close> is the buffer's content at the call.
\<close>

datatype vpc = Out | Want nat bool mem | Wait nat bool mem "nat \<times> nat \<times> nat"

primrec vbuf :: "vpc \<Rightarrow> nat option" where
  "vbuf Out = None"
| "vbuf (Want b w m) = Some b"
| "vbuf (Wait b w m idx) = Some b"

definition after_start :: "nat \<Rightarrow> bool \<Rightarrow> mem \<Rightarrow> (nat \<times> nat \<times> nat) option \<Rightarrow> vpc" where
  "after_start b w m r = (case r of None \<Rightarrow> Want b w m | Some idx \<Rightarrow> Wait b w m idx)"

definition vrunning :: "nat \<Rightarrow> 'a vs \<Rightarrow> bool" where
  "vrunning p s \<longleftrightarrow> p < NPROC \<and> pstate (procs s p) = RUNNING"

text \<open>
  The buffer cache calls the driver for a buffer it has locked, with at most one buffer per block: no
  other call is about the same buffer or block.
\<close>

definition alone :: "nat \<Rightarrow> 'a vs \<Rightarrow> (nat \<Rightarrow> vpc) \<Rightarrow> bool" where
  "alone b s pcs \<longleftrightarrow> unat (blockno (bufs s b)) < 2 ^ 31 \<and>
     (\<forall>q c. vbuf (pcs q) = Some c \<longrightarrow> c \<noteq> b \<and> blockno (bufs s c) \<noteq> blockno (bufs s b))"

type_synonym 'a vconf = "'a vs \<times> vdev \<times> (nat \<Rightarrow> vpc)"

inductive vstep :: "((u32 \<times> u32) list \<Rightarrow> u32 \<Rightarrow> u32) \<Rightarrow> ('a vs \<times> vdev \<Rightarrow> 'a vs \<times> vdev \<Rightarrow> bool)
    \<Rightarrow> 'a vconf \<Rightarrow> 'a vconf \<Rightarrow> bool" for rd device where
  call: "vrunning p s \<Longrightarrow> pcs p = Out \<Longrightarrow> alone b s pcs \<Longrightarrow> virtio_rw_start p b w s = Ok (r, s') \<Longrightarrow>
    vstep rd device (s, d, pcs) (s', d, pcs(p := after_start b w (bdata (bufs s b)) r))"
| retry: "vrunning p s \<Longrightarrow> pcs p = Want b w m \<Longrightarrow> virtio_rw_start p b w (sleep_leave p s) = Ok (r, s') \<Longrightarrow>
    vstep rd device (s, d, pcs) (s', d, pcs(p := after_start b w m r))"
| check: "vrunning p s \<Longrightarrow> pcs p = Wait b w m (i, j, k) \<Longrightarrow>
    virtio_rw_wait p b i (sleep_leave p s) = Ok (fin, s') \<Longrightarrow>
    vstep rd device (s, d, pcs) (s', d, if fin then pcs(p := Out) else pcs)"
| interrupt: "(\<forall>p. me = Some p \<longrightarrow> vrunning p s) \<Longrightarrow> virtio_disk_intr rd me s = Ok s' \<Longrightarrow>
    vstep rd device (s, d, pcs) (s', d, pcs)"
| dev: "device (s, d) (s', d') \<Longrightarrow> vstep rd device (s, d, pcs) (s', d', pcs)"
| schedule: "pstate (procs s p) = RUNNABLE \<Longrightarrow>
    vstep rd device (s, d, pcs) (pupd p (pstate_update (\<lambda>_. RUNNING)) s, d, pcs)"
| preempt: "vrunning p s \<Longrightarrow> vstep rd device (s, d, pcs) (yield p s, d, pcs)"
| elsewhere: "\<forall>q. vbuf (pcs q) \<noteq> Some b \<Longrightarrow>
    vstep rd device (s, d, pcs) (s\<lparr>bufs := (bufs s)(b := x)\<rparr>, d, pcs)"

definition vfresh :: "'a vs \<Rightarrow> bool" where
  "vfresh s \<longleftrightarrow> (\<forall>i < NUM. dfree (vd s) i) \<and> avail_idx (vd s) = 0 \<and> used_cnt (vd s) = 0 \<and> used_idx (vd s) = 0"

inductive vreach :: "((u32 \<times> u32) list \<Rightarrow> u32 \<Rightarrow> u32) \<Rightarrow> ('a vs \<times> vdev \<Rightarrow> 'a vs \<times> vdev \<Rightarrow> bool)
    \<Rightarrow> 'a vconf \<Rightarrow> bool" for rd device where
  boot: "vfresh s \<Longrightarrow> vreach rd device (s, \<lparr>last_avail = 0, taken = []\<rparr>, (\<lambda>_. Out))"
| step: "vreach rd device x \<Longrightarrow> vstep rd device x y \<Longrightarrow> vreach rd device y"

section \<open>The invariant\<close>

text \<open>The driver's structures describe the transfer of a process that waits.\<close>

definition linked :: "vdisk \<Rightarrow> nat \<Rightarrow> bool \<Rightarrow> nat \<times> nat \<times> nat \<Rightarrow> bool" where
  "linked v b w idx \<longleftrightarrow> (case idx of (i, j, k) \<Rightarrow>
     desc v i = \<lparr>d_addr = DmaOps i, d_len = 16, d_flags = VRING_DESC_F_NEXT, d_next = of_nat j\<rparr>
     \<and> desc v j = \<lparr>d_addr = DmaData b, d_len = of_nat BSIZE,
          d_flags = (if w then 0 else VRING_DESC_F_WRITE) OR VRING_DESC_F_NEXT, d_next = of_nat k\<rparr>
     \<and> desc v k = \<lparr>d_addr = DmaStatus i, d_len = 1, d_flags = VRING_DESC_F_WRITE, d_next = 0\<rparr>)"

definition formatted :: "vdisk \<Rightarrow> nat \<Rightarrow> bool \<Rightarrow> u64 \<Rightarrow> nat \<times> nat \<times> nat \<Rightarrow> bool" where
  "formatted v b w sector idx \<longleftrightarrow> linked v b w idx
     \<and> r_type (ops v (fst idx)) = (if w then VIRTIO_BLK_T_OUT else VIRTIO_BLK_T_IN) \<and> r_sector (ops v (fst idx)) = sector
     \<and> info_b v (fst idx) = Some b"

definition descs_of :: "vpc \<Rightarrow> nat set" where
  "descs_of pc = (case pc of Wait b w m (i, j, k) \<Rightarrow> {i, j, k} | _ \<Rightarrow> {})"

lemma descs_of_simps [simp]: "descs_of Out = {}" "descs_of (Want b w m) = {}" "descs_of (Wait b w m (i, j, k)) = {i, j, k}"
  by (simp_all add: descs_of_def)

text \<open>Every descriptor is free or belongs to exactly one waiting process.\<close>

definition owned :: "'a vs \<Rightarrow> nat \<Rightarrow> bool \<Rightarrow> nat \<times> nat \<times> nat \<Rightarrow> bool" where
  "owned s b w idx \<longleftrightarrow> (case idx of (i, j, k) \<Rightarrow> distinct [i, j, k] \<and> {i, j, k} \<subseteq> busy_descs s)
     \<and> formatted (vd s) b w (sector_of (blockno (bufs s b))) idx"

primrec pc_owned :: "'a vs \<Rightarrow> vpc \<Rightarrow> bool" where
  "pc_owned s Out = True"
| "pc_owned s (Want b w m) = True"
| "pc_owned s (Wait b w m idx) = owned s b w idx"

definition desc_inv :: "'a vs \<Rightarrow> (nat \<Rightarrow> vpc) \<Rightarrow> bool" where
  "desc_inv s pcs \<longleftrightarrow>
     (\<forall>p. pc_owned s (pcs p))
     \<and> (\<forall>p q. p \<noteq> q \<longrightarrow> descs_of (pcs p) \<inter> descs_of (pcs q) = {})
     \<and> busy_descs s \<subseteq> (\<Union>p. descs_of (pcs p))"

definition buf_inv :: "'a vs \<Rightarrow> (nat \<Rightarrow> vpc) \<Rightarrow> bool" where
  "buf_inv s pcs \<longleftrightarrow>
     (\<forall>p b. vbuf (pcs p) = Some b \<longrightarrow> p < NPROC \<and> unat (blockno (bufs s b)) < 2 ^ 31)
     \<and> (\<forall>p q b c. p \<noteq> q \<longrightarrow> vbuf (pcs p) = Some b \<longrightarrow> vbuf (pcs q) = Some c
          \<longrightarrow> b \<noteq> c \<and> blockno (bufs s b) \<noteq> blockno (bufs s c))"

text \<open>The chains announced or taken but not finished, and those finished but not yet seen by the driver.\<close>

definition pending :: "vdisk \<Rightarrow> vdev \<Rightarrow> nat list" where
  "pending v d = map unat (ring NUM (avail_ring v) (last_avail d) (avail_idx v)) @ taken d"

definition completed :: "vdisk \<Rightarrow> nat list" where
  "completed v = map unat (ring NUM (used_ring v) (used_idx v) (used_cnt v))"

primrec pc_head :: "vdisk \<Rightarrow> vpc \<Rightarrow> nat set" where
  "pc_head v Out = {}"
| "pc_head v (Want b w m) = {}"
| "pc_head v (Wait b w m idx) = (if bdisk v b then {fst idx} else {})"

definition waiting_heads :: "vdisk \<Rightarrow> (nat \<Rightarrow> vpc) \<Rightarrow> nat set" where
  "waiting_heads v pcs = (\<Union>p. pc_head v (pcs p))"

definition queue_inv :: "'a vs \<Rightarrow> vdev \<Rightarrow> (nat \<Rightarrow> vpc) \<Rightarrow> bool" where
  "queue_inv s d pcs \<longleftrightarrow> distinct (pending (vd s) d @ completed (vd s))
     \<and> set (pending (vd s) d @ completed (vd s)) = waiting_heads (vd s) pcs"

definition transferred :: "'a vs \<Rightarrow> nat \<Rightarrow> bool \<Rightarrow> mem \<Rightarrow> bool" where
  "transferred s b w m \<longleftrightarrow>
     (if w then bdata (bufs s b) = m \<and> disk s (blockno (bufs s b)) = block_of m
      else bdata (bufs s b) = block_of (disk s (blockno (bufs s b))))"

primrec pc_data :: "'a vs \<Rightarrow> vdev \<Rightarrow> vpc \<Rightarrow> bool" where
  "pc_data s d Out = True"
| "pc_data s d (Want b w m) = (bdata (bufs s b) = m)"
| "pc_data s d (Wait b w m idx) =
     (if fst idx \<in> set (pending (vd s) d) then bdata (bufs s b) = m
      else transferred s b w m \<and> (fst idx \<in> set (completed (vd s)) \<longrightarrow> info_status (vd s) (fst idx) = 0))"

text \<open>Nobody sleeps for something that has happened.\<close>

primrec pc_sleep :: "'a vs \<Rightarrow> chan \<Rightarrow> vpc \<Rightarrow> bool" where
  "pc_sleep s ch Out = True"
| "pc_sleep s ch (Want b w m) = (ch = DiskFree \<and> NUM < card (busy_descs s) + 3)"
| "pc_sleep s ch (Wait b w m idx) = (ch = BufIO b \<and> bdisk (vd s) b)"

definition sleep_inv :: "'a vs \<Rightarrow> (nat \<Rightarrow> vpc) \<Rightarrow> bool" where
  "sleep_inv s pcs \<longleftrightarrow> (\<forall>p. pstate (procs s p) = SLEEPING \<longrightarrow> pc_sleep s (chan (procs s p)) (pcs p))"

definition vinv :: "'a vs \<Rightarrow> vdev \<Rightarrow> (nat \<Rightarrow> vpc) \<Rightarrow> bool" where
  "vinv s d pcs \<longleftrightarrow> desc_inv s pcs \<and> buf_inv s pcs \<and> queue_inv s d pcs
     \<and> (\<forall>p. pc_data s d (pcs p)) \<and> sleep_inv s pcs"


text \<open>
  A change that the driver does not notice: it wakes processes, clears free descriptors, writes
  registers.
\<close>

definition calm :: "'a vs \<Rightarrow> 'a vs \<Rightarrow> bool" where
  "calm s s' \<longleftrightarrow> (\<forall>p. pstate (procs s' p) = SLEEPING \<longrightarrow> pstate (procs s p) = SLEEPING \<and> chan (procs s' p) = chan (procs s p))"

definition vframe :: "'a vs \<Rightarrow> 'a vs \<Rightarrow> bool" where
  "vframe s s' \<longleftrightarrow> bufs s' = bufs s \<and> disk s' = disk s \<and> calm s s'
     \<and> (\<exists>e w. vd s' = vd s\<lparr>desc := e, mmio := w\<rparr> \<and> (\<forall>i. \<not> dfree (vd s) i \<longrightarrow> e i = desc (vd s) i))"

lemma calm_refl [simp]: "calm s s" by (simp add: calm_def)

lemma calm_trans: "calm s s1 \<Longrightarrow> calm s1 s2 \<Longrightarrow> calm s s2"
  by (simp add: calm_def)

lemma calm_wakeup [simp]: "calm s s' \<Longrightarrow> calm s (wakeup me ch s')"
  by (simp add: calm_def wakeup_apply)

lemma calm_vupd [simp]: "calm (vupd f s) s' \<longleftrightarrow> calm s s'" "calm s (vupd f s') \<longleftrightarrow> calm s s'"
  by (simp_all add: calm_def vupd_def)

lemma vs_simps [simp]:
  "bufs (vupd f s) = bufs s" "disk (vupd f s) = disk s" "procs (vupd f s) = procs s"
  "bufs (wakeup me ch s) = bufs s" "disk (wakeup me ch s) = disk s"
  "bufs (sleep_enter p ch s) = bufs s" "disk (sleep_enter p ch s) = disk s"
  "bufs (sleep_leave p s) = bufs s" "disk (sleep_leave p s) = disk s"
  "bufs (pupd p f' s) = bufs s" "disk (pupd p f' s) = disk s"
  by (simp_all add: vupd_def wakeup_def sleep_enter_def sleep_leave_def pupd_def)

lemma sleep_simps [simp]:
  "pstate (procs (sleep_enter p ch s) q) = (if q = p then SLEEPING else pstate (procs s q))"
  "chan (procs (sleep_enter p ch s) q) = (if q = p then ch else chan (procs s q))"
  by (simp_all add: sleep_enter_def pupd_def)

lemma busy_simps [simp]:
  "busy_descs (sleep_enter p ch s) = busy_descs s" "busy_descs (wakeup me ch s) = busy_descs s"
  "busy_descs (sleep_leave p s) = busy_descs s" "busy_descs (pupd p f s) = busy_descs s"
  by (simp_all add: busy_descs_def)

lemma vframe_trans: "vframe s s1 \<Longrightarrow> vframe s1 s2 \<Longrightarrow> vframe s s2"
  unfolding vframe_def
  by (elim conjE exE, intro conjI) (simp, simp, blast intro: calm_trans, rule exI, rule exI, simp)

lemma vframeI:
  assumes "bufs s' = bufs s" "disk s' = disk s" "calm s s'" "vd s' = vd s\<lparr>desc := e, mmio := w\<rparr>"
    "\<forall>i. \<not> dfree (vd s) i \<longrightarrow> e i = desc (vd s) i"
  shows "vframe s s'"
  using assms by (auto simp: vframe_def)

lemma vframe_desc:
  assumes "bufs s' = bufs s" "disk s' = disk s" "calm s s'" "vd s' = vd s\<lparr>desc := e\<rparr>"
    "\<forall>i. \<not> dfree (vd s) i \<longrightarrow> e i = desc (vd s) i"
  shows "vframe s s'"
  by (rule vframeI[where w = "mmio (vd s)", OF assms(1-3) _ assms(5)]) (simp add: assms(4))

lemma vinvD:
  "vinv s d pcs \<Longrightarrow> desc_inv s pcs" "vinv s d pcs \<Longrightarrow> buf_inv s pcs" "vinv s d pcs \<Longrightarrow> queue_inv s d pcs"
  "vinv s d pcs \<Longrightarrow> pc_data s d (pcs p)"
  "vinv s d pcs \<Longrightarrow> pstate (procs s p) = SLEEPING \<Longrightarrow> pc_sleep s (chan (procs s p)) (pcs p)"
  by (simp_all add: vinv_def sleep_inv_def)

lemma desc_invD:
  "desc_inv s pcs \<Longrightarrow> pc_owned s (pcs p)"
  "desc_inv s pcs \<Longrightarrow> p \<noteq> q \<Longrightarrow> descs_of (pcs p) \<inter> descs_of (pcs q) = {}"
  "desc_inv s pcs \<Longrightarrow> busy_descs s \<subseteq> (\<Union>p. descs_of (pcs p))"
  by (simp_all add: desc_inv_def)

lemma desc_invI:
  assumes "\<And>p. pc_owned s (pcs p)" "\<And>p q. p \<noteq> q \<Longrightarrow> descs_of (pcs p) \<inter> descs_of (pcs q) = {}"
    "\<And>x. x \<in> busy_descs s \<Longrightarrow> x \<in> (\<Union>p. descs_of (pcs p))"
  shows "desc_inv s pcs"
  unfolding desc_inv_def using assms by (intro conjI allI impI subsetI)

lemma pc_data_same:
  assumes P: "pc_data s d pc"
    and q: "\<And>b w m i j k. pc = Wait b w m (i, j, k) \<Longrightarrow>
      (i \<in> set (pending (vd s') d') \<longleftrightarrow> i \<in> set (pending (vd s) d)) \<and>
      (i \<in> set (completed (vd s')) \<longrightarrow> i \<in> set (completed (vd s)) \<and> info_status (vd s') i = info_status (vd s) i)"
    and b: "\<And>b. vbuf pc = Some b \<Longrightarrow> bufs s' b = bufs s b \<and> disk s' (blockno (bufs s b)) = disk s (blockno (bufs s b))"
  shows "pc_data s' d' pc"
proof (cases pc)
  case (Wait b w m idx)
  obtain i j k where i: "idx = (i, j, k)" by (cases idx)
  have "transferred s' b w m \<longleftrightarrow> transferred s b w m" using b[of b] Wait by (simp add: transferred_def)
  then show ?thesis using P q[of b w m i j k] b[of b] Wait i by (auto split: if_splits)
qed (use P b in auto)

lemma vinv_frame:
  assumes I: "vinv s d pcs" and F: "vframe s s'" shows "vinv s' d pcs"
proof -
  obtain e mm where v: "vd s' = vd s\<lparr>desc := e, mmio := mm\<rparr>" and e: "\<forall>i. \<not> dfree (vd s) i \<longrightarrow> e i = desc (vd s) i"
    using F by (auto simp: vframe_def)
  have f: "bufs s' = bufs s" "disk s' = disk s" "calm s s'" using F by (simp_all add: vframe_def)
  have b: "busy_descs s' = busy_descs s" by (simp add: busy_descs_def v)
  have q: "pending (vd s') d = pending (vd s) d" "completed (vd s') = completed (vd s)"
    "pc_head (vd s') pc = pc_head (vd s) pc" for pc
    by (simp_all add: pending_def completed_def v, cases pc, simp_all add: v)
  have own: "owned s' b w idx" if "owned s b w idx" for b w idx
    using that e by (cases idx) (simp add: owned_def formatted_def linked_def v busy_descs_def f)
  then have "pc_owned s' (pcs p)" for p using desc_invD(1)[OF vinvD(1)[OF I], of p] by (cases "pcs p") auto
  then have "desc_inv s' pcs" using vinvD(1)[OF I] by (simp add: desc_inv_def b)
  moreover have "buf_inv s' pcs" using vinvD(2)[OF I] unfolding buf_inv_def f .
  moreover have "queue_inv s' d pcs" using vinvD(3)[OF I] unfolding queue_inv_def waiting_heads_def q .
  moreover have "pc_data s' d (pcs p)" for p
    by (rule pc_data_same[OF vinvD(4)[OF I, of p]]) (simp_all only: q f, simp_all add: v)
  moreover have "pc_sleep s' (chan (procs s' p)) (pcs p)" if "pstate (procs s' p) = SLEEPING" for p
    using vinvD(5)[OF I, of p] that f(3) by (cases "pcs p") (simp_all add: calm_def b v)
  ultimately show ?thesis by (simp add: vinv_def sleep_inv_def)
qed

section \<open>Descriptors\<close>

definition take_desc :: "nat \<Rightarrow> 'a vs \<Rightarrow> 'a vs" where
  "take_desc i s = vupd (\<lambda>v. v\<lparr>dfree := (dfree v)(i := False)\<rparr>) s"

lemma busy_take [simp]: "i < NUM \<Longrightarrow> busy_descs (take_desc i s) = insert i (busy_descs s)"
  by (auto simp: busy_descs_def take_desc_def)

lemma busy_below: "busy_descs s \<subseteq> {..<NUM}" "finite (busy_descs s)"
  by (auto simp: busy_descs_def)

lemma alloc_desc_cases:
  "alloc_desc s = (None, s) \<and> busy_descs s = {..<NUM} \<or> (\<exists>i < NUM. i \<notin> busy_descs s \<and> alloc_desc s = (Some i, take_desc i s))"
proof (cases "find (dfree (vd s)) [0..<NUM]")
  case None
  then have "\<forall>i < NUM. \<not> dfree (vd s) i" by (simp add: find_None_iff)
  with None show ?thesis by (auto simp: alloc_desc_def busy_descs_def)
next
  case (Some i)
  then have "i < NUM" "dfree (vd s) i" by (auto simp: find_Some_iff)
  with Some show ?thesis by (auto simp: alloc_desc_def busy_descs_def take_desc_def)
qed

lemma free_taken:
  assumes "i < NUM" "dfree (vd s) i"
  shows "\<exists>s'. free_desc me i (take_desc i s) = Ok s' \<and> vframe s s'"
proof -
  have "(dfree (vd s))(i := True) = dfree (vd s)" using assms(2) by (simp add: fun_eq_iff)
  then show ?thesis using assms
    by (auto simp: free_desc_def take_desc_def intro!: vframe_desc)
qed

lemma free_two:
  assumes "i < NUM" "i \<notin> busy_descs s" "j < NUM" "j \<notin> busy_descs (take_desc i s)"
    "busy_descs (take_desc i s) = insert i (busy_descs s)" "i \<noteq> j"
  shows "\<exists>s'. bind_res (free_desc me i (take_desc j (take_desc i s))) (\<lambda>s. bind_res (free_desc me j s) (\<lambda>s. Ok (r, s))) = Ok (r, s')
    \<and> vframe s s'"
proof -
  have f: "dfree (vd s) i" "dfree (vd s) j" using assms by (auto simp: busy_descs_def)
  then have "(dfree (vd s))(i := True, j := True) = dfree (vd s)" by (auto simp: fun_eq_iff)
  then show ?thesis using assms(1,3,6) f
    by (auto simp: free_desc_def take_desc_def fun_upd_twist[of j i] intro!: vframe_desc)
qed

lemma alloc3_desc_cases:
  "(\<exists>i j k. distinct [i, j, k] \<and> {i, j, k} \<subseteq> {..<NUM} - busy_descs s
      \<and> alloc3_desc me s = Ok (Some (i, j, k), take_desc k (take_desc j (take_desc i s))))
   \<or> (\<exists>s'. alloc3_desc me s = Ok (None, s') \<and> vframe s s' \<and> NUM < card (busy_descs s) + 3)"
proof -
  have none: "NUM < card (busy_descs s) + 3" if "A \<union> busy_descs s = {..<NUM}" "card A < 3" for A
  proof -
    have "NUM = card (A \<union> busy_descs s)" using that(1) by simp
    also have "\<dots> \<le> card A + card (busy_descs s)" by (rule card_Un_le)
    finally show ?thesis using that(2) by linarith
  qed
  have free: "dfree (vd s) i" if "i < NUM" "i \<notin> busy_descs s" for i and s :: "'a vs" using that by (simp add: busy_descs_def)
  consider (0) "alloc_desc s = (None, s)" "busy_descs s = {..<NUM}"
    | (1) i where "i < NUM" "i \<notin> busy_descs s" "alloc_desc s = (Some i, take_desc i s)"
    using alloc_desc_cases[of s] by blast
  then show ?thesis
  proof cases
    case 0
    have "vframe s s" by (rule vframeI[where e = "desc (vd s)" and w = "mmio (vd s)"]) simp_all
    then show ?thesis using 0 none[of "{}"] by (simp add: alloc3_desc_def)
  next
    case i: 1
    define s1 where "s1 = take_desc i s"
    have b1: "busy_descs s1 = insert i (busy_descs s)" using i by (simp add: s1_def)
    note fi = free_taken[OF i(1) free[OF i(1,2)], of me]
    consider (0) "alloc_desc s1 = (None, s1)" "busy_descs s1 = {..<NUM}"
      | (1) j where "j < NUM" "j \<notin> busy_descs s1" "alloc_desc s1 = (Some j, take_desc j s1)"
      using alloc_desc_cases[of s1] by blast
    then show ?thesis
    proof cases
      case 0
      then show ?thesis using i fi none[of "{i}"] b1 by (auto simp: alloc3_desc_def s1_def)
    next
      case j: 1
      define s2 where "s2 = take_desc j s1"
      have b2: "busy_descs s2 = insert j (insert i (busy_descs s))" using j b1 by (simp add: s2_def)
      have ij: "i \<noteq> j" using j b1 by auto
      consider (0) "alloc_desc s2 = (None, s2)" "busy_descs s2 = {..<NUM}"
        | (1) k where "k < NUM" "k \<notin> busy_descs s2" "alloc_desc s2 = (Some k, take_desc k s2)"
        using alloc_desc_cases[of s2] by blast
      then show ?thesis
      proof cases
        case 0
        have "\<exists>s'. bind_res (free_desc me i s2) (\<lambda>s. bind_res (free_desc me j s) (\<lambda>s. Ok (None :: (nat \<times> nat \<times> nat) option, s))) = Ok (None, s') \<and> vframe s s'"
          using i(1,2) j(1,2) b1 ij unfolding s2_def s1_def by (rule free_two)
        then show ?thesis using 0 i(3) j(3) none[of "{j, i}"] b2 ij by (auto simp: alloc3_desc_def simp flip: s1_def s2_def)
      next
        case k: 1
        then show ?thesis using i j b1 b2 ij by (auto simp: alloc3_desc_def simp flip: s1_def s2_def)
      qed
    qed
  qed
qed

section \<open>Starting a transfer\<close>

lemma heads_none: "descs_of pc = {} \<Longrightarrow> pc_head v pc = {}"
  by (cases pc) (auto simp: descs_of_def split: prod.splits)

lemma UN_if_eq:
  assumes "H p = {}" shows "(\<Union>q. if q = p then {i} else H q) = insert i (\<Union>q. H q)" (is "?L = _")
proof
  show "?L \<subseteq> insert i (\<Union>q. H q)" by (rule UN_least) auto
  have "i \<in> ?L" by (rule UN_I[of p]) simp_all
  moreover have "H q \<subseteq> ?L" for q
  proof (cases "q = p")
    case False then show ?thesis using UN_upper[of q UNIV "\<lambda>q. if q = p then {i} else H q"] by simp
  qed (simp add: assms)
  ultimately show "insert i (\<Union>q. H q) \<subseteq> ?L" by (simp add: UN_least)
qed

lemma buf_invD:
  "buf_inv s pcs \<Longrightarrow> vbuf (pcs p) = Some b \<Longrightarrow> p < NPROC \<and> unat (blockno (bufs s b)) < 2 ^ 31"
  "buf_inv s pcs \<Longrightarrow> p \<noteq> q \<Longrightarrow> vbuf (pcs p) = Some b \<Longrightarrow> vbuf (pcs q) = Some c
     \<Longrightarrow> b \<noteq> c \<and> blockno (bufs s b) \<noteq> blockno (bufs s c)"
  unfolding buf_inv_def by metis+

lemma buf_inv_mono:
  assumes B: "buf_inv s pcs" and pc: "\<And>q b. vbuf (pcs' q) = Some b \<Longrightarrow> vbuf (pcs q) = Some b"
    and n: "\<And>q b. vbuf (pcs q) = Some b \<Longrightarrow> blockno (bufs s' b) = blockno (bufs s b)"
  shows "buf_inv s' pcs'"
  unfolding buf_inv_def
proof (intro conjI allI impI)
  fix p b assume p: "vbuf (pcs' p) = Some b"
  note b = buf_invD(1)[OF B pc[OF p]]
  then show "p < NPROC" by simp
  show "unat (blockno (bufs s' b)) < 2 ^ 31" using b n[OF pc[OF p]] by metis
  fix q c assume q: "p \<noteq> q" "vbuf (pcs' q) = Some c"
  note c = buf_invD(2)[OF B q(1) pc[OF p] pc[OF q(2)]]
  then show "b \<noteq> c" by simp
  show "blockno (bufs s' b) \<noteq> blockno (bufs s' c)" using c n[OF pc[OF p]] n[OF pc[OF q(2)]] by metis
qed

lemma buf_inv_enter:
  assumes B: "buf_inv s pcs" and a: "alone b s (pcs(p := Out))" and p: "p < NPROC" "vbuf pc = Some b" and s': "bufs s' = bufs s"
  shows "buf_inv s' (pcs(p := pc))"
  unfolding buf_inv_def s'
proof (intro conjI allI impI)
  have al: "c \<noteq> b \<and> blockno (bufs s c) \<noteq> blockno (bufs s b)" if "vbuf (pcs q) = Some c" "q \<noteq> p" for q c
    using a[unfolded alone_def, THEN conjunct2, rule_format, of q c] that by simp
  fix q c assume q: "vbuf ((pcs(p := pc)) q) = Some c"
  have old: "vbuf (pcs q) = Some c" if "q \<noteq> p" using q that by simp
  show "q < NPROC" using buf_invD(1)[OF B old] p by (cases "q = p") simp_all
  have "unat (blockno (bufs s b)) < 2 ^ 31" using a by (simp only: alone_def)
  then show "unat (blockno (bufs s c)) < 2 ^ 31" using buf_invD(1)[OF B old] q p by (cases "q = p") simp_all
  fix r e assume r: "q \<noteq> r" "vbuf ((pcs(p := pc)) r) = Some e"
  consider "q = p" | "r = p" | "q \<noteq> p" "r \<noteq> p" by blast
  then have "c \<noteq> e \<and> blockno (bufs s c) \<noteq> blockno (bufs s e)"
  proof cases
    case 1 then show ?thesis using al[of r e] q r p by auto
  next
    case 2 then show ?thesis using al[of q c] q r p by auto
  next
    case 3
    then have "vbuf (pcs q) = Some c" "vbuf (pcs r) = Some e" using q r by simp_all
    then show ?thesis by (rule buf_invD(2)[OF B r(1)])
  qed
  then show "c \<noteq> e" "blockno (bufs s c) \<noteq> blockno (bufs s e)" by simp_all
qed

text \<open>A process enters the driver for a buffer nobody else uses and finds no descriptors.\<close>

lemma vinv_want:
  assumes I: "vinv s d pcs" and p: "p < NPROC" "descs_of (pcs p) = {}"
    and a: "alone b s (pcs(p := Out))" and F: "vframe s s'" and few: "NUM < card (busy_descs s) + 3"
  shows "vinv (sleep_enter p DiskFree s') d (pcs(p := Want b w (bdata (bufs s b))))"
proof -
  let ?pcs = "pcs(p := Want b w (bdata (bufs s b)))" and ?t = "sleep_enter p DiskFree s'"
  note I' = vinv_frame[OF I F]
  have f: "bufs s' = bufs s" "disk s' = disk s" using F by (simp_all add: vframe_def)
  have b: "busy_descs s' = busy_descs s" using F by (auto simp: busy_descs_def vframe_def)
  have "pc_head (vd s') (?pcs q) = pc_head (vd s') (pcs q)" for q using heads_none[OF p(2), of "vd s'"] by simp
  then have hd: "waiting_heads (vd s') ?pcs = waiting_heads (vd s') pcs" unfolding waiting_heads_def by simp
  have dd: "descs_of (?pcs q) = descs_of (pcs q)" for q using p(2) by simp
  have "pc_owned ?t (?pcs q)" for q using desc_invD(1)[OF vinvD(1)[OF I'], of q]
    by (cases "pcs q") (auto simp: owned_def b)
  then have "desc_inv ?t ?pcs" using vinvD(1)[OF I'] unfolding desc_inv_def dd by simp
  moreover have "buf_inv ?t ?pcs" by (rule buf_inv_enter[OF vinvD(2)[OF I] a p(1)]) (simp_all add: f)
  moreover have "queue_inv ?t d ?pcs" using vinvD(3)[OF I'] unfolding queue_inv_def vd_simps hd .
  moreover have "pc_data ?t d (?pcs q)" for q
    using pc_data_same[OF vinvD(4)[OF I', of q], of ?t d] by (cases "q = p") (simp_all add: f)
  moreover have "pc_sleep ?t (chan (procs ?t q)) (?pcs q)" if q: "pstate (procs ?t q) = SLEEPING" for q
  proof (cases "q = p")
    case True then show ?thesis using few by (simp add: b)
  next
    case False
    then show ?thesis using q vinvD(5)[OF I', of q]
      by (cases "pcs q") (simp_all add: b)
  qed
  ultimately show ?thesis by (simp add: vinv_def sleep_inv_def)
qed

lemma descs_busy: "desc_inv s pcs \<Longrightarrow> descs_of (pcs p) \<subseteq> busy_descs s"
  using desc_invD(1)[of s pcs p] by (cases "pcs p") (auto simp: owned_def descs_of_def split: prod.splits)

lemma heads_busy: "desc_inv s pcs \<Longrightarrow> waiting_heads v pcs \<subseteq> busy_descs s"
proof -
  assume D: "desc_inv s pcs"
  have "pc_head v (pcs p) \<subseteq> descs_of (pcs p)" for p by (cases "pcs p") (auto simp: descs_of_def split: prod.splits)
  then show ?thesis using descs_busy[OF D] unfolding waiting_heads_def by blast
qed

lemma pending_short:
  assumes I: "vinv s d pcs" and i: "i < NUM" "i \<notin> busy_descs s"
  shows "length (pending (vd s) d @ completed (vd s)) < NUM"
proof -
  let ?l = "pending (vd s) d @ completed (vd s)"
  have "set ?l \<subseteq> {..<NUM} - {i}"
    using vinvD(3)[OF I] heads_busy[OF vinvD(1)[OF I]] busy_below(1)[of s] i unfolding queue_inv_def by auto
  then have "card (set ?l) \<le> card ({..<NUM} - {i})" by (intro card_mono) auto
  moreover have "card (set ?l) = length ?l" using vinvD(3)[OF I] unfolding queue_inv_def by (intro distinct_card) simp
  ultimately show ?thesis using i(1) by simp
qed

lemma ring_cap16: "NUM dvd 2 ^ LENGTH(16)" "NUM < 2 ^ LENGTH(16)"
  by (simp_all add: NUM_def)

lemma submit_simps:
  "busy_descs (vupd (submit b w x (i, j, k)) s) = busy_descs s"
  "used_ring (submit b w x (i, j, k) v) = used_ring v" "used_idx (submit b w x (i, j, k) v) = used_idx v"
  "used_cnt (submit b w x (i, j, k) v) = used_cnt v" "bdisk (submit b w x (i, j, k) v) = (bdisk v)(b := True)"
  "info_status (submit b w x (i, j, k) v) = (info_status v)(i := 0xff)"
  "avail_idx (submit b w x (i, j, k) v) = avail_idx v + 1"
  "avail_ring (submit b w x (i, j, k) v) = (avail_ring v)(unat (avail_idx v) mod NUM := of_nat i)"
  by (simp_all add: submit_def busy_descs_def)

lemma submit_formatted:
  "distinct [i, j, k] \<Longrightarrow> formatted (submit b w x (i, j, k) v) b w x (i, j, k)"
  by (simp add: submit_def formatted_def linked_def)

lemma submit_other:
  assumes "formatted v c w' x' (i', j', k')" "{i', j', k'} \<inter> {i, j, k} = {}"
  shows "formatted (submit b w x (i, j, k) v) c w' x' (i', j', k')"
proof -
  have "i' \<notin> {i, j, k}" "j' \<notin> {i, j, k}" "k' \<notin> {i, j, k}" using assms(2) by auto
  then show ?thesis using assms(1) by (simp add: submit_def formatted_def linked_def)
qed

lemma submit_pending:
  assumes "length (pending v d) < NUM" "i < NUM"
  shows "pending (submit b w x (i, j, k) v) d
    = map unat (ring NUM (avail_ring v) (last_avail d) (avail_idx v)) @ i # taken d"
proof -
  have l: "unat (avail_idx v - last_avail d) < NUM" using assms(1) by (simp add: pending_def)
  have "unat (of_nat i :: u16) = i" using assms(2) by (simp add: unat_of_nat NUM_def)
  then show ?thesis by (simp add: pending_def submit_simps ring_put[OF ring_cap16 l])
qed

lemma vd_take: "vd (take_desc i s) = vd s\<lparr>dfree := (dfree (vd s))(i := False)\<rparr>"
  by (simp add: take_desc_def)

lemma vs_take [simp]: "bufs (take_desc i s) = bufs s" "disk (take_desc i s) = disk s" "procs (take_desc i s) = procs s"
  by (simp_all add: take_desc_def)

definition started :: "nat \<Rightarrow> nat \<Rightarrow> bool \<Rightarrow> nat \<times> nat \<times> nat \<Rightarrow> 'a vs \<Rightarrow> 'a vs" where
  "started p b w idx s = (case idx of (i, j, k) \<Rightarrow> sleep_enter p (BufIO b)
     (vupd (submit b w (sector_of (blockno (bufs s b))) idx) (take_desc k (take_desc j (take_desc i s)))))"

lemma started_simps:
  assumes "{i, j, k} \<subseteq> {..<NUM}"
  shows "busy_descs (started p b w (i, j, k) s) = {i, j, k} \<union> busy_descs s"
    "vd (started p b w (i, j, k) s) = submit b w (sector_of (blockno (bufs s b))) (i, j, k)
       (vd s\<lparr>dfree := (dfree (vd s))(i := False, j := False, k := False)\<rparr>)"
    "bufs (started p b w (i, j, k) s) = bufs s" "disk (started p b w (i, j, k) s) = disk s"
    "pstate (procs (started p b w (i, j, k) s) q) = (if q = p then SLEEPING else pstate (procs s q))"
    "chan (procs (started p b w (i, j, k) s) q) = (if q = p then BufIO b else chan (procs s q))"
  using assms by (auto simp: started_def submit_simps vd_take)

lemma started_desc_inv:
  assumes I: "desc_inv s pcs" and p: "descs_of (pcs p) = {}" and idx: "distinct [i, j, k]" "{i, j, k} \<subseteq> {..<NUM} - busy_descs s"
  shows "desc_inv (started p b w (i, j, k) s) (pcs(p := Wait b w m (i, j, k)))"
proof -
  let ?t = "started p b w (i, j, k) s" and ?pcs = "pcs(p := Wait b w m (i, j, k))"
  have S: "{i, j, k} \<subseteq> {..<NUM}" using idx(2) by auto
  note st = started_simps[OF S]
  have apart: "{i', j', k'} \<inter> {i, j, k} = {}" if "owned s c w' (i', j', k')" for c w' i' j' k'
    using that idx(2) by (auto simp: owned_def)
  have own: "owned ?t c w' idx'" if "owned s c w' idx'" for c w' idx'
  proof -
    obtain i' j' k' where i: "idx' = (i', j', k')" by (cases idx')
    have "formatted (vd s\<lparr>dfree := f\<rparr>) c w' (sector_of (blockno (bufs s c))) (i', j', k')" for f
      using that i by (simp add: owned_def formatted_def linked_def)
    then show ?thesis using that i submit_other[OF _ apart[OF that[unfolded i]]] by (auto simp: owned_def st)
  qed
  have "pc_owned ?t (?pcs q)" for q
  proof (cases "q = p")
    case True then show ?thesis using idx(1) submit_formatted[OF idx(1)] by (simp add: owned_def st)
  next
    case False then show ?thesis using desc_invD(1)[OF I, of q] own by (cases "pcs q") auto
  qed
  moreover have "descs_of (?pcs q) \<inter> descs_of (?pcs r) = {}" if "q \<noteq> r" for q r
  proof -
    have "descs_of (pcs q) \<inter> {i, j, k} = {}" for q
      using descs_busy[OF I, of q] idx(2) by auto
    then show ?thesis using that desc_invD(2)[OF I that] by (auto simp: Int_commute)
  qed
  moreover have "x \<in> (\<Union>q. descs_of (?pcs q))" if x: "x \<in> busy_descs ?t" for x
  proof -
    consider "x \<in> {i, j, k}" | q where "x \<in> descs_of (pcs q)" using x desc_invD(3)[OF I] unfolding st by blast
    then have "\<exists>q. x \<in> descs_of (?pcs q)" using p by cases (auto intro: exI[of _ p])
    then show ?thesis by blast
  qed
  ultimately show ?thesis by (rule desc_invI)
qed

lemma vinv_started:
  assumes I: "vinv s d pcs" and p: "p < NPROC" "descs_of (pcs p) = {}"
    and a: "alone b s (pcs(p := Out))" and idx: "distinct [i, j, k]" "{i, j, k} \<subseteq> {..<NUM} - busy_descs s"
  shows "vinv (started p b w (i, j, k) s) d (pcs(p := Wait b w (bdata (bufs s b)) (i, j, k)))"
proof -
  let ?t = "started p b w (i, j, k) s" and ?pcs = "pcs(p := Wait b w (bdata (bufs s b)) (i, j, k))"
  have S: "{i, j, k} \<subseteq> {..<NUM}" and i: "i < NUM" "i \<notin> busy_descs s" using idx(2) by auto
  note st = started_simps[OF S]
  have oth: "vbuf (pcs q) \<noteq> Some b" if "q \<noteq> p" for q
    using a[unfolded alone_def, THEN conjunct2, rule_format, of q b] that by auto
  have comp: "completed (vd ?t) = completed (vd s)" by (simp add: completed_def submit_simps st)
  have pend: "pending (vd ?t) d = map unat (ring NUM (avail_ring (vd s)) (last_avail d) (avail_idx (vd s))) @ i # taken d"
    using submit_pending[of "vd s\<lparr>dfree := f\<rparr>" d i for f] pending_short[OF I i] i(1) by (simp add: st pending_def)
  have ps: "set (pending (vd ?t) d) = insert i (set (pending (vd s) d))" unfolding pend by (auto simp: pending_def)
  have new: "i \<notin> set (pending (vd s) d @ completed (vd s))"
    using vinvD(3)[OF I] heads_busy[OF vinvD(1)[OF I]] i(2) by (auto simp: queue_inv_def)
  have hd: "waiting_heads (vd ?t) ?pcs = insert i (waiting_heads (vd s) pcs)"
  proof -
    have "pc_head (vd ?t) (?pcs q) = (if q = p then {i} else pc_head (vd s) (pcs q))" for q
      using oth[of q] by (cases "pcs q") (auto simp: submit_simps st)
    then show ?thesis unfolding waiting_heads_def by (simp only: UN_if_eq[where H = "\<lambda>q. pc_head (vd s) (pcs q)", OF heads_none[OF p(2)]])
  qed
  have Q: "queue_inv ?t d ?pcs" using vinvD(3)[OF I] new unfolding queue_inv_def comp hd pend
    by (auto simp: pending_def)
  have "pc_data ?t d (pcs q)" for q
  proof (rule pc_data_same[OF vinvD(4)[OF I, of q]])
    fix c w' m' i' j' k' assume "pcs q = Wait c w' m' (i', j', k')"
    then have "i' \<noteq> i" using desc_invD(1)[OF vinvD(1)[OF I], of q] i(2) by (auto simp: owned_def)
    then show "(i' \<in> set (pending (vd ?t) d)) = (i' \<in> set (pending (vd s) d)) \<and>
      (i' \<in> set (completed (vd ?t)) \<longrightarrow> i' \<in> set (completed (vd s)) \<and> info_status (vd ?t) i' = info_status (vd s) i')"
      unfolding ps comp by (simp add: submit_simps st)
  qed (simp add: st)
  then have "pc_data ?t d (?pcs q)" for q by (cases "q = p") (simp_all add: ps st(3))
  moreover have "pc_sleep ?t (chan (procs ?t q)) (?pcs q)" if q: "pstate (procs ?t q) = SLEEPING" for q
  proof (cases "q = p")
    case True then show ?thesis by (simp add: submit_simps st)
  next
    case False
    have "card (busy_descs s) \<le> card ({i, j, k} \<union> busy_descs s)" using busy_below(2)[of s] by (intro card_mono) auto
    with False show ?thesis using q vinvD(5)[OF I, of q]
      by (cases "pcs q") (simp_all add: submit_simps st)
  qed
  ultimately show ?thesis
    using Q started_desc_inv[OF vinvD(1)[OF I] p(2) idx] buf_inv_enter[OF vinvD(2)[OF I] a p(1), of "Wait b w (bdata (bufs s b)) (i, j, k)" ?t]
    by (simp add: vinv_def sleep_inv_def st)
qed

text \<open>A round of the loop that allocates descriptors.\<close>

lemma vinv_start:
  assumes I: "vinv s d pcs" and p: "p < NPROC" "descs_of (pcs p) = {}" and a: "alone b s (pcs(p := Out))"
  shows "\<exists>r s'. virtio_rw_start p b w s = Ok (r, s') \<and> vinv s' d (pcs(p := after_start b w (bdata (bufs s b)) r))"
  using alloc3_desc_cases[of s "Some p"]
proof (elim disjE exE conjE)
  fix i j k assume A: "distinct [i, j, k]" "{i, j, k} \<subseteq> {..<NUM} - busy_descs s"
    "alloc3_desc (Some p) s = Ok (Some (i, j, k), take_desc k (take_desc j (take_desc i s)))"
  have "virtio_rw_start p b w s = Ok (Some (i, j, k), started p b w (i, j, k) s)"
    by (simp add: virtio_rw_start_def A(3) started_def)
  then show ?thesis using vinv_started[OF I p a A(1,2)] by (simp add: after_start_def)
next
  fix s' assume A: "alloc3_desc (Some p) s = Ok (None, s')" "vframe s s'" "NUM < card (busy_descs s) + 3"
  have "virtio_rw_start p b w s = Ok (None, sleep_enter p DiskFree s')" by (simp add: virtio_rw_start_def A(1))
  then show ?thesis using vinv_want[OF I p a A(2,3)] by (simp add: after_start_def)
qed

section \<open>Finishing a call\<close>

text \<open>Freeing the chain of a transfer.\<close>

definition cleared :: "nat \<Rightarrow> vdisk \<Rightarrow> vdisk" where
  "cleared i v = v\<lparr>desc := (desc v)(i := \<lparr>d_addr = DmaNull, d_len = 0, d_flags = 0, d_next = 0\<rparr>), dfree := (dfree v)(i := True)\<rparr>"

definition no_sleepers :: "nat option \<Rightarrow> chan \<Rightarrow> 'a vs \<Rightarrow> bool" where
  "no_sleepers me ch s \<longleftrightarrow> (\<forall>p < NPROC. Some p \<noteq> me \<longrightarrow> pstate (procs s p) = SLEEPING \<longrightarrow> chan (procs s p) \<noteq> ch)"

lemma no_sleepers_wakeup [simp]: "no_sleepers me ch (wakeup me ch s)"
  by (simp add: no_sleepers_def wakeup_apply)

lemma free_desc_Ok:
  "i < NUM \<Longrightarrow> \<not> dfree (vd s) i \<Longrightarrow> free_desc me i s = Ok (wakeup me DiskFree (vupd (cleared i) s))"
  by (simp add: free_desc_def cleared_def[abs_def])

lemma free_chain_three:
  assumes F: "linked (vd s) b w (i, j, k)" and d: "distinct [i, j, k]" "{i, j, k} \<subseteq> busy_descs s"
  shows "\<exists>s'. free_chain me i s = Ok s' \<and> vd s' = cleared k (cleared j (cleared i (vd s))) \<and> bufs s' = bufs s \<and> disk s' = disk s
    \<and> calm s s' \<and> no_sleepers me DiskFree s'"
proof -
  let ?f = "\<lambda>i s. wakeup me DiskFree (vupd (cleared i) s)"
  have b: "i < NUM" "j < NUM" "k < NUM" "\<not> dfree (vd s) i" "\<not> dfree (vd s) j" "\<not> dfree (vd s) k"
    using d(2) by (auto simp: busy_descs_def)
  have n: "unat (of_nat j :: u16) = j" "unat (of_nat k :: u16) = k" using b by (simp_all add: unat_of_nat NUM_def)
  have fl: "VRING_DESC_F_NEXT AND VRING_DESC_F_NEXT \<noteq> 0" "((if w then 0 else VRING_DESC_F_WRITE) OR VRING_DESC_F_NEXT) AND VRING_DESC_F_NEXT \<noteq> 0"
    "VRING_DESC_F_WRITE AND VRING_DESC_F_NEXT = 0"
    by (simp_all add: VRING_DESC_F_NEXT_def VRING_DESC_F_WRITE_def)
  have k: "free_chain me k (?f j (?f i s)) = Ok (?f k (?f j (?f i s)))"
    using F d(1) b fl by (subst free_chain.simps) (simp add: linked_def cleared_def free_desc_Ok)
  have j: "free_chain me j (?f i s) = Ok (?f k (?f j (?f i s)))"
    using F d(1) b fl n k by (subst free_chain.simps) (simp add: linked_def cleared_def free_desc_Ok)
  have "free_chain me i s = Ok (?f k (?f j (?f i s)))"
    using F d(1) b fl n j by (subst free_chain.simps) (simp add: linked_def cleared_def free_desc_Ok)
  then show ?thesis by auto
qed

lemma vinv_sleep:
  assumes I: "vinv s d pcs" and c: "pc_sleep s ch (pcs p)"
  shows "vinv (sleep_enter p ch s) d pcs"
proof -
  let ?t = "sleep_enter p ch s"
  have "pc_owned ?t (pcs q)" for q using desc_invD(1)[OF vinvD(1)[OF I], of q] by (cases "pcs q") (auto simp: owned_def)
  then have "desc_inv ?t pcs" using vinvD(1)[OF I] unfolding desc_inv_def by simp
  moreover have "buf_inv ?t pcs" "queue_inv ?t d pcs" using vinvD(2,3)[OF I] unfolding buf_inv_def queue_inv_def vs_simps vd_simps .
  moreover have "pc_data ?t d (pcs q)" for q by (rule pc_data_same[OF vinvD(4)[OF I, of q]]) simp_all
  moreover have "pc_sleep ?t ch' pc = pc_sleep s ch' pc" for ch' pc by (cases pc) simp_all
  then have "pc_sleep ?t (chan (procs ?t q)) (pcs q)" if "pstate (procs ?t q) = SLEEPING" for q
    using that vinvD(5)[OF I, of q] c by (cases "q = p") simp_all
  ultimately show ?thesis by (simp add: vinv_def sleep_inv_def)
qed

text \<open>What happens to the other processes when a call returns.\<close>

lemma cleared_other:
  assumes "owned s c w' idx'" "descs_of (Wait c w' m' idx') \<inter> {i, j, k} = {}" "bufs s' = bufs s"
    "vd s' = cleared k (cleared j (cleared i (vd s\<lparr>info_b := (info_b (vd s))(i := None)\<rparr>)))"
  shows "owned s' c w' idx'"
proof -
  obtain i' j' k' where i: "idx' = (i', j', k')" by (cases idx')
  have "i' \<notin> {i, j, k}" "j' \<notin> {i, j, k}" "k' \<notin> {i, j, k}" using assms(2) i by auto
  then show ?thesis using assms(1) by (simp add: i owned_def formatted_def linked_def busy_descs_def cleared_def assms(3,4))
qed

lemma vinv_leave:
  assumes I: "vinv s d pcs" and w: "pcs p = Wait b w m (i, j, k)" and nb: "\<not> bdisk (vd s) b"
    and v: "vd s' = cleared k (cleared j (cleared i (vd s\<lparr>info_b := (info_b (vd s))(i := None)\<rparr>)))"
    and f: "bufs s' = bufs s" "disk s' = disk s" "calm s s'" "no_sleepers (Some p) DiskFree s'"
  shows "vinv s' d (pcs(p := Out))"
proof -
  let ?pcs = "pcs(p := Out)"
  note D = vinvD(1)[OF I]
  have "{i, j, k} \<subseteq> busy_descs s" using desc_invD(1)[OF D, of p] w by (simp add: owned_def)
  then have busy: "busy_descs s' = busy_descs s - {i, j, k}" by (auto simp: busy_descs_def v cleared_def)
  have ap: "descs_of (pcs q) \<inter> {i, j, k} = {}" if "q \<noteq> p" for q using desc_invD(2)[OF D that] w by simp
  have own: "pc_owned s' (?pcs q)" for q
    using desc_invD(1)[OF D, of q] ap[of q] cleared_other[OF _ _ f(1) v] by (cases "q = p"; cases "pcs q") simp_all
  have disj: "descs_of (?pcs q) \<inter> descs_of (?pcs r) = {}" if "q \<noteq> r" for q r using desc_invD(2)[OF D that] by simp
  have cov: "x \<in> (\<Union>q. descs_of (?pcs q))" if x: "x \<in> busy_descs s'" for x
  proof -
    obtain q where q: "x \<in> descs_of (pcs q)" using x desc_invD(3)[OF D] busy by blast
    have "descs_of (pcs p) = {i, j, k}" "x \<notin> {i, j, k}" using x unfolding busy w by simp_all
    with q have "q \<noteq> p" by metis
    with q show ?thesis by (intro UN_I[of q]) simp_all
  qed
  have eq: "pending (vd s') d = pending (vd s) d" "completed (vd s') = completed (vd s)" "bdisk (vd s') = bdisk (vd s)"
    "info_status (vd s') = info_status (vd s)" by (simp_all add: v cleared_def pending_def completed_def)
  have "pc_head (vd s') (?pcs q) = pc_head (vd s) (pcs q)" for q using nb w by (cases "q = p"; cases "pcs q") (simp_all add: eq)
  then have Q: "queue_inv s' d ?pcs" using vinvD(3)[OF I] unfolding queue_inv_def waiting_heads_def eq by simp
  have B: "buf_inv s' ?pcs" by (rule buf_inv_mono[OF vinvD(2)[OF I]]) (simp_all add: f split: if_splits)
  have "pc_data s' d (pcs q)" for q by (rule pc_data_same[OF vinvD(4)[OF I, of q]]) (simp_all add: eq f)
  then have P: "pc_data s' d (?pcs q)" for q by simp
  have "pc_sleep s' (chan (procs s' q)) (?pcs q)" if q: "pstate (procs s' q) = SLEEPING" "q \<noteq> p" for q
  proof -
    have *: "pc_sleep s (chan (procs s' q)) (pcs q)" using vinvD(5)[OF I, of q] f(3) q(1) by (simp add: calm_def)
    show ?thesis
    proof (cases "pcs q")
      case (Want c w' m')
      then have "q < NPROC" using buf_invD(1)[OF vinvD(2)[OF I], of q] by simp
      then show ?thesis using f(4) q Want * by (simp add: no_sleepers_def)
    qed (use * q in \<open>simp_all add: eq\<close>)
  qed
  then have "sleep_inv s' ?pcs" unfolding sleep_inv_def by simp
  then show ?thesis using desc_invI[of s' ?pcs] own disj cov Q B P by (simp add: vinv_def)
qed

text \<open>A round of the loop that waits for the transfer.\<close>

lemma leave_frame: "pstate (procs s p) \<noteq> SLEEPING \<Longrightarrow> vframe s (sleep_leave p s)"
  by (rule vframe_desc[where e = "desc (vd s)"]) (auto simp: calm_def sleep_leave_def pupd_def)

lemma vinv_wait:
  assumes I: "vinv s d pcs" and w: "pcs p = Wait b w m (i, j, k)" and r: "pstate (procs s p) \<noteq> SLEEPING"
  shows "\<exists>s'. virtio_rw_wait p b i (sleep_leave p s) = Ok (\<not> bdisk (vd s) b, s')
    \<and> bufs s' = bufs s \<and> disk s' = disk s \<and> vinv s' d (if bdisk (vd s) b then pcs else pcs(p := Out))"
proof -
  note J = vinv_frame[OF I leave_frame[OF r]]
  let ?s = "sleep_leave p s"
  show ?thesis
  proof (cases "bdisk (vd s) b")
    case True
    then show ?thesis using vinv_sleep[OF J, of "BufIO b" p] w by (simp add: virtio_rw_wait_def)
  next
    case False
    let ?u = "vupd (\<lambda>v. v\<lparr>info_b := (info_b v)(i := None)\<rparr>) ?s"
    have "owned s b w (i, j, k)" using desc_invD(1)[OF vinvD(1)[OF I], of p] w by simp
    then have "linked (vd ?u) b w (i, j, k)" "distinct [i, j, k]" "{i, j, k} \<subseteq> busy_descs ?u"
      by (simp_all add: owned_def formatted_def linked_def busy_descs_def)
    from free_chain_three[OF this, of "Some p"] obtain s' where F: "free_chain (Some p) i ?u = Ok s'"
      "vd s' = cleared k (cleared j (cleared i (vd ?u)))" "bufs s' = bufs s" "disk s' = disk s" "calm ?s s'" "no_sleepers (Some p) DiskFree s'"
      by auto
    have "vinv s' d (pcs(p := Out))" using F False by (intro vinv_leave[OF J w]) simp_all
    then show ?thesis using F False by (simp add: virtio_rw_wait_def)
  qed
qed

section \<open>Interrupts\<close>

definition seen :: "nat option \<Rightarrow> nat \<Rightarrow> 'a vs \<Rightarrow> 'a vs" where
  "seen me b s = vupd (\<lambda>v. v\<lparr>used_idx := used_idx v + 1\<rparr>)
     (wakeup me (BufIO b) (vupd (\<lambda>v. v\<lparr>bdisk := (bdisk v)(b := False)\<rparr>) s))"

lemma head_waits:
  assumes I: "vinv s d pcs" and h: "h \<in> set (pending (vd s) d @ completed (vd s))"
  obtains p b w m j k where "pcs p = Wait b w m (h, j, k)" "bdisk (vd s) b"
proof -
  have "h \<in> waiting_heads (vd s) pcs" using vinvD(3)[OF I] h unfolding queue_inv_def by simp
  then obtain p where p: "h \<in> pc_head (vd s) (pcs p)" unfolding waiting_heads_def by blast
  then show thesis
  proof (cases "pcs p")
    case (Wait b w m idx)
    then show ?thesis using p that[of p b w m "fst (snd idx)" "snd (snd idx)"] by (cases idx) (auto split: if_splits)
  qed simp_all
qed

lemma vinv_seen:
  assumes I: "vinv s d pcs" and me: "\<forall>p. me = Some p \<longrightarrow> pstate (procs s p) \<noteq> SLEEPING"
    and c: "completed (vd s) = h # rest" and w: "pcs p = Wait b w m (h, j, k)" "bdisk (vd s) b"
    and r: "completed (vd (seen me b s)) = rest"
  shows "vinv (seen me b s) d pcs"
proof -
  let ?t = "seen me b s"
  have v: "vd ?t = vd s\<lparr>bdisk := (bdisk (vd s))(b := False), used_idx := used_idx (vd s) + 1\<rparr>" by (simp add: seen_def)
  have f: "bufs ?t = bufs s" "disk ?t = disk s" by (simp_all add: seen_def)
  have busy: "busy_descs ?t = busy_descs s" by (simp add: busy_descs_def v)
  have pend: "pending (vd ?t) d = pending (vd s) d" by (simp add: pending_def v)
  have "owned ?t c w' idx = owned s c w' idx" for c w' idx by (simp add: owned_def formatted_def linked_def busy f v)
  then have "pc_owned ?t pc = pc_owned s pc" for pc by (cases pc) simp_all
  then have "desc_inv ?t pcs" using vinvD(1)[OF I] unfolding desc_inv_def busy by simp
  moreover have "buf_inv ?t pcs" by (rule buf_inv_mono[OF vinvD(2)[OF I]]) (simp_all add: f)
  moreover have oth: "vbuf (pcs q) \<noteq> Some b" if "q \<noteq> p" for q using buf_invD(2)[OF vinvD(2)[OF I] that] w by auto
  have hd: "pc_head (vd ?t) (pcs q) = pc_head (vd s) (pcs q) - {h}" for q
  proof (cases "q = p")
    case True then show ?thesis using w by (simp add: v)
  next
    case False
    have "h \<notin> descs_of (pcs q)" using desc_invD(2)[OF vinvD(1)[OF I] False] w(1) by auto
    then show ?thesis using oth[OF False] by (cases "pcs q") (auto simp: v descs_of_def split: prod.splits)
  qed
  have "waiting_heads (vd ?t) pcs = waiting_heads (vd s) pcs - {h}" unfolding waiting_heads_def hd by blast
  then have "queue_inv ?t d pcs" using vinvD(3)[OF I] unfolding queue_inv_def pend c r by auto
  moreover have "pc_data ?t d (pcs q)" for q
    by (rule pc_data_same[OF vinvD(4)[OF I, of q]]) (simp_all add: pend r c f, simp add: v)
  moreover have "pc_sleep ?t (chan (procs ?t q)) (pcs q)" if q: "pstate (procs ?t q) = SLEEPING" for q
  proof -
    have "pstate (procs s q) = SLEEPING" "chan (procs ?t q) = chan (procs s q)" and ne: "q < NPROC \<Longrightarrow> Some q \<noteq> me \<Longrightarrow> chan (procs s q) \<noteq> BufIO b"
      using q by (auto simp: seen_def wakeup_apply split: if_splits)
    then have *: "pc_sleep s (chan (procs ?t q)) (pcs q)" "Some q \<noteq> me" using vinvD(5)[OF I, of q] me by auto
    show ?thesis
    proof (cases "pcs q")
      case (Wait c w' m' idx)
      then have "q < NPROC" using buf_invD(1)[OF vinvD(2)[OF I], of q] by simp
      then show ?thesis using ne * Wait \<open>chan (procs ?t q) = chan (procs s q)\<close> by (auto simp: v)
    qed (use * in \<open>simp_all add: busy\<close>)
  qed
  ultimately show ?thesis by (simp add: vinv_def sleep_inv_def)
qed

lemma ring_cap32: "unat (of_nat h :: u32) = h" if "h < NUM"
  using that by (simp add: unat_of_nat NUM_def)

lemma vinv_intr:
  assumes "vinv s d pcs" "\<forall>p. me = Some p \<longrightarrow> pstate (procs s p) \<noteq> SLEEPING"
  shows "\<exists>s'. intr_loop me s = Ok s' \<and> vinv s' d pcs"
  using assms
proof (induction me s rule: intr_loop.induct)
  case (1 me s)
  note I = 1(2) and me = 1(3)
  show ?case
  proof (cases "used_idx (vd s) = used_cnt (vd s)")
    case True then show ?thesis using I by (simp add: intr_loop.simps[of me s])
  next
    case False
    let ?h = "unat (used_ring (vd s) (unat (used_idx (vd s)) mod NUM))"
    let ?rest = "map unat (ring NUM (used_ring (vd s)) (used_idx (vd s) + 1) (used_cnt (vd s)))"
    have c: "completed (vd s) = ?h # ?rest" using False by (simp add: completed_def ring_first)
    then obtain p b w m j k where p: "pcs p = Wait b w m (?h, j, k)" "bdisk (vd s) b"
      using head_waits[OF I, of ?h] by (metis append_is_Nil_conv in_set_conv_decomp set_append UnCI list.set_intros(1))
    have "?h \<notin> set (pending (vd s) d)" using vinvD(3)[OF I] c unfolding queue_inv_def by auto
    then have st: "info_status (vd s) ?h = 0" using vinvD(4)[OF I, of p] p c by simp
    have ib: "info_b (vd s) ?h = Some b" using desc_invD(1)[OF vinvD(1)[OF I], of p] p by (simp add: owned_def formatted_def)
    have r: "completed (vd (seen me b s)) = ?rest" by (simp add: seen_def completed_def)
    have me': "\<forall>p. me = Some p \<longrightarrow> pstate (procs (seen me b s) p) \<noteq> SLEEPING" using me by (simp add: seen_def wakeup_apply)
    have step: "intr_loop me s = intr_loop me (seen me b s)"
      using False st ib by (subst intr_loop.simps) (simp add: seen_def)
    show ?thesis unfolding step
      using 1(1)[OF False refl _ ib, folded seen_def] st vinv_seen[OF I me c p r] me' by simp
  qed
qed

section \<open>Steps of the device\<close>

lemma vinv_fetch:
  assumes I: "vinv s d pcs" and ne: "last_avail d \<noteq> avail_idx (vd s)"
    and d': "d' = \<lparr>last_avail = last_avail d + 1, taken = taken d @ [unat (avail_ring (vd s) (unat (last_avail d) mod NUM))]\<rparr>"
  shows "vinv s d' pcs"
proof -
  let ?h = "unat (avail_ring (vd s) (unat (last_avail d) mod NUM))"
  let ?r = "map unat (ring NUM (avail_ring (vd s)) (last_avail d + 1) (avail_idx (vd s)))"
  have p: "pending (vd s) d = ?h # ?r @ taken d" "pending (vd s) d' = ?r @ taken d @ [?h]"
    using ne by (simp_all add: pending_def d' ring_first)
  then have ps: "set (pending (vd s) d') = set (pending (vd s) d)" by auto
  have "queue_inv s d' pcs" using vinvD(3)[OF I] unfolding queue_inv_def p by auto
  moreover have "pc_data s d' (pcs q)" for q by (rule pc_data_same[OF vinvD(4)[OF I, of q]]) (simp_all add: ps)
  ultimately show ?thesis using I unfolding vinv_def by blast
qed

lemma formatted_request:
  assumes "formatted v b w x (i, j, k)" "j < NUM" "k < NUM"
  shows "blk_request v i w x b i"
proof -
  have "unat (of_nat j :: u16) = j" "unat (of_nat k :: u16) = k" using assms(2,3) by (simp_all add: unat_of_nat NUM_def)
  then show ?thesis using assms(1) by (simp add: blk_request_def formatted_def linked_def)
qed

lemma sector_block: "unat bno < 2 ^ 31 \<Longrightarrow> ucast (sector_of bno div 2) = (bno :: u32)"
proof -
  assume "unat bno < 2 ^ 31"
  then have "unat (bno * 2) = 2 * unat bno" by (simp add: unat_word_ariths)
  then have "unat (sector_of bno) = 2 * unat bno" by (simp add: sector_of_def BSIZE_def unat_ucast_u32)
  then have "unat (sector_of bno div 2) = unat bno" by (simp add: unat_div)
  then show ?thesis using unat_u32[of bno] by (simp add: word_unat_eq_iff unsigned_ucast_eq take_bit_nat_eq_self)
qed

lemma finished_simps:
  "vd (finished h w x b j s) = vd s\<lparr>info_status := (info_status (vd s))(j := 0),
     used_ring := (used_ring (vd s))(unat (used_cnt (vd s)) mod NUM := of_nat h), used_cnt := used_cnt (vd s) + 1\<rparr>"
  "procs (finished h w x b j s) = procs s" "busy_descs (finished h w x b j s) = busy_descs s"
  "blockno (bufs (finished h w x b j s) c) = blockno (bufs s c)"
  "c \<noteq> b \<Longrightarrow> bufs (finished h w x b j s) c = bufs s c"
  "n \<noteq> ucast (x div 2) \<Longrightarrow> disk (finished h w x b j s) n = disk s n"
  by (simp_all add: finished_def transfer_def Let_def bupd_def vupd_def busy_descs_def)

lemma finished_transferred:
  assumes "unat (blockno (bufs s b)) < 2 ^ 31" "bdata (bufs s b) = m"
  shows "transferred (finished h w (sector_of (blockno (bufs s b))) b j s) b w m"
  using assms by (simp add: transferred_def finished_def transfer_def Let_def bupd_def vupd_def sector_block)

lemma vinv_finished:
  assumes I: "vinv s d pcs" and h: "h \<in> set (taken d)" and p: "pcs p = Wait b w m (h, j, k)" "bdisk (vd s) b"
  shows "vinv (finished h w (sector_of (blockno (bufs s b))) b h s) (d\<lparr>taken := remove1 h (taken d)\<rparr>) pcs"
proof -
  let ?x = "sector_of (blockno (bufs s b))" and ?d = "d\<lparr>taken := remove1 h (taken d)\<rparr>"
  let ?t = "finished h w ?x b h s"
  note fin = finished_simps
  have bno: "unat (blockno (bufs s b)) < 2 ^ 31" using buf_invD(1)[OF vinvD(2)[OF I], of p b] p by simp
  have Q: "distinct (pending (vd s) d @ completed (vd s))" "set (pending (vd s) d @ completed (vd s)) = waiting_heads (vd s) pcs"
    using vinvD(3)[OF I] by (simp_all only: queue_inv_def)
  have hp: "h \<in> set (pending (vd s) d)" using h by (simp add: pending_def)
  then have hN: "h < NUM" using Q(2) heads_busy[OF vinvD(1)[OF I], of "vd s"] busy_below(1)[of s] by auto
  have pend: "pending (vd ?t) ?d = map unat (ring NUM (avail_ring (vd s)) (last_avail d) (avail_idx (vd s))) @ remove1 h (taken d)"
    by (simp add: pending_def fin)
  have ps: "set (pending (vd ?t) ?d) = set (pending (vd s) d) - {h}" and pd: "distinct (pending (vd ?t) ?d)"
    using Q(1) h unfolding pend by (auto simp: pending_def)
  have "length (completed (vd s)) < NUM"
  proof -
    have "h \<notin> set (completed (vd s))" using Q(1) hp by auto
    moreover have "set (completed (vd s)) \<subseteq> {..<NUM}" using Q(2) heads_busy[OF vinvD(1)[OF I], of "vd s"] busy_below(1)[of s] by auto
    ultimately have "card (set (completed (vd s))) \<le> card ({..<NUM} - {h})" by (intro card_mono) auto
    then show ?thesis using Q(1) hN by (simp add: distinct_card)
  qed
  then have comp: "completed (vd ?t) = completed (vd s) @ [h]"
    by (simp add: completed_def fin ring_put[OF ring_cap16] ring_cap32[OF hN])
  have "pc_head (vd ?t) pc = pc_head (vd s) pc" for pc by (cases pc) (simp_all add: fin)
  then have "queue_inv ?t ?d pcs" unfolding queue_inv_def waiting_heads_def using Q hp pd ps unfolding comp waiting_heads_def by auto
  moreover have "owned ?t c w' idx = owned s c w' idx" for c w' idx by (simp add: owned_def formatted_def linked_def fin)
  then have "pc_owned ?t pc = pc_owned s pc" for pc by (cases pc) simp_all
  then have "desc_inv ?t pcs" using vinvD(1)[OF I] unfolding desc_inv_def fin(3) by simp
  moreover have "buf_inv ?t pcs" by (rule buf_inv_mono[OF vinvD(2)[OF I]]) (simp_all add: fin)
  moreover have "pc_data ?t ?d (pcs q)" for q
  proof (cases "q = p")
    case True
    have "bdata (bufs s b) = m" using vinvD(4)[OF I, of p] p hp by simp
    then show ?thesis using True p(1) finished_transferred[OF bno] by (simp add: ps) (simp add: fin)
  next
    case False
    have "h \<notin> descs_of (pcs q)" using desc_invD(2)[OF vinvD(1)[OF I] False] p(1) by auto
    moreover have "c \<noteq> b \<and> blockno (bufs s c) \<noteq> blockno (bufs s b)" if "vbuf (pcs q) = Some c" for c
      using buf_invD(2)[OF vinvD(2)[OF I] False that] p(1) by simp
    ultimately show ?thesis
      by (intro pc_data_same[OF vinvD(4)[OF I, of q]]; (unfold ps comp)?; auto simp: fin sector_block[OF bno])
  qed
  moreover have "pc_sleep ?t ch pc = pc_sleep s ch pc" for ch pc by (cases pc) (simp_all add: fin)
  then have "sleep_inv ?t pcs" using I by (simp add: sleep_inv_def fin vinv_def)
  ultimately show ?thesis by (simp add: vinv_def)
qed

lemma vinv_device:
  assumes dev: "blk_device device" and I: "vinv s d pcs" and st: "device (s, d) (s', d')"
  shows "vinv s' d' pcs"
  using dev[unfolded blk_device_def, rule_format, OF st]
proof (elim disjE bexE conjE)
  fix h assume h: "h \<in> set (taken d)" "d' = d\<lparr>taken := remove1 h (taken d)\<rparr>"
    "\<forall>w x b j. blk_request (vd s) h w x b j \<longrightarrow> s' = finished h w x b j s"
  then have "h \<in> set (pending (vd s) d @ completed (vd s))" by (simp add: pending_def)
  then obtain p b w m j k where p: "pcs p = Wait b w m (h, j, k)" "bdisk (vd s) b" by (rule head_waits[OF I])
  then have "formatted (vd s) b w (sector_of (blockno (bufs s b))) (h, j, k)" "{h, j, k} \<subseteq> busy_descs s"
    using desc_invD(1)[OF vinvD(1)[OF I], of p] by (simp_all add: owned_def)
  then have "blk_request (vd s) h w (sector_of (blockno (bufs s b))) b h"
    using busy_below(1)[of s] by (intro formatted_request) auto
  then show ?thesis using h vinv_finished[OF I h(1) p] by simp
qed (use vinv_fetch[OF I] in simp)

section \<open>Reachable states\<close>

lemma vrunning_awake: "vrunning p s \<Longrightarrow> p < NPROC \<and> pstate (procs s p) \<noteq> SLEEPING"
  by (simp add: vrunning_def)

lemma put_reg_frame: "vframe s (put_reg r v s)"
  by (rule vframeI[where e = "desc (vd s)" and w = "(r, v) # mmio (vd s)"]) (simp_all add: put_reg_def)

lemma yield_frame: "vframe s (yield p s)"
  by (rule vframe_desc[where e = "desc (vd s)"]) (auto simp: yield_def pupd_def calm_def Let_def)

lemma alone_self:
  assumes "buf_inv s pcs" "vbuf (pcs p) = Some b" shows "alone b s (pcs(p := Out))"
proof -
  have "c \<noteq> b \<and> blockno (bufs s c) \<noteq> blockno (bufs s b)" if "vbuf ((pcs(p := Out)) q) = Some c" for q c
  proof (cases "q = p")
    case False
    then show ?thesis using buf_invD(2)[OF assms(1) False _ assms(2), of c] that by simp
  qed (use that in simp)
  then show ?thesis using buf_invD(1)[OF assms] unfolding alone_def by blast
qed

lemma vinv_interrupt:
  assumes I: "vinv s d pcs" and me: "\<forall>p. me = Some p \<longrightarrow> vrunning p s"
  shows "\<exists>s'. virtio_disk_intr rd me s = Ok s' \<and> vinv s' d pcs"
proof -
  have "\<forall>p. me = Some p \<longrightarrow> pstate (procs (put_reg r v s) p) \<noteq> SLEEPING" for r v
    using me vrunning_awake[of _ s] by (simp add: put_reg_def)
  then show ?thesis unfolding virtio_disk_intr_def by (intro vinv_intr vinv_frame[OF I put_reg_frame])
qed

lemma vinv_retry:
  assumes I: "vinv s d pcs" and r: "vrunning p s" and w: "pcs p = Want b w m"
  shows "\<exists>r s'. virtio_rw_start p b w (sleep_leave p s) = Ok (r, s') \<and> vinv s' d (pcs(p := after_start b w m r))"
proof -
  note a = vrunning_awake[OF r]
  note J = vinv_frame[OF I leave_frame[OF conjunct2[OF a]]]
  have "bdata (bufs s b) = m" "descs_of (pcs p) = {}" using vinvD(4)[OF I, of p] w by simp_all
  moreover have "alone b (sleep_leave p s) (pcs(p := Out))" using alone_self[OF vinvD(2)[OF J], of p b] w by simp
  ultimately show ?thesis using vinv_start[OF J conjunct1[OF a], of b w] by simp
qed

lemma vinv_call:
  assumes I: "vinv s d pcs" and r: "vrunning p s" and w: "pcs p = Out" and a: "alone b s pcs"
  shows "\<exists>r s'. virtio_rw_start p b w s = Ok (r, s') \<and> vinv s' d (pcs(p := after_start b w (bdata (bufs s b)) r))"
proof -
  have "pcs(p := Out) = pcs" using w by auto
  then show ?thesis using vinv_start[OF I conjunct1[OF vrunning_awake[OF r]], of b w] w a by simp
qed

lemma vinv_elsewhere:
  assumes I: "vinv s d pcs" and b: "\<forall>q. vbuf (pcs q) \<noteq> Some b"
  shows "vinv (s\<lparr>bufs := (bufs s)(b := x)\<rparr>) d pcs" (is "vinv ?t d pcs")
proof -
  have o: "c \<noteq> b" if "vbuf (pcs q) = Some c" for q c using b that by auto
  have busy: "busy_descs ?t = busy_descs s" by (simp add: busy_descs_def)
  have "pc_owned ?t (pcs q)" for q using desc_invD(1)[OF vinvD(1)[OF I], of q] o[of q]
    by (cases "pcs q") (auto simp: owned_def busy)
  then have "desc_inv ?t pcs" using vinvD(1)[OF I] unfolding desc_inv_def busy by simp
  moreover have "buf_inv ?t pcs" by (rule buf_inv_mono[OF vinvD(2)[OF I]]) (simp_all add: o)
  moreover have "queue_inv ?t d pcs" using vinvD(3)[OF I] by (simp add: queue_inv_def)
  moreover have "pc_data ?t d (pcs q)" for q by (rule pc_data_same[OF vinvD(4)[OF I, of q]]) (simp_all add: o)
  moreover have "pc_sleep ?t ch pc = pc_sleep s ch pc" for ch pc by (cases pc) (simp_all add: busy)
  then have "sleep_inv ?t pcs" using I by (simp add: sleep_inv_def vinv_def)
  ultimately show ?thesis by (simp add: vinv_def)
qed

lemma vinv_boot: "vfresh s \<Longrightarrow> vinv s \<lparr>last_avail = 0, taken = []\<rparr> (\<lambda>_. Out)"
  by (auto simp: vinv_def desc_inv_def buf_inv_def queue_inv_def sleep_inv_def busy_descs_def vfresh_def
      pending_def completed_def waiting_heads_def)

lemma vstep_vinv:
  assumes dev: "blk_device device" and st: "vstep rd device x y" and I: "case x of (s, d, pcs) \<Rightarrow> vinv s d pcs"
  shows "case y of (s, d, pcs) \<Rightarrow> vinv s d pcs"
  using st I
proof cases
  case (call p s pcs b w r s' d)
  then show ?thesis using I vinv_call[of s d pcs p b w] by auto
next
  case (retry p s pcs b w m r s' d)
  then show ?thesis using I vinv_retry[of s d pcs p b w m] by auto
next
  case (check p s pcs b w m i j k fin s' d)
  then show ?thesis using I vinv_wait[of s d pcs p b w m i j k] vrunning_awake[of p s] by auto
next
  case (interrupt me s s' d pcs)
  then show ?thesis using I vinv_interrupt[of s d pcs me rd] by auto
next
  case (dev s d s' d' pcs)
  then show ?thesis using vinv_device[OF assms(1)] I by simp
next
  case (schedule s p d pcs)
  have "vframe s (pupd p (pstate_update (\<lambda>_. RUNNING)) s)"
    by (rule vframe_desc[where e = "desc (vd s)"]) (auto simp: calm_def pupd_def)
  then show ?thesis using schedule I vinv_frame by simp
next
  case (preempt p s d pcs)
  then show ?thesis using I vinv_frame[OF _ yield_frame] by simp
next
  case (elsewhere pcs b s d x)
  then show ?thesis using I vinv_elsewhere by simp
qed

lemma vreach_vinv:
  assumes "vreach rd device (s, d, pcs)" "blk_device device" shows "vinv s d pcs"
proof -
  have "case x of (s, d, pcs) \<Rightarrow> vinv s d pcs" if "vreach rd device x" for x
    using that by induction (simp_all add: vinv_boot vstep_vinv[OF assms(2)])
  from this[OF assms(1)] show ?thesis by simp
qed

end
