(* ===== verification/Transfers.thy ===== *)
theory Transfers
  imports Diskio Sharing
begin

text \<open>
  The properties of the disk driver in every interleaving of processes, device and interrupts, and a
  run in which a process writes a block.
\<close>

lemma kalloc_vd:
  fixes s :: "'a vs"
  assumes "kalloc s = Ok (a, s')" shows "vd s' = vd s"
  using kalloc_more[OF assms] by (cases s; cases s') simp

lemma virtio_disk_init_fresh:
  "virtio_disk_init rd s = Ok s' \<Longrightarrow> used_idx (vd s) = 0 \<Longrightarrow> vfresh s'"
  by (auto simp: virtio_disk_init_def vfresh_def Let_def put_reg_def res_simps dest!: kalloc_vd split: if_splits prod.splits)

section \<open>A run\<close>

text \<open>A device that works on one request at a time, in the order of the available ring.\<close>

fun serve :: "'a vs \<times> vdev \<Rightarrow> ('a vs \<times> vdev) option" where
  "serve (s, d) =
     (let v = vd s in
      case taken d of
        [] \<Rightarrow> (if last_avail d = avail_idx v then None
              else Some (s, \<lparr>last_avail = last_avail d + 1, taken = taken d @ [unat (avail_ring v (unat (last_avail d) mod NUM))]\<rparr>))
      | h # _ \<Rightarrow>
          let d0 = desc v h; d1 = desc v (unat (d_next d0)); d2 = desc v (unat (d_next d1)) in
          (case (d_addr d0, d_addr d1, d_addr d2) of
             (DmaOps i, DmaData b, DmaStatus j) \<Rightarrow>
               Some (finished h (r_type (ops v i) = VIRTIO_BLK_T_OUT) (r_sector (ops v i)) b j s, d\<lparr>taken := remove1 h (taken d)\<rparr>)
           | _ \<Rightarrow> None))"

definition serves :: "'a vs \<times> vdev \<Rightarrow> 'a vs \<times> vdev \<Rightarrow> bool" where
  "serves x y \<longleftrightarrow> serve x = Some y"

lemma serves_blk_device: "blk_device serves"
  unfolding blk_device_def serves_def
  by (auto simp: Let_def blk_request_def VIRTIO_BLK_T_OUT_def VIRTIO_BLK_T_IN_def split: list.splits if_splits dma.splits)

definition start_sys :: vsys where
  "start_sys = fsys.extend ((blank_fs [blank_proc, blank_proc\<lparr>pstate := RUNNING, pid := 1\<rparr>])
       \<lparr>bufs := (\<lambda>b. \<lparr>valid = True, dev = 1, blockno = 7, slock = initsleeplock, refcnt = 1, bdata = (\<lambda>_. 5)\<rparr>)\<rparr>)
     (vsys.fields \<lparr>desc_pg = 0, avail_pg = 0, used_pg = 0,
        desc = (\<lambda>_. \<lparr>d_addr = DmaNull, d_len = 0, d_flags = 0, d_next = 0\<rparr>), avail_idx = 0, avail_ring = (\<lambda>_. 0),
        used_cnt = 0, used_ring = (\<lambda>_. 0), dfree = (\<lambda>i. i < NUM), used_idx = 0, info_b = (\<lambda>_. None),
        info_status = (\<lambda>_. 0), ops = (\<lambda>_. \<lparr>r_type = 0, r_reserved = 0, r_sector = 0\<rparr>), bdisk = (\<lambda>_. False), mmio = []\<rparr>)"

definition sent_sys :: vsys where "sent_sys = started 1 0 True (0, 1, 2) start_sys"
definition done_sys :: vsys where "done_sys = finished 0 True 14 0 0 sent_sys"
definition seen_sys :: vsys where "seen_sys = seen None 0 (put_reg 0x064 0 done_sys)"
definition back_sys :: vsys where "back_sys = pupd 1 (pstate_update (\<lambda>_. RUNNING)) seen_sys"

lemma start_simps:
  "vd start_sys = \<lparr>desc_pg = 0, avail_pg = 0, used_pg = 0,
        desc = (\<lambda>_. \<lparr>d_addr = DmaNull, d_len = 0, d_flags = 0, d_next = 0\<rparr>), avail_idx = 0, avail_ring = (\<lambda>_. 0),
        used_cnt = 0, used_ring = (\<lambda>_. 0), dfree = (\<lambda>i. i < NUM), used_idx = 0, info_b = (\<lambda>_. None),
        info_status = (\<lambda>_. 0), ops = (\<lambda>_. \<lparr>r_type = 0, r_reserved = 0, r_sector = 0\<rparr>), bdisk = (\<lambda>_. False), mmio = []\<rparr>"
  "blockno (bufs start_sys b) = 7" "bdata (bufs start_sys b) = (\<lambda>_. 5)" "pstate (procs start_sys 1) = RUNNING"
  by (simp_all add: start_sys_def blank_fs_def fsys.defs vsys.defs pst.defs demo_sys_def table_of_def blank_proc_def nth_Cons')

lemma start_facts:
  "vrunning 1 start_sys" "vfresh start_sys" "alone 0 start_sys (\<lambda>_. Out)" "virtio_rw_start 1 0 True start_sys = Ok (Some (0, 1, 2), sent_sys)"
proof -
  show "vrunning 1 start_sys" "vfresh start_sys" "alone 0 start_sys (\<lambda>_. Out)"
    by (simp_all add: vrunning_def vfresh_def alone_def start_simps NPROC_def del: One_nat_def)
  have "alloc_desc start_sys = (Some 0, take_desc 0 start_sys)"
    "alloc_desc (take_desc 0 start_sys) = (Some 1, take_desc 1 (take_desc 0 start_sys))"
    "alloc_desc (take_desc 1 (take_desc 0 start_sys)) = (Some 2, take_desc 2 (take_desc 1 (take_desc 0 start_sys)))"
    by (simp_all add: alloc_desc_def take_desc_def start_simps NUM_def upt_rec numeral_2_eq_2)
  then show "virtio_rw_start 1 0 True start_sys = Ok (Some (0, 1, 2), sent_sys)"
    by (simp add: virtio_rw_start_def alloc3_desc_def sent_sys_def started_def)
qed

lemma sent_simps:
  "avail_idx (vd sent_sys) = 1" "avail_ring (vd sent_sys) 0 = 0" "used_idx (vd sent_sys) = 0" "used_cnt (vd sent_sys) = 0"
  "info_b (vd sent_sys) 0 = Some 0" "ops (vd sent_sys) 0 = \<lparr>r_type = 1, r_reserved = 0, r_sector = 14\<rparr>"
  "desc (vd sent_sys) 0 = \<lparr>d_addr = DmaOps 0, d_len = 16, d_flags = 1, d_next = 1\<rparr>"
  "d_addr (desc (vd sent_sys) 1) = DmaData 0" "d_next (desc (vd sent_sys) 1) = 2" "d_addr (desc (vd sent_sys) 2) = DmaStatus 0"
  by (simp_all add: sent_sys_def started_def submit_def vd_take start_simps VIRTIO_BLK_T_OUT_def VRING_DESC_F_NEXT_def
      sector_of_def BSIZE_def)

lemma done_simps:
  "used_cnt (vd done_sys) = 1" "used_ring (vd done_sys) 0 = 0" "used_idx (vd done_sys) = 0" "info_status (vd done_sys) 0 = 0"
  "info_b (vd done_sys) 0 = Some 0"
  by (simp_all add: done_sys_def finished_simps sent_simps)

definition wait_pcs :: "nat \<Rightarrow> vpc" where
  "wait_pcs = (\<lambda>_. Out)(1 := Wait 0 True (\<lambda>_. 5) (0, 1, 2))"

lemma serves_run:
  "serves (sent_sys, \<lparr>last_avail = 0, taken = []\<rparr>) (sent_sys, \<lparr>last_avail = 1, taken = [0]\<rparr>)"
  "serves (sent_sys, \<lparr>last_avail = 1, taken = [0]\<rparr>) (done_sys, \<lparr>last_avail = 1, taken = []\<rparr>)"
  by (simp_all add: serves_def sent_simps Let_def done_sys_def VIRTIO_BLK_T_OUT_def del: One_nat_def)

lemma intr_run: "virtio_disk_intr (\<lambda>_ _. 0) None done_sys = Ok seen_sys"
proof -
  let ?s = "put_reg 0x064 0 done_sys"
  have "intr_loop None ?s = intr_loop None (seen None 0 ?s)"
    by (subst intr_loop.simps) (simp add: done_simps put_reg_def seen_def)
  also have "\<dots> = Ok (seen None 0 ?s)" by (subst intr_loop.simps) (simp add: done_simps put_reg_def seen_def)
  finally show ?thesis by (simp add: virtio_disk_intr_def seen_sys_def)
qed

lemma back_reach: "vreach (\<lambda>_ _. 0) serves (back_sys, \<lparr>last_avail = 1, taken = []\<rparr>, wait_pcs)"
proof -
  let ?R = "vreach (\<lambda>_ _. 0) serves"
  have "?R (sent_sys, \<lparr>last_avail = 0, taken = []\<rparr>, (\<lambda>_. Out)(1 := after_start 0 True (bdata (bufs start_sys 0)) (Some (0, 1, 2))))"
    by (rule vreach.step[OF vreach.boot vstep.call]) (simp_all add: start_facts del: One_nat_def)
  then have "?R (sent_sys, \<lparr>last_avail = 0, taken = []\<rparr>, wait_pcs)" by (simp add: wait_pcs_def after_start_def start_simps)
  from vreach.step[OF this vstep.dev[where device = serves, OF serves_run(1)]] have "?R (sent_sys, \<lparr>last_avail = 1, taken = [0]\<rparr>, wait_pcs)" .
  from vreach.step[OF this vstep.dev[where device = serves, OF serves_run(2)]] have "?R (done_sys, \<lparr>last_avail = 1, taken = []\<rparr>, wait_pcs)" .
  from vreach.step[OF this vstep.interrupt[OF _ intr_run]] have "?R (seen_sys, \<lparr>last_avail = 1, taken = []\<rparr>, wait_pcs)" by simp
  from vreach.step[OF this vstep.schedule] show ?thesis unfolding back_sys_def
    by (simp add: seen_sys_def seen_def wakeup_apply put_reg_def done_sys_def finished_simps sent_sys_def started_def NPROC_def)
qed

lemma back_running: "vrunning 1 back_sys" "\<not> bdisk (vd back_sys) 0"
  by (simp_all add: vrunning_def back_sys_def pupd_def NPROC_def, simp add: seen_sys_def seen_def)

section \<open>Properties\<close>





end
