(* ===== verification/Grep.thy ===== *)
theory Grep
  imports Prelude
begin

text \<open>
  \<^verbatim>\<open>user/grep.c\<close>.  A C string is the list of its bytes without the final NUL; a pointer into it is
  the rest of the string from there.  \<open>grep\<close> reads a file in pieces into a buffer of 1024 bytes;
  how many bytes a \<open>read\<close> returns is up to the kernel and is an argument of the model.
\<close>

section \<open>The matcher\<close>

abbreviation caret :: u8 where "caret \<equiv> 94"
abbreviation star :: u8 where "star \<equiv> 42"
abbreviation dollar :: u8 where "dollar \<equiv> 36"
abbreviation dot :: u8 where "dot \<equiv> 46"
abbreviation newline :: u8 where "newline \<equiv> 10"

text \<open>\<open>matchhere\<close> and \<open>matchstar\<close> call each other; \<open>matchstar c re\<close> is a loop over the text.\<close>

function (sequential) matchhere :: "u8 list \<Rightarrow> u8 list \<Rightarrow> bool"
  and matchstar :: "u8 \<Rightarrow> u8 list \<Rightarrow> u8 list \<Rightarrow> bool" where
  "matchhere [] t = True"
| "matchhere (c # re) t =
     (if re \<noteq> [] \<and> hd re = star then matchstar c (tl re) t
      else if c = dollar \<and> re = [] then t = []
      else case t of [] \<Rightarrow> False | x # rest \<Rightarrow> (c = dot \<or> c = x) \<and> matchhere re rest)"
| "matchstar c re t =
     (matchhere re t \<or> (case t of [] \<Rightarrow> False | x # rest \<Rightarrow> (x = c \<or> c = dot) \<and> matchstar c re rest))"
  by pat_completeness auto
termination
  by (relation "measures [\<lambda>x. case x of Inl (re, t) \<Rightarrow> length re | Inr (c, re, t) \<Rightarrow> Suc (length re),
        \<lambda>x. case x of Inl (re, t) \<Rightarrow> length t | Inr (c, re, t) \<Rightarrow> length t]")
     (auto simp: less_Suc_eq_le neq_Nil_conv)

declare matchhere.simps [simp del] matchstar.simps [simp del]

fun match_from :: "u8 list \<Rightarrow> u8 list \<Rightarrow> bool" where
  "match_from re t = (matchhere re t \<or> (case t of [] \<Rightarrow> False | _ # rest \<Rightarrow> match_from re rest))"

declare match_from.simps [simp del]

definition match :: "u8 list \<Rightarrow> u8 list \<Rightarrow> bool" where
  "match re t = (case re of c # re' \<Rightarrow> if c = caret then matchhere re' t else match_from re t
     | [] \<Rightarrow> match_from re t)"

section \<open>What a pattern means\<close>

text \<open>
  A pattern is a sequence of single bytes, starred bytes and, at its end only, the end of the text.
  \<open>matches ts v rest\<close>: the pattern matches \<open>v\<close> when \<open>rest\<close> follows.
\<close>

datatype atom = One u8 | Many u8 | End

fun atoms :: "u8 list \<Rightarrow> atom list" where
  "atoms [] = []"
| "atoms [c] = (if c = dollar then [End] else [One c])"
| "atoms (c # d # re) = (if d = star then Many c # atoms re else One c # atoms (d # re))"

definition accepts :: "u8 \<Rightarrow> u8 \<Rightarrow> bool" where
  "accepts c x \<longleftrightarrow> c = dot \<or> c = x"

inductive matches :: "atom list \<Rightarrow> u8 list \<Rightarrow> u8 list \<Rightarrow> bool" where
  "matches [] [] rest"
| "matches [End] [] []"
| "accepts c x \<Longrightarrow> matches ts v rest \<Longrightarrow> matches (One c # ts) (x # v) rest"
| "\<forall>x \<in> set xs. accepts c x \<Longrightarrow> matches ts v rest \<Longrightarrow> matches (Many c # ts) (xs @ v) rest"

inductive_simps matches_Nil [simp]: "matches [] v rest"
inductive_simps matches_End [simp]: "matches [End] v rest"
inductive_simps matches_One: "matches (One c # ts) v rest"
inductive_simps matches_Many: "matches (Many c # ts) v rest"

definition here :: "atom list \<Rightarrow> u8 list \<Rightarrow> bool" where
  "here ts t \<longleftrightarrow> (\<exists>v rest. t = v @ rest \<and> matches ts v rest)"

lemma here_Nil [simp]: "here [] t"
  by (simp add: here_def)

lemma here_End [simp]: "here [End] t \<longleftrightarrow> t = []"
  by (auto simp: here_def)

lemma here_One: "here (One c # ts) t \<longleftrightarrow> (\<exists>x r. t = x # r \<and> accepts c x \<and> here ts r)"
proof
  show "here (One c # ts) t \<Longrightarrow> \<exists>x r. t = x # r \<and> accepts c x \<and> here ts r" unfolding here_def matches_One by fastforce
  assume "\<exists>x r. t = x # r \<and> accepts c x \<and> here ts r"
  then obtain x v rest where "t = (x # v) @ rest" "accepts c x" "matches ts v rest" by (auto simp: here_def)
  then show "here (One c # ts) t" unfolding here_def matches_One by blast
qed

lemma here_ManyI: "\<forall>x \<in> set xs. accepts c x \<Longrightarrow> here ts r \<Longrightarrow> here (Many c # ts) (xs @ r)"
proof -
  assume x: "\<forall>x \<in> set xs. accepts c x" and "here ts r"
  then obtain v rest where "r = v @ rest" "matches ts v rest" by (auto simp: here_def)
  then show ?thesis unfolding here_def using matches.intros(4)[OF x] by (intro exI[of _ "xs @ v"] exI[of _ rest]) simp
qed

lemma here_ManyE:
  assumes "here (Many c # ts) t" obtains xs r where "t = xs @ r" "\<forall>x \<in> set xs. accepts c x" "here ts r"
proof -
  obtain xs v rest where "t = (xs @ v) @ rest" "\<forall>x \<in> set xs. accepts c x" "matches ts v rest"
    using assms unfolding here_def matches_Many by blast
  then show thesis using that[of xs "v @ rest"] by (auto simp: here_def)
qed

lemma here_Many:
  "here (Many c # ts) t \<longleftrightarrow> here ts t \<or> (\<exists>x r. t = x # r \<and> accepts c x \<and> here (Many c # ts) r)"
proof
  assume "here (Many c # ts) t"
  then obtain xs r where t: "t = xs @ r" "\<forall>x \<in> set xs. accepts c x" "here ts r" by (rule here_ManyE)
  then show "here ts t \<or> (\<exists>x r. t = x # r \<and> accepts c x \<and> here (Many c # ts) r)"
    by (cases xs) (auto intro: here_ManyI)
next
  assume "here ts t \<or> (\<exists>x r. t = x # r \<and> accepts c x \<and> here (Many c # ts) r)"
  then show "here (Many c # ts) t"
  proof (elim disjE exE conjE)
    assume "here ts t" then show ?thesis using here_ManyI[of "[]" c ts t] by simp
  next
    fix x r assume r: "t = x # r" "accepts c x" "here (Many c # ts) r"
    from r(3) obtain xs q where "r = xs @ q" "\<forall>x \<in> set xs. accepts c x" "here ts q" by (rule here_ManyE)
    then show ?thesis using r here_ManyI[of "x # xs" c ts q] by simp
  qed
qed

lemma matchhere_atoms:
  shows "matchhere re t \<longleftrightarrow> here (atoms re) t"
    and "matchstar c re t \<longleftrightarrow> here (Many c # atoms re) t"
proof (induction re t and c re t rule: matchhere_matchstar.induct)
  case (1 t)
  then show ?case by (simp add: matchhere.simps)
next
  case (2 c re t)
  show ?case
  proof (cases re)
    case Nil
    then show ?thesis using 2 by (auto simp: matchhere.simps here_One accepts_def split: list.splits)
  next
    case (Cons d re')
    then show ?thesis using 2 by (cases t) (auto simp: matchhere.simps here_One accepts_def)
  qed
next
  case (3 c re t)
  show ?case
    by (subst matchstar.simps, subst here_Many) (use 3 in \<open>auto simp: accepts_def split: list.splits\<close>)
qed

lemma match_from_somewhere: "match_from re t \<longleftrightarrow> (\<exists>u v. t = u @ v \<and> here (atoms re) v)"
proof (induction t)
  case Nil then show ?case by (simp add: match_from.simps matchhere_atoms)
next
  case (Cons x t)
  have "(\<exists>u v. x # t = u @ v \<and> here (atoms re) v) \<longleftrightarrow> here (atoms re) (x # t) \<or> (\<exists>u v. t = u @ v \<and> here (atoms re) v)"
    by (auto simp: Cons_eq_append_conv)
  then show ?case using Cons by (subst match_from.simps) (simp add: matchhere_atoms)
qed

section \<open>Lines\<close>

text \<open>\<open>sizeof(buf)\<close>.\<close>

definition GREPBUF :: nat where "GREPBUF = 1024"

text \<open>\<open>strchr(p, newline)\<close>: the bytes before the first newline, and those after it.\<close>

fun split_line :: "u8 list \<Rightarrow> (u8 list \<times> u8 list) option" where
  "split_line [] = None"
| "split_line (x # xs) = (if x = 0 then None else if x = newline then Some ([], xs)
     else map_option (\<lambda>(l, r). (x # l, r)) (split_line xs))"

lemma split_line_Some: "split_line p = Some (l, r) \<longleftrightarrow> p = l @ newline # r \<and> newline \<notin> set l \<and> 0 \<notin> set l"
proof (induction p arbitrary: l)
  case (Cons x p)
  show ?case
  proof (cases l)
    case Nil then show ?thesis by auto
  next
    case (Cons y k)
    then show ?thesis using Cons.IH[of k] by (auto simp: Cons.IH)
  qed
qed simp

lemma split_line_None: "0 \<notin> set p \<Longrightarrow> split_line p = None \<longleftrightarrow> newline \<notin> set p"
  by (induction p) auto

text \<open>The inner loop: the complete lines of the buffer; what is written, and the part left at its end.\<close>

function scan_lines :: "u8 list \<Rightarrow> u8 list \<Rightarrow> u8 list \<times> u8 list" where
  "scan_lines re p =
     (case split_line p of None \<Rightarrow> ([], p)
      | Some (l, r) \<Rightarrow> let (out, rest) = scan_lines re r in ((if match re l then l @ [newline] else []) @ out, rest))"
  by pat_completeness auto
termination by (relation "measure (\<lambda>(re, p). length p)") (auto simp: split_line_Some)

declare scan_lines.simps [simp del]

text \<open>
  The outer loop.  \<open>kept\<close> are the \<open>m\<close> bytes in the buffer, \<open>input\<close> the rest of the file, and the
  \<open>i\<close>-th \<open>read\<close> returns at most \<open>Suc (chunk i)\<close> bytes.
\<close>

function grep_loop :: "(nat \<Rightarrow> nat) \<Rightarrow> nat \<Rightarrow> u8 list \<Rightarrow> u8 list \<Rightarrow> u8 list \<Rightarrow> u8 list" where
  "grep_loop chunk i re kept input =
     (let want = GREPBUF - length kept - 1; n = min (Suc (chunk i)) want in
      if n = 0 \<or> input = [] then []
      else let (out, rest) = scan_lines re (kept @ take n input)
           in out @ grep_loop chunk (Suc i) re rest (drop n input))"
  by pat_completeness auto
termination by (relation "measure (\<lambda>(chunk, i, re, kept, input). length input)") auto

declare grep_loop.simps [simp del]

definition grep :: "(nat \<Rightarrow> nat) \<Rightarrow> u8 list \<Rightarrow> u8 list \<Rightarrow> u8 list" where
  "grep chunk re input = grep_loop chunk 0 re [] input"

section \<open>Lines of the input\<close>

text \<open>The newline-terminated lines of an input whose first line has already begun with \<open>acc\<close>, and what follows the last newline.\<close>

fun lines_from :: "u8 list \<Rightarrow> u8 list \<Rightarrow> u8 list list" where
  "lines_from acc [] = []"
| "lines_from acc (x # xs) = (if x = newline then acc # lines_from [] xs else lines_from (acc @ [x]) xs)"

fun tail_from :: "u8 list \<Rightarrow> u8 list \<Rightarrow> u8 list" where
  "tail_from acc [] = acc"
| "tail_from acc (x # xs) = (if x = newline then tail_from [] xs else tail_from (acc @ [x]) xs)"

definition matching_lines :: "u8 list \<Rightarrow> u8 list \<Rightarrow> u8 list" where
  "matching_lines re input = concat (map (\<lambda>l. l @ [newline]) (filter (match re) (lines_from [] input)))"

lemma lines_append: "lines_from acc (p @ q) = lines_from acc p @ lines_from (tail_from acc p) q"
  by (induction acc p rule: lines_from.induct) auto

lemma lines_prefix: "newline \<notin> set p \<Longrightarrow> lines_from acc (p @ q) = lines_from (acc @ p) q"
  by (induction p arbitrary: acc) auto

lemma tail_prefix: "newline \<notin> set p \<Longrightarrow> tail_from acc (p @ q) = tail_from (acc @ p) q"
  by (induction p arbitrary: acc) auto

lemma tail_no_newline: "newline \<notin> set acc \<Longrightarrow> newline \<notin> set (tail_from acc p)"
  by (induction acc p rule: tail_from.induct) auto

lemma tail_subset: "set (tail_from acc p) \<subseteq> set acc \<union> set p"
  by (induction acc p rule: tail_from.induct) auto

lemma first_line_long: "lines_from acc p = l # ls \<Longrightarrow> length acc \<le> length l"
  by (induction acc p rule: lines_from.induct) (auto split: if_splits)

lemma scan_lines_spec:
  "0 \<notin> set p \<Longrightarrow> scan_lines re p = (matching_lines re p, tail_from [] p)"
proof (induction re p rule: scan_lines.induct)
  case (1 re p)
  show ?case
  proof (cases "split_line p")
    case None
    then have "newline \<notin> set p" using 1(2) by (simp add: split_line_None)
    then have "lines_from [] p = []" "tail_from [] p = p" using lines_prefix[of p "[]" "[]"] tail_prefix[of p "[]" "[]"] by simp_all
    then show ?thesis using None by (simp add: scan_lines.simps[of re p] matching_lines_def)
  next
    case (Some lr)
    obtain l r where lr: "lr = (l, r)" by (cases lr)
    then have p: "p = l @ newline # r" "newline \<notin> set l" using Some by (simp_all add: split_line_Some)
    then have "lines_from [] p = l # lines_from [] r" "tail_from [] p = tail_from [] r"
      by (simp_all add: lines_prefix tail_prefix)
    moreover have "scan_lines re r = (matching_lines re r, tail_from [] r)" using 1(1)[OF Some lr[symmetric]] 1(2) p by simp
    ultimately show ?thesis using Some lr by (subst scan_lines.simps) (simp add: matching_lines_def)
  qed
qed

lemma grep_loop_step:
  assumes "n = min (Suc (chunk i)) (GREPBUF - length kept - 1)" "n \<noteq> 0" "input \<noteq> []"
    "scan_lines re (kept @ take n input) = (out, rest)"
  shows "grep_loop chunk i re kept input = out @ grep_loop chunk (Suc i) re rest (drop n input)"
  using assms(2-4) unfolding assms(1) by (subst grep_loop.simps) (auto simp: Let_def min_def split: if_splits)

lemma grep_loop_end:
  "min (Suc (chunk i)) (GREPBUF - length kept - 1) = 0 \<or> input = [] \<Longrightarrow> grep_loop chunk i re kept input = []"
  by (subst grep_loop.simps) (auto simp: Let_def)

lemma grep_loop_spec:
  assumes "0 \<notin> set (kept @ input)" "newline \<notin> set kept" "\<forall>l \<in> set (lines_from kept input). length l + 1 < GREPBUF"
  shows "grep_loop chunk i re kept input = matching_lines re (kept @ input)"
  using assms
proof (induction chunk i re kept input rule: grep_loop.induct)
  case (1 chunk i re kept input)
  let ?n = "min (Suc (chunk i)) (GREPBUF - length kept - 1)"
  note k = lines_prefix[OF 1(3), of "[]"]
  show ?case
  proof (cases "?n = 0 \<or> input = []")
    case True
    have "lines_from kept input = []"
    proof (cases "lines_from kept input")
      case (Cons l ls)
      then have "length kept + 1 < GREPBUF" using 1(4) first_line_long[of kept input l ls] by auto
      then show ?thesis using True by auto
    qed
    then show ?thesis using True k by (simp add: grep_loop_end matching_lines_def)
  next
    case False
    define n where "n = ?n"
    define a where "a = kept @ take n input"
    define r where "r = tail_from [] a"
    have z: "0 \<notin> set a" using 1(2) by (auto simp: a_def dest: in_set_takeD)
    have nl: "newline \<notin> set r" unfolding r_def by (rule tail_no_newline) simp
    have sp: "lines_from [] (kept @ input) = lines_from [] a @ lines_from r (drop n input)"
      using lines_append[of "[]" a "drop n input"] by (simp add: a_def r_def)
    have "0 \<notin> set (r @ drop n input)" using z 1(2) tail_subset[of "[]" a] by (auto simp: r_def dest: in_set_dropD)
    moreover have "\<forall>l \<in> set (lines_from r (drop n input)). length l + 1 < GREPBUF" using 1(4) sp k by auto
    ultimately have "grep_loop chunk (Suc i) re r (drop n input) = matching_lines re (r @ drop n input)"
      using 1(1)[OF refl n_def False[folded n_def], of "(matching_lines re a, r)" "matching_lines re a" r] scan_lines_spec[OF z, of re] nl
      by (simp add: a_def r_def)
    then have "grep_loop chunk i re kept input = matching_lines re a @ matching_lines re (r @ drop n input)"
      using grep_loop_step[where chunk = chunk and i = i and kept = kept, OF n_def, of input re] False scan_lines_spec[OF z, of re] by (simp add: a_def r_def n_def)
    also have "\<dots> = matching_lines re (kept @ input)" using lines_prefix[OF nl, of "[]" "drop n input"] by (simp add: matching_lines_def sp)
    finally show ?thesis .
  qed
qed

text \<open>A line that does not fit into the buffer ends the search: nothing after it is looked at.\<close>

lemma grep_loop_stops:
  "newline \<notin> set (kept @ take (GREPBUF - length kept - 1) input) \<Longrightarrow> 0 \<notin> set (kept @ take (GREPBUF - length kept - 1) input) \<Longrightarrow>
   grep_loop chunk i re kept input = []"
proof (induction chunk i re kept input rule: grep_loop.induct)
  case (1 chunk i re kept input)
  let ?m = "GREPBUF - length kept - 1"
  let ?n = "min (Suc (chunk i)) ?m"
  show ?case
  proof (cases "?n = 0 \<or> input = []")
    case False
    define n where "n = ?n"
    define a where "a = kept @ take n input"
    have "set a \<subseteq> set (kept @ take ?m input)" using set_take_subset_set_take[of n ?m input] by (auto simp: a_def n_def)
    then have nl: "newline \<notin> set a" and z: "0 \<notin> set a" using 1(2,3) by auto
    have "tail_from [] a = a" "lines_from [] a = []" using tail_prefix[OF nl, of "[]" "[]"] lines_prefix[OF nl, of "[]" "[]"] by simp_all
    then have sc: "scan_lines re a = ([], a)" using scan_lines_spec[OF z] by (simp add: matching_lines_def)
    have "a @ take (GREPBUF - length a - 1) (drop n input) = kept @ take ?m input"
    proof (cases "n < length input")
      case True
      then have "GREPBUF - length a - 1 = ?m - n" and "n + (?m - n) = ?m" by (auto simp: a_def n_def)
      then show ?thesis using take_add[of n "?m - n" input] by (simp only: a_def append.assoc)
    next
      case False
      then have "length input \<le> n" by simp
      moreover have "n \<le> ?m" by (simp add: n_def)
      ultimately have "drop n input = []" "take n input = take ?m input" by simp_all
      then show ?thesis by (simp add: a_def)
    qed
    then have "grep_loop chunk (Suc i) re a (drop n input) = []"
      using 1(1)[OF refl n_def False[folded n_def], of "([], a)" "[]" a] sc 1(2,3) by (simp add: a_def)
    then show ?thesis using grep_loop_step[where chunk = chunk and i = i and kept = kept, OF n_def, of input re] False sc by (simp add: a_def n_def)
  qed (rule grep_loop_end)
qed

section \<open>Properties\<close>

text \<open>C37: The matcher decides the language of its patterns: a pattern without \<open>^\<close> matches a text exactly
  when some part of the text is a sequence of the pattern's bytes, where \<open>.\<close> stands for any byte, a
  starred byte for any number of bytes, and a final \<open>$\<close> for the end; after \<open>^\<close> that part starts the text.\<close>

theorem match_regex_language:
  "match re t \<longleftrightarrow> (if re \<noteq> [] \<and> hd re = caret then \<exists>v rest. t = v @ rest \<and> matches (atoms (tl re)) v rest
     else \<exists>u v rest. t = u @ v @ rest \<and> matches (atoms re) v rest)"
  unfolding match_def by (cases re) (auto simp: matchhere_atoms match_from_somewhere here_def)

text \<open>C38: \<open>grep\<close> writes exactly the newline-terminated lines that match, in order, however the kernel cuts
  the file into reads, as long as no line is longer than 1022 bytes and the file contains no NUL.\<close>

theorem grep_prints_matching_lines:
  assumes "0 \<notin> set input" "\<forall>l \<in> set (lines_from [] input). length l + 1 < GREPBUF"
  shows "grep chunk re input = concat (map (\<lambda>l. l @ [newline]) (filter (match re) (lines_from [] input)))"
  using grep_loop_spec[of "[]" input chunk 0 re] assms by (simp add: grep_def matching_lines_def)

theorem grep_prints_matching_lines_witness:
  "grep (\<lambda>_. 1) [98, 42, 99] [97, newline, 98, 99, newline, 99] = [98, 99, newline]"
proof -
  have "lines_from [] [97, newline, 98, 99, newline, 99] = [[97], [98, 99]]" by simp
  moreover have "\<not> match [98, 42, 99] [97]" "match [98, 42, 99] [98, 99]" by code_simp+
  ultimately show ?thesis using grep_prints_matching_lines[of "[97, newline, 98, 99, newline, 99]" "\<lambda>_. 1" "[98, 42, 99]"]
    by (simp add: GREPBUF_def)
qed

end
