(* ===== verification/Ulib.thy ===== *)
theory Ulib
  imports Cstring
begin

text \<open>
  The user library, \<^verbatim>\<open>user/ulib.c\<close>.  The routines that have the name of one of the kernel's have the
  letter u in front of it.
\<close>

section \<open>Strings and memory\<close>

partial_function (option) strcpy :: "mem \<Rightarrow> u64 \<Rightarrow> u64 \<Rightarrow> mem option" where
  "strcpy m s t = (let c = m t; m' = m(s := c) in if c \<noteq> 0 then strcpy m' (s + 1) (t + 1) else Some m')"

partial_function (option) strcmp :: "mem \<Rightarrow> u64 \<Rightarrow> u64 \<Rightarrow> int option" where
  "strcmp m p q = (if m p \<noteq> 0 \<and> m p = m q then strcmp m (p + 1) (q + 1) else Some (uint (m p) - uint (m q)))"

partial_function (option) ustrlen_loop :: "mem \<Rightarrow> u64 \<Rightarrow> nat \<Rightarrow> nat option" where
  "ustrlen_loop m s n = (if m (s + of_nat n) \<noteq> 0 then ustrlen_loop m s (Suc n) else Some n)"

definition ustrlen :: "mem \<Rightarrow> u64 \<Rightarrow> nat option" where
  "ustrlen m s = ustrlen_loop m s 0"

definition umemset :: "mem \<Rightarrow> u64 \<Rightarrow> u32 \<Rightarrow> u32 \<Rightarrow> mem" where
  "umemset m dst c n = memset_loop m dst (ucast c) 0 (unat n)"

text \<open>The result 0 is the null pointer.\<close>

partial_function (option) strchr :: "mem \<Rightarrow> u64 \<Rightarrow> u8 \<Rightarrow> u64 option" where
  "strchr m s c = (if m s \<noteq> 0 then if m s = c then Some s else strchr m (s + 1) c else Some 0)"

definition umemmove :: "mem \<Rightarrow> u64 \<Rightarrow> u64 \<Rightarrow> u32 \<Rightarrow> mem" where
  "umemmove m dst src n =
     (if src > dst then move_up m dst src (nat (sint n))
      else move_down m (dst + scast n) (src + scast n) (nat (sint n)))"

text \<open>\<open>char\<close> is unsigned on RISC-V.\<close>

fun umemcmp_loop :: "mem \<Rightarrow> u64 \<Rightarrow> u64 \<Rightarrow> nat \<Rightarrow> int" where
  "umemcmp_loop m p1 p2 0 = 0"
| "umemcmp_loop m p1 p2 (Suc n) =
     (if m p1 \<noteq> m p2 then uint (m p1) - uint (m p2) else umemcmp_loop m (p1 + 1) (p2 + 1) n)"

definition umemcmp :: "mem \<Rightarrow> u64 \<Rightarrow> u64 \<Rightarrow> u32 \<Rightarrow> int" where
  "umemcmp m s1 s2 n = umemcmp_loop m s1 s2 (unat n)"

definition umemcpy :: "mem \<Rightarrow> u64 \<Rightarrow> u64 \<Rightarrow> u32 \<Rightarrow> mem" where
  "umemcpy m dst src n = umemmove m dst src n"

section \<open>Input and numbers\<close>

text \<open>
  \<open>gets\<close> reads descriptor 0 one byte at a time; \<open>inp\<close> is what it still delivers.  The result is the content of
  \<open>buf\<close> before the NUL that ends it, and the rest of the input.
\<close>

fun gets_loop :: "nat \<Rightarrow> u8 list \<Rightarrow> u8 list \<times> u8 list" where
  "gets_loop 0 inp = ([], inp)"
| "gets_loop (Suc n) [] = ([], [])"
| "gets_loop (Suc n) (c # inp) =
     (if c = 10 \<or> c = 13 then ([c], inp) else case gets_loop n inp of (buf, rest) \<Rightarrow> (c # buf, rest))"

definition gets :: "nat \<Rightarrow> u8 list \<Rightarrow> u8 list \<times> u8 list" where
  "gets n inp = gets_loop (n - 1) inp"

text \<open>\<open>atoi\<close> on the bytes of the string; \<open>int\<close> is 32 bits.\<close>

fun atoi_loop :: "u32 \<Rightarrow> u8 list \<Rightarrow> u32" where
  "atoi_loop n [] = n"
| "atoi_loop n (c # s) = (if 48 \<le> c \<and> c \<le> 57 then atoi_loop (n * 10 + ucast c - 48) s else n)"

definition atoi :: "u8 list \<Rightarrow> int" where
  "atoi s = sint (atoi_loop 0 s)"

section \<open>What they compute\<close>

lemma cstr_at_Nil: "cstr_at m a [] \<longleftrightarrow> m a = 0"
  by (simp add: cstr_at_def)

lemma cstr_at_Cons: "cstr_at m a (c # bs) \<longleftrightarrow> m a = c \<and> c \<noteq> 0 \<and> cstr_at m (a + 1) bs"
  by (auto simp: cstr_at_def less_Suc_eq_0_disj algebra_simps All_less_Suc2)

lemma ustrlen_cstr:
  assumes "cstr_at m a bs" shows "ustrlen m a = Some (length bs)"
proof -
  have "ustrlen_loop m a n = Some (length bs)" if "n \<le> length bs" for n
    using that
  proof (induction "length bs - n" arbitrary: n)
    case 0
    then show ?case using assms by (subst ustrlen_loop.simps) (simp add: cstr_at_def)
  next
    case (Suc k)
    then show ?case using assms by (subst ustrlen_loop.simps) (simp add: cstr_at_def)
  qed
  then show ?thesis by (simp add: ustrlen_def)
qed

lemma uint_same: "uint (x :: u8) = uint y \<longleftrightarrow> x = y"
  by (simp add: word_uint_eq_iff)

lemma strcmp_cstr: "cstr_at m p bs \<Longrightarrow> cstr_at m q cs \<Longrightarrow> \<exists>r. strcmp m p q = Some r \<and> (r = 0 \<longleftrightarrow> bs = cs)"
proof (induction bs arbitrary: p q cs)
  case Nil
  then show ?case by (cases cs) (auto simp: cstr_at_Nil cstr_at_Cons strcmp.simps[of m p q] uint_0_iff)
next
  case (Cons b bs)
  then show ?case
    by (cases cs) (auto simp: cstr_at_Nil cstr_at_Cons strcmp.simps[of m p q] uint_0_iff uint_same)
qed

lemma strchr_cstr:
  "cstr_at m s bs \<Longrightarrow> strchr m s c = Some (if c \<noteq> 0 \<and> c \<in> set bs then s + of_nat (length (takeWhile (\<lambda>x. x \<noteq> c) bs)) else 0)"
proof (induction bs arbitrary: s)
  case Nil
  then show ?case by (simp add: cstr_at_Nil strchr.simps[of m s c])
next
  case (Cons b bs)
  then show ?case by (auto simp: cstr_at_Cons strchr.simps[of m s c] algebra_simps)
qed

lemma strcpy_cstr:
  assumes "cstr_at m t bs" "\<forall>i \<le> length bs. away s (Suc (length bs)) (t + of_nat i)" "length bs < 2 ^ 64"
  shows "\<exists>m'. strcpy m s t = Some m' \<and> cstr_at m' s bs \<and> (\<forall>a. away s (Suc (length bs)) a \<longrightarrow> m' a = m a)"
  using assms
proof (induction bs arbitrary: m s t)
  case Nil
  then show ?case using away_neq[of s 1 _ 0] by (auto simp: strcpy.simps[of m s t] cstr_at_Nil)
next
  case (Cons c bs)
  let ?m = "m(s := c)"
  have c: "m t = c" "c \<noteq> 0" "cstr_at m (t + 1) bs" using Cons(2) by (simp_all add: cstr_at_Cons)
  have a: "away s (Suc (Suc (length bs))) (t + 1 + of_nat i)" if "i \<le> length bs" for i
    using Cons(3)[rule_format, of "Suc i"] that by (simp add: algebra_simps)
  then have "t + 1 + of_nat i \<noteq> s" if "i \<le> length bs" for i using away_Suc that by blast
  then have "cstr_at ?m (t + 1) bs" using c(3) by (simp add: cstr_at_def)
  moreover have "\<forall>i \<le> length bs. away (s + 1) (Suc (length bs)) (t + 1 + of_nat i)" using a away_Suc by blast
  ultimately obtain m' where m': "strcpy ?m (s + 1) (t + 1) = Some m'" "cstr_at m' (s + 1) bs"
    "\<forall>a. away (s + 1) (Suc (length bs)) a \<longrightarrow> m' a = ?m a" using Cons(1)[of ?m "t + 1" "s + 1"] Suc_lessD[OF Cons(4)[unfolded list.size(4) add_0_right add_Suc_right]] by blast
  have "away (s + 1) (Suc (length bs)) s" using Cons(4) by (simp add: away_def unsigned_minus_1_eq_mask mask_eq_exp_minus_1)
  then have "m' s = c" using m'(3) by simp
  moreover have "m' a = m a" if "away s (Suc (Suc (length bs))) a" for a using m'(3) away_Suc[OF that] by simp
  ultimately show ?case using m'(1,2) c by (auto simp: strcpy.simps[of m s t] cstr_at_Cons)
qed

lemma umemmove_copied:
  assumes "0 \<le> sint n" "unat src + nat (sint n) < 2 ^ 64" "unat dst + nat (sint n) < 2 ^ 64"
  shows "umemmove m dst src n = copied m dst src (nat (sint n))"
proof -
  let ?k = "nat (sint n)"
  have k: "scast n = (of_nat ?k :: u64)" using assms(1) by (metis int_nat_eq of_int_of_nat_eq scast_eq)
  have u: "unat (src + of_nat i) = unat src + i" "unat (dst + of_nat i) = unat dst + i" if "i < ?k" for i
    using that assms(2,3) by (simp_all add: unat_add_small)
  show ?thesis
  proof (cases "src > dst")
    case True
    then have lt: "unat dst < unat src" by (simp add: word_less_nat_alt)
    have "src + of_nat j \<noteq> dst + of_nat i" if "i < j" "j < ?k" for i j
    proof
      assume "src + of_nat j = dst + of_nat i"
      then have "unat src + j = unat dst + i" using u[of i] u[of j] that by simp
      then show False using that lt by simp
    qed
    then show ?thesis unfolding umemmove_def if_P[OF True] using assms(2) by (intro move_up_copied) linarith+
  next
    case False
    then have le: "unat src \<le> unat dst" by (simp add: word_less_nat_alt)
    have "src + of_nat i \<noteq> dst + of_nat j" if "i < j" "j < ?k" for i j
    proof
      assume "src + of_nat i = dst + of_nat j"
      then have "unat src + i = unat dst + j" using u[of i] u[of j] that by simp
      then show False using that le by simp
    qed
    then show ?thesis unfolding umemmove_def if_not_P[OF False] k using assms(2) by (intro move_down_copied) linarith+
  qed
qed

lemma gets_loop_split: "gets_loop n inp = (buf, rest) \<Longrightarrow> inp = buf @ rest \<and> length buf \<le> n \<and> (0 < n \<longrightarrow> inp \<noteq> [] \<longrightarrow> buf \<noteq> [])"
  by (induction n inp arbitrary: buf rule: gets_loop.induct) (auto split: if_splits prod.splits)

lemma gets_consumes: "gets n inp = (buf, rest) \<Longrightarrow> inp = buf @ rest"
  using gets_loop_split unfolding gets_def by blast

lemma gets_loop_line:
  "10 \<notin> set l \<Longrightarrow> 13 \<notin> set l \<Longrightarrow> length l < n \<Longrightarrow> gets_loop n (l @ 10 # rest) = (l @ [10], rest)"
proof (induction l arbitrary: n)
  case Nil then show ?case by (cases n) auto
next
  case (Cons c l) then show ?case by (cases n) auto
qed

lemma gets_line: "10 \<notin> set l \<Longrightarrow> 13 \<notin> set l \<Longrightarrow> Suc (length l) < n \<Longrightarrow> gets n (l @ 10 # rest) = (l @ [10], rest)"
  by (simp add: gets_def gets_loop_line)

end
