(* ===== verification/Sh.thy ===== *)
theory Sh
  imports Fcntl Ulib
begin

text \<open>
  The shell, \<^verbatim>\<open>user/sh.c\<close>: its lexer, its recursive-descent parser, and the system calls with which it
  runs its input.  A pointer into the command line is the rest of the line from there, so that \<open>*s\<close> is
  its head and 0 at the end, and the string between two pointers is what the first has more than the
  second.  The parser's four functions call each other; they have fuel, and \<open>None\<close> is running out
  of it.  A call of \<open>panic\<close> in the parser, which ends
  the process, is \<open>Panic\<close>.  A command is a value: \<open>malloc\<close> for its nodes succeeds.
\<close>

section \<open>Commands\<close>

type_synonym ptr = "u8 list"

text \<open>
  The commands, over the type of their words: a pair of pointers in the parser, a string for its
  reader.  \<open>EXEC\<close> has \<open>argv\<close> up to its null pointer.
\<close>

datatype 'w cmd = EXEC "'w list" | REDIR "'w cmd" 'w u32 nat | PIPE "'w cmd" "'w cmd" | LIST "'w cmd" "'w cmd" | BACK "'w cmd"

type_synonym wptr = "ptr \<times> ptr"

definition MAXARGS :: nat where "MAXARGS = 10"

definition word_text :: "wptr \<Rightarrow> u8 list" where
  "word_text w = take (length (fst w) - length (snd w)) (fst w)"

section \<open>Tokens\<close>

definition whitespace :: "u8 list" where "whitespace = [32, 9, 13, 10, 11]"

abbreviation ch_lt :: u8 where "ch_lt \<equiv> 60"
abbreviation ch_bar :: u8 where "ch_bar \<equiv> 124"
abbreviation ch_gt :: u8 where "ch_gt \<equiv> 62"
abbreviation ch_amp :: u8 where "ch_amp \<equiv> 38"
abbreviation ch_semi :: u8 where "ch_semi \<equiv> 59"
abbreviation ch_open :: u8 where "ch_open \<equiv> 40"
abbreviation ch_close :: u8 where "ch_close \<equiv> 41"
abbreviation tok_word :: u8 where "tok_word \<equiv> 97"
abbreviation tok_append :: u8 where "tok_append \<equiv> 43"

definition symbols :: "u8 list" where
  "symbols = [ch_lt, ch_bar, ch_gt, ch_amp, ch_semi, ch_open, ch_close]"

definition skip_ws :: "ptr \<Rightarrow> ptr" where
  "skip_ws s = dropWhile (\<lambda>c. c \<in> set whitespace) s"

definition skip_word :: "ptr \<Rightarrow> ptr" where
  "skip_word s = dropWhile (\<lambda>c. c \<notin> set whitespace \<and> c \<notin> set symbols) s"

text \<open>The token, the pointers \<open>q\<close> and \<open>eq\<close> to its ends, and the new position.\<close>

definition gettoken :: "ptr \<Rightarrow> u8 \<times> ptr \<times> ptr \<times> ptr" where
  "gettoken s =
     (let s = skip_ws s; q = s;
          (ret, s) = (case s of
             [] \<Rightarrow> (0, s)
           | c # r \<Rightarrow>
               if c \<in> {ch_bar, ch_open, ch_close, ch_semi, ch_amp, ch_lt} then (c, r)
               else if c = ch_gt then (case r of d # r' \<Rightarrow> if d = ch_gt then (tok_append, r') else (c, r) | [] \<Rightarrow> (c, r))
               else (tok_word, skip_word s))
      in (ret, q, s, skip_ws s))"

definition peek :: "ptr \<Rightarrow> u8 list \<Rightarrow> bool \<times> ptr" where
  "peek s toks = (let s = skip_ws s in (case s of [] \<Rightarrow> False | c # _ \<Rightarrow> c \<in> set toks, s))"

definition after_token :: "ptr \<Rightarrow> ptr" where
  "after_token s = snd (snd (snd (gettoken s)))"

lemma skip_ws_length: "length (skip_ws s) \<le> length s"
  by (simp add: skip_ws_def length_dropWhile_le)

lemma skip_ws_head: "skip_ws s = c # r \<Longrightarrow> c \<notin> set whitespace"
  by (auto simp: skip_ws_def dropWhile_eq_Cons_conv)

lemma gettoken_simps:
  "skip_ws s = [] \<Longrightarrow> gettoken s = (0, [], [], [])"
  "skip_ws s = c # r \<Longrightarrow> c \<in> {ch_bar, ch_open, ch_close, ch_semi, ch_amp, ch_lt} \<Longrightarrow> gettoken s = (c, c # r, r, skip_ws r)"
  "skip_ws s = ch_gt # r \<Longrightarrow> r = [] \<or> hd r \<noteq> ch_gt \<Longrightarrow> gettoken s = (ch_gt, ch_gt # r, r, skip_ws r)"
  "skip_ws s = ch_gt # ch_gt # r \<Longrightarrow> gettoken s = (tok_append, ch_gt # ch_gt # r, r, skip_ws r)"
  "skip_ws s = c # r \<Longrightarrow> c \<notin> set symbols \<Longrightarrow> gettoken s = (tok_word, c # r, skip_word r, skip_ws (skip_word r))"
proof -
  show "skip_ws s = [] \<Longrightarrow> gettoken s = (0, [], [], [])" by (simp add: gettoken_def) (simp add: skip_ws_def)
  show "skip_ws s = c # r \<Longrightarrow> c \<in> {ch_bar, ch_open, ch_close, ch_semi, ch_amp, ch_lt} \<Longrightarrow> gettoken s = (c, c # r, r, skip_ws r)"
    by (simp add: gettoken_def)
  show "skip_ws s = ch_gt # r \<Longrightarrow> r = [] \<or> hd r \<noteq> ch_gt \<Longrightarrow> gettoken s = (ch_gt, ch_gt # r, r, skip_ws r)"
    by (cases r) (simp_all add: gettoken_def)
  show "skip_ws s = ch_gt # ch_gt # r \<Longrightarrow> gettoken s = (tok_append, ch_gt # ch_gt # r, r, skip_ws r)"
    by (simp add: gettoken_def)
  assume c: "skip_ws s = c # r" "c \<notin> set symbols"
  then have "skip_word (c # r) = skip_word r" using skip_ws_head[OF c(1)] by (simp add: skip_word_def)
  then show "gettoken s = (tok_word, c # r, skip_word r, skip_ws (skip_word r))"
    using c by (simp add: gettoken_def symbols_def)
qed

lemma gettoken_cases:
  obtains "skip_ws s = []" "gettoken s = (0, [], [], [])"
  | t q eq where "gettoken s = (t, q, eq, skip_ws eq)" "t \<noteq> 0" "length eq < length (skip_ws s)"
proof (cases "skip_ws s")
  case Nil
  then show ?thesis using that(1) gettoken_simps(1) by blast
next
  case (Cons c r)
  have w: "length (skip_word r) < length (skip_ws s)" using Cons by (simp add: skip_word_def length_dropWhile_le less_Suc_eq_le)
  consider "c \<in> {ch_bar, ch_open, ch_close, ch_semi, ch_amp, ch_lt}" | "c = ch_gt" "r = [] \<or> hd r \<noteq> ch_gt"
    | r' where "c = ch_gt" "r = ch_gt # r'" | "c \<notin> set symbols"
    by (cases r) (auto simp: symbols_def)
  then show ?thesis
  proof cases
    case 1
    then have "c \<noteq> 0" by auto
    then show ?thesis using that(2)[OF gettoken_simps(2)[OF Cons 1]] Cons by simp
  next
    case 2 then show ?thesis using that(2)[OF gettoken_simps(3)[OF _ 2(2)]] Cons by simp
  next
    case 3 then show ?thesis using that(2)[OF gettoken_simps(4)] Cons by simp
  next
    case 4 then show ?thesis using that(2)[OF gettoken_simps(5)[OF Cons 4]] w by simp
  qed
qed

lemma gettoken_length:
  assumes "gettoken s = (t, q, eq, s')"
  shows "length s' \<le> length (skip_ws s)" "t \<noteq> 0 \<Longrightarrow> length s' < length (skip_ws s)" "skip_ws s \<noteq> [] \<Longrightarrow> t \<noteq> 0"
  using assms skip_ws_length[of eq] by (cases rule: gettoken_cases[of s]; auto)+

lemma skip_ws_idem [simp]: "skip_ws (skip_ws s) = skip_ws s"
  by (cases "skip_ws s") (auto simp: skip_ws_def dest: skip_ws_head[unfolded skip_ws_def])

section \<open>The parser\<close>

text \<open>\<open>parseredirs\<close>: the redirections at this point, around \<open>cmd\<close>.\<close>

definition redir_of :: "u8 \<Rightarrow> wptr cmd \<Rightarrow> wptr \<Rightarrow> wptr cmd" where
  "redir_of tok c w =
     (if tok = ch_lt then REDIR c w O_RDONLY 0
      else if tok = ch_gt then REDIR c w (O_WRONLY OR O_CREATE OR O_TRUNC) 1
      else if tok = tok_append then REDIR c w (O_WRONLY OR O_CREATE) 1 else c)"

lemma peek_length: "peek s toks = (b, s') \<Longrightarrow> length s' \<le> length s \<and> skip_ws s' = s'"
  using skip_ws_length[of s] by (auto simp: peek_def Let_def)

lemma redir_progress:
  assumes "peek s toks = (b, s1)" "gettoken s1 = (t, x1, x2, s2)" "gettoken s2 = (tok_word, q, eq, s3)"
  shows "length s3 < length s"
  using gettoken_length(2)[OF assms(3)] gettoken_length(1)[OF assms(2)] peek_length[OF assms(1)] skip_ws_length[of s2] by simp

function parseredirs :: "wptr cmd \<Rightarrow> ptr \<Rightarrow> (wptr cmd \<times> ptr) res" where
  "parseredirs c s =
     (case peek s [ch_lt, ch_gt] of
        (False, s) \<Rightarrow> Ok (c, s)
      | (True, s) \<Rightarrow>
          (case gettoken s of (tok, _, _, s) \<Rightarrow> case gettoken s of (a, q, eq, s) \<Rightarrow>
             if a \<noteq> tok_word then Panic ''missing file for redirection''
             else parseredirs (redir_of tok c (q, eq)) s))"
  by pat_completeness auto
termination by (relation "measure (\<lambda>(c, s). length s)") (auto dest!: redir_progress[OF sym sym sym])

declare parseredirs.simps [simp del]

lemma parseredirs_length: "parseredirs c s = Ok (c', s') \<Longrightarrow> length s' \<le> length s"
proof (induction c s rule: parseredirs.induct)
  case (1 c s)
  obtain b s1 where p: "peek s [ch_lt, ch_gt] = (b, s1)" by (cases "peek s [ch_lt, ch_gt]")
  show ?case
  proof (cases b)
    case False
    then show ?thesis using 1(2) p peek_length[OF p] by (simp add: parseredirs.simps[of c s])
  next
    case True
    obtain t x1 x2 s2 where t: "gettoken s1 = (t, x1, x2, s2)" by (cases "gettoken s1")
    obtain a q eq s3 where a: "gettoken s2 = (a, q, eq, s3)" by (cases "gettoken s2")
    have w: "a = tok_word" and r: "parseredirs (redir_of t c (q, eq)) s3 = Ok (c', s')"
      using 1(2) p True t a by (simp_all add: parseredirs.simps[of c s] split: if_splits)
    have "length s' \<le> length s3" using 1(1)[OF p[symmetric] _ t[symmetric] refl refl a[symmetric] refl refl] True w r by simp
    then show ?thesis using redir_progress[OF p t] a w by simp
  qed
qed

text \<open>
  \<open>cmd->argv[argc] = q; cmd->eargv[argc] = eq\<close> where \<open>cmd\<close> is the \<open>EXEC\<close> inside the redirections of \<open>ret\<close>.
\<close>

fun add_arg :: "wptr \<Rightarrow> wptr cmd \<Rightarrow> wptr cmd" where
  "add_arg w (EXEC ws) = EXEC (ws @ [w])"
| "add_arg w (REDIR c f m fd) = REDIR (add_arg w c) f m fd"
| "add_arg w c = c"

lemma arg_progress:
  assumes "peek s toks = (b, s1)" "gettoken s1 = (t, q, eq, s2)" "t \<noteq> 0" "parseredirs c s2 = Ok (c', s3)"
  shows "length s3 < length s"
  using gettoken_length(2)[OF assms(2,3)] peek_length[OF assms(1)] parseredirs_length[OF assms(4)] by simp

text \<open>The loop of \<open>parseexec\<close>.\<close>

function parse_args :: "nat \<Rightarrow> wptr cmd \<Rightarrow> ptr \<Rightarrow> (wptr cmd \<times> ptr) res" where
  "parse_args argc ret s =
     (case peek s [ch_bar, ch_close, ch_amp, ch_semi] of
        (True, s) \<Rightarrow> Ok (ret, s)
      | (False, s) \<Rightarrow>
          (case gettoken s of (tok, q, eq, s) \<Rightarrow>
             if tok = 0 then Ok (ret, s)
             else if tok \<noteq> tok_word then Panic ''syntax''
             else if MAXARGS \<le> Suc argc then Panic ''too many args''
             else bind_res (parseredirs (add_arg (q, eq) ret) s) (\<lambda>(ret, s). parse_args (Suc argc) ret s)))"
  by pat_completeness auto
termination by (relation "measure (\<lambda>(argc, ret, s). length s)") (auto dest!: arg_progress[OF sym sym])

declare parse_args.simps [simp del]

lemma after_token_length:
  assumes "peek s toks = (True, s1)" shows "length (after_token s1) < length s"
proof -
  obtain t q eq s2 where t: "gettoken s1 = (t, q, eq, s2)" by (cases "gettoken s1")
  have "s1 \<noteq> []" using assms by (auto simp: peek_def Let_def split: list.splits)
  then have "skip_ws s1 \<noteq> []" using peek_length[OF assms] by simp
  then show ?thesis using t gettoken_length(2,3)[OF t] peek_length[OF assms] by (simp add: after_token_def)
qed

text \<open>The loop of \<open>parseline\<close>.\<close>

function parse_backs :: "wptr cmd \<Rightarrow> ptr \<Rightarrow> wptr cmd \<times> ptr" where
  "parse_backs c s = (case peek s [ch_amp] of (True, s) \<Rightarrow> parse_backs (BACK c) (after_token s) | (False, s) \<Rightarrow> (c, s))"
  by pat_completeness auto
termination by (relation "measure (\<lambda>(c, s). length s)") (auto dest!: after_token_length[OF sym])

declare parse_backs.simps [simp del]

primrec obind :: "'a res option \<Rightarrow> ('a \<Rightarrow> 'b res option) \<Rightarrow> 'b res option" where
  "obind None f = None"
| "obind (Some r) f = (case r of Ok x \<Rightarrow> f x | Panic e \<Rightarrow> Some (Panic e))"

fun parseline :: "nat \<Rightarrow> ptr \<Rightarrow> (wptr cmd \<times> ptr) res option"
  and parsepipe :: "nat \<Rightarrow> ptr \<Rightarrow> (wptr cmd \<times> ptr) res option"
  and parseexec :: "nat \<Rightarrow> ptr \<Rightarrow> (wptr cmd \<times> ptr) res option"
  and parseblock :: "nat \<Rightarrow> ptr \<Rightarrow> (wptr cmd \<times> ptr) res option" where
  "parseline 0 s = None"
| "parseline (Suc n) s =
     obind (parsepipe n s) (\<lambda>(c, s).
       case parse_backs c s of (c, s) \<Rightarrow>
       (case peek s [ch_semi] of
          (True, s) \<Rightarrow> obind (parseline n (after_token s)) (\<lambda>(r, s). Some (Ok (LIST c r, s)))
        | (False, s) \<Rightarrow> Some (Ok (c, s))))"
| "parsepipe 0 s = None"
| "parsepipe (Suc n) s =
     obind (parseexec n s) (\<lambda>(c, s).
       case peek s [ch_bar] of
         (True, s) \<Rightarrow> obind (parsepipe n (after_token s)) (\<lambda>(r, s). Some (Ok (PIPE c r, s)))
       | (False, s) \<Rightarrow> Some (Ok (c, s)))"
| "parseexec 0 s = None"
| "parseexec (Suc n) s =
     (case peek s [ch_open] of
        (True, s) \<Rightarrow> parseblock n s
      | (False, s) \<Rightarrow> Some (bind_res (parseredirs (EXEC []) s) (\<lambda>(c, s). parse_args 0 c s)))"
| "parseblock 0 s = None"
| "parseblock (Suc n) s =
     (case peek s [ch_open] of
        (False, s) \<Rightarrow> Some (Panic ''parseblock'')
      | (True, s) \<Rightarrow> obind (parseline n (after_token s)) (\<lambda>(c, s).
          case peek s [ch_close] of
            (False, s) \<Rightarrow> Some (Panic ''syntax - missing )'')
          | (True, s) \<Rightarrow> Some (parseredirs c (after_token s))))"

text \<open>\<open>parsecmd\<close> up to \<open>nulterminate\<close>; the fuel is enough for every line, as shown in \<open>Shparse\<close>.\<close>

definition parsecmd :: "u8 list \<Rightarrow> wptr cmd res option" where
  "parsecmd line = obind (parseline (4 * length line + 4) line) (\<lambda>(c, s).
     if snd (peek s []) \<noteq> [] then Some (Panic ''syntax'') else Some (Ok c))"

text \<open>
  \<open>nulterminate\<close> stores 0 where the words of the command end; \<open>line\<close> is the buffer with the NUL after the line.
\<close>

definition put_nul :: "wptr \<Rightarrow> u8 list \<Rightarrow> u8 list" where
  "put_nul w line = line[length line - 1 - length (snd w) := 0]"

primrec nulterminate :: "wptr cmd \<Rightarrow> u8 list \<Rightarrow> u8 list" where
  "nulterminate (EXEC ws) line = fold put_nul ws line"
| "nulterminate (REDIR c f m fd) line = put_nul f (nulterminate c line)"
| "nulterminate (PIPE l r) line = nulterminate r (nulterminate l line)"
| "nulterminate (LIST l r) line = nulterminate r (nulterminate l line)"
| "nulterminate (BACK c) line = nulterminate c line"

text \<open>The string that starts at the first pointer of a word, in the buffer.\<close>

definition string_at :: "u8 list \<Rightarrow> wptr \<Rightarrow> u8 list" where
  "string_at buf w = takeWhile (\<lambda>c. c \<noteq> 0) (drop (length buf - 1 - length (fst w)) buf)"

section \<open>Running a command\<close>

text \<open>
  The system calls of a shell process as a tree: each call with the continuations for its results, the
  one for success first.  \<open>Fork c p e\<close> continues with \<open>c\<close> in the child and \<open>p\<close> in the parent, or
  with \<open>e\<close> when there is no child; \<open>Complain\<close> is \<open>fprintf\<close> to descriptor 2 with a format and its argument.
\<close>

datatype prog = Exit u32 | Complain string "u8 list" prog | Execute "u8 list list" prog | Close nat prog
  | Open "u8 list" u32 "nat \<Rightarrow> prog" prog | Dup nat prog | Fork prog prog prog | Wait prog | Pipe "nat \<Rightarrow> nat \<Rightarrow> prog" prog
  | Chdir "u8 list" prog prog

definition sh_panic :: "string \<Rightarrow> prog" where
  "sh_panic s = Complain ''%s'' (map (\<lambda>c. of_nat (of_char c)) s) (Exit 1)"

definition fork1 :: "prog \<Rightarrow> prog \<Rightarrow> prog" where
  "fork1 child parent = Fork child parent (sh_panic ''fork'')"

primrec runcmd :: "u8 list cmd \<Rightarrow> prog" where
  "runcmd (EXEC argv) = (if argv = [] then Exit 1 else Execute argv (Complain ''exec %s failed'' (hd argv) (Exit 0)))"
| "runcmd (REDIR c f mode fd) = Close fd (Open f mode (\<lambda>_. runcmd c) (Complain ''open %s failed'' f (Exit 1)))"
| "runcmd (LIST l r) = fork1 (runcmd l) (Wait (runcmd r))"
| "runcmd (PIPE l r) =
     Pipe (\<lambda>p0 p1.
       fork1 (Close 1 (Dup p1 (Close p0 (Close p1 (runcmd l)))))
         (fork1 (Close 0 (Dup p0 (Close p0 (Close p1 (runcmd r)))))
           (Close p0 (Close p1 (Wait (Wait (Exit 0)))))))
       (sh_panic ''pipe'')"
| "runcmd (BACK c) = fork1 (runcmd c) (Exit 0)"

section \<open>The main loop\<close>

definition CMDBUF :: nat where "CMDBUF = 100"

text \<open>\<open>getcmd\<close>: the string in the buffer, \<open>None\<close> at the end of the input, and the rest of the input.\<close>

definition getcmd :: "u8 list \<Rightarrow> u8 list option \<times> u8 list" where
  "getcmd inp = (case gets CMDBUF inp of (buf, rest) \<Rightarrow>
     let line = takeWhile (\<lambda>c. c \<noteq> 0) buf in (if line = [] then None else Some line, rest))"

text \<open>What the child of the shell runs; a syntax error is reported and ends the child.\<close>

definition run_line :: "u8 list \<Rightarrow> prog option" where
  "run_line line = (case parsecmd line of
     None \<Rightarrow> None
   | Some (Panic e) \<Rightarrow> Some (sh_panic e)
   | Some (Ok p) \<Rightarrow> Some (runcmd (map_cmd (string_at (nulterminate p (line @ [0]))) p)))"

definition is_cd :: "u8 list \<Rightarrow> bool" where
  "is_cd line \<longleftrightarrow> take 3 line = [99, 100, 32]"

lemma getcmd_length: "getcmd inp = (Some line, rest) \<Longrightarrow> length rest < length inp"
  using gets_consumes[of CMDBUF inp] by (auto simp: getcmd_def Let_def split: prod.splits if_splits)

function sh_loop :: "u8 list \<Rightarrow> prog option" where
  "sh_loop inp = (case getcmd inp of
     (None, _) \<Rightarrow> Some (Exit 0)
   | (Some line, rest) \<Rightarrow>
       if is_cd line then
         let dir = drop 3 (butlast line) in
         map_option (\<lambda>p. Chdir dir p (Complain ''cannot cd %s'' dir p)) (sh_loop rest)
       else
         Option.bind (run_line line) (\<lambda>c. map_option (\<lambda>p. fork1 c (Wait p)) (sh_loop rest)))"
  by pat_completeness auto
termination by (relation "measure length") (auto dest: getcmd_length[OF sym])

declare sh_loop.simps [simp del]

text \<open>
  The shell makes sure that descriptors 0, 1 and 2 are open.  Every round of the loop takes the lowest
  free descriptor, so that the fourth round, if not an earlier one, gets one of at least 3 and ends it.
\<close>

definition console :: "u8 list" where
  "console = [99, 111, 110, 115, 111, 108, 101]"

primrec open_console :: "nat \<Rightarrow> prog \<Rightarrow> prog" where
  "open_console 0 p = p"
| "open_console (Suc n) p = Open console O_RDWR (\<lambda>fd. if fd \<ge> 3 then Close fd p else open_console n p) p"

definition sh_main :: "u8 list \<Rightarrow> prog option" where
  "sh_main inp = map_option (open_console 4) (sh_loop inp)"

end
