(* ===== verification/Shparse.thy ===== *)
theory Shparse
  imports Sh
begin

text \<open>
  The shell's parser returns for every line, and parsing is the inverse of printing a command.
\<close>

section \<open>Enough fuel\<close>

text \<open>A result that was reached, with the rest no longer than the line.\<close>

definition good :: "nat \<Rightarrow> ('c \<times> ptr) res option \<Rightarrow> bool" where
  "good k r \<longleftrightarrow> (case r of None \<Rightarrow> False | Some (Panic e) \<Rightarrow> True | Some (Ok (c, s)) \<Rightarrow> length s \<le> k)"

lemma good_obind:
  assumes "good k r" "\<And>c s. r = Some (Ok (c, s)) \<Longrightarrow> length s \<le> k \<Longrightarrow> good k' (f (c, s))"
  shows "good k' (obind r f)"
  using assms by (auto simp: good_def split: option.splits res.splits)

lemma good_ret [simp]: "good k (Some (Ok (c, s))) \<longleftrightarrow> length s \<le> k" "good k (Some (Panic e))"
  by (simp_all add: good_def)

lemma good_mono: "good k r \<Longrightarrow> k \<le> k' \<Longrightarrow> good k' r"
  by (auto simp: good_def split: option.splits res.splits)

lemma good_map: "good k r \<Longrightarrow> k \<le> k' \<Longrightarrow> good k' (obind r (\<lambda>(x, s). Some (Ok (f x, s))))"
  by (auto simp: good_def split: option.splits res.splits)

lemmas parser_simps = parseline.simps parsepipe.simps parseexec.simps parseblock.simps

lemma parse_backs_length: "parse_backs c s = (c', s') \<Longrightarrow> length s' \<le> length s"
proof (induction c s rule: parse_backs.induct)
  case (1 c s)
  obtain b s1 where p: "peek s [ch_amp] = (b, s1)" by (cases "peek s [ch_amp]")
  then show ?case using 1(1)[OF p[symmetric]] 1(2) peek_length[OF p] after_token_length[of s "[ch_amp]" s1]
    by (cases b) (auto simp: parse_backs.simps[of c s])
qed

lemma parse_args_length: "parse_args n c s = Ok (c', s') \<Longrightarrow> length s' \<le> length s"
proof (induction n c s rule: parse_args.induct)
  case (1 n c s)
  obtain b s1 where p: "peek s [ch_bar, ch_close, ch_amp, ch_semi] = (b, s1)" by (cases "peek s [ch_bar, ch_close, ch_amp, ch_semi]")
  obtain t q eq s2 where t: "gettoken s1 = (t, q, eq, s2)" by (cases "gettoken s1")
  have l: "length s1 \<le> length s" "length s2 \<le> length s" using peek_length[OF p] gettoken_length(1)[OF t] by auto
  consider "s' = s1" | "s' = s2" | c3 s3 where "\<not> b" "t \<noteq> 0" "t = tok_word" "\<not> MAXARGS \<le> Suc n"
      "parseredirs (add_arg (q, eq) c) s2 = Ok (c3, s3)" "parse_args (Suc n) c3 s3 = Ok (c', s')"
    using 1(2) p t by (auto simp: parse_args.simps[of n c s] res_simps split: bool.splits if_splits)
  then show ?case
  proof cases
    case 3
    have "length s' \<le> length s3" using 1(1)[OF p[symmetric] _ t[symmetric] refl refl _ _ _ 3(5)] 3 by simp
    then show ?thesis using arg_progress[OF p t 3(2,5)] by simp
  qed (use l in simp_all)
qed

text \<open>One more level of fuel for each of the four functions.\<close>

lemma good_line:
  assumes "good (length s) (parsepipe n s)" "\<And>s'. length s' < length s \<Longrightarrow> good (length s') (parseline n s')"
  shows "good (length s) (parseline (Suc n) s)"
  using assms(1) unfolding parseline.simps
proof (rule good_obind, unfold prod.case)
  fix c and s0 :: ptr assume "length s0 \<le> length s"
  obtain c1 s1 where b: "parse_backs c s0 = (c1, s1)" by (cases "parse_backs c s0")
  then have l: "length s1 \<le> length s" using parse_backs_length[OF b] \<open>length s0 \<le> length s\<close> by simp
  obtain x s2 where p: "peek s1 [ch_semi] = (x, s2)" by (cases "peek s1 [ch_semi]")
  show "good (length s) (case parse_backs c s0 of (c, s) \<Rightarrow> case peek s [ch_semi] of
      (True, s) \<Rightarrow> obind (parseline n (after_token s)) (\<lambda>(r, s). Some (Ok (LIST c r, s))) | (False, s) \<Rightarrow> Some (Ok (c, s)))"
    using good_map[OF assms(2)[of "after_token s2"], of "length s" "LIST c1"] after_token_length[of s1 "[ch_semi]" s2] l peek_length[OF p] b p
    by (cases x) simp_all
qed

lemma good_pipe:
  assumes "good (length s) (parseexec n s)" "\<And>s'. length s' < length s \<Longrightarrow> good (length s') (parsepipe n s')"
  shows "good (length s) (parsepipe (Suc n) s)"
  using assms(1) unfolding parsepipe.simps
proof (rule good_obind, unfold prod.case)
  fix c and s1 :: ptr assume l: "length s1 \<le> length s"
  obtain x s2 where p: "peek s1 [ch_bar] = (x, s2)" by (cases "peek s1 [ch_bar]")
  show "good (length s) (case peek s1 [ch_bar] of
      (True, s) \<Rightarrow> obind (parsepipe n (after_token s)) (\<lambda>(r, s). Some (Ok (PIPE c r, s))) | (False, s) \<Rightarrow> Some (Ok (c, s)))"
    using good_map[OF assms(2)[of "after_token s2"], of "length s" "PIPE c"] after_token_length[of s1 "[ch_bar]" s2] l peek_length[OF p] p
    by (cases x) simp_all
qed

lemma good_exec:
  assumes "\<And>s'. length s' \<le> length s \<Longrightarrow> good (length s') (parseblock n s')"
  shows "good (length s) (parseexec (Suc n) s)"
proof -
  obtain x s1 where p: "peek s [ch_open] = (x, s1)" by (cases "peek s [ch_open]")
  have l: "length s1 \<le> length s" using peek_length[OF p] by simp
  have "length s' \<le> length s" if "bind_res (parseredirs (EXEC []) s1) (\<lambda>(c, s). parse_args 0 c s) = Ok (c', s')" for c' s'
    using that l by (auto simp: res_simps dest!: parseredirs_length parse_args_length)
  then show ?thesis using p good_mono[OF assms[OF l] l] by (cases x) (auto simp: good_def[of _ "Some _"] split: res.splits)
qed

lemma good_block:
  assumes "\<And>s'. length s' < length s \<Longrightarrow> good (length s') (parseline n s')"
  shows "good (length s) (parseblock (Suc n) s)"
proof -
  obtain x s1 where p: "peek s [ch_open] = (x, s1)" by (cases "peek s [ch_open]")
  have "good (length s) (obind (parseline n (after_token s1)) (\<lambda>(c, s).
      case peek s [ch_close] of (False, s) \<Rightarrow> Some (Panic ''syntax - missing )'') | (True, s) \<Rightarrow> Some (parseredirs c (after_token s))))"
    if x: "x"
  proof -
    have "length (after_token s1) < length s" using after_token_length[of s "[ch_open]" s1] p x by simp
    then have "good (length s) (parseline n (after_token s1))" using assms good_mono less_imp_le by blast
    then show ?thesis
    proof (rule good_obind, unfold prod.case)
      fix c and s2 :: ptr assume l: "length s2 \<le> length s"
      obtain y s3 where q: "peek s2 [ch_close] = (y, s3)" by (cases "peek s2 [ch_close]")
      show "good (length s) (case peek s2 [ch_close] of (False, s) \<Rightarrow> Some (Panic ''syntax - missing )'') | (True, s) \<Rightarrow> Some (parseredirs c (after_token s)))"
        using l q after_token_length[of s2 "[ch_close]" s3] by (cases y) (auto simp: good_def split: res.splits dest!: parseredirs_length)
    qed
  qed
  then show ?thesis using p by (cases x) simp_all
qed

lemma parser_good:
  "(4 * length s + 4 \<le> n \<longrightarrow> good (length s) (parseline n s)) \<and>
   (4 * length s + 3 \<le> n \<longrightarrow> good (length s) (parsepipe n s)) \<and>
   (4 * length s + 2 \<le> n \<longrightarrow> good (length s) (parseexec n s)) \<and>
   (4 * length s + 1 \<le> n \<longrightarrow> good (length s) (parseblock n s))"
proof (induction n arbitrary: s)
  case (Suc n)
  have less: "good (length s') (parseline n s')" "good (length s') (parsepipe n s')" if "4 * length s + 1 \<le> Suc n" "length s' < length s" for s'
    using Suc[of s'] that by auto
  have block: "good (length s') (parseblock n s')" if "4 * length s + 2 \<le> Suc n" "length s' \<le> length s" for s'
    using Suc[of s'] that by auto
  show ?case using good_line[of s n] good_pipe[of s n] good_exec[of s n] good_block[of s n] Suc[of s] less block by (auto simp del: parser_simps)
qed auto

section \<open>Printing a command\<close>

definition wordy :: "u8 list \<Rightarrow> bool" where
  "wordy w \<longleftrightarrow> w \<noteq> [] \<and> (\<forall>c \<in> set w. c \<noteq> 0 \<and> c \<notin> set whitespace \<and> c \<notin> set symbols)"

definition redir_ok :: "u32 \<Rightarrow> nat \<Rightarrow> bool" where
  "redir_ok m fd \<longleftrightarrow> m = O_RDONLY \<and> fd = 0 \<or> m = O_WRONLY OR O_CREATE OR O_TRUNC \<and> fd = 1 \<or> m = O_WRONLY OR O_CREATE \<and> fd = 1"

text \<open>The commands a line can stand for: words without special characters, fewer than \<open>MAXARGS\<close> arguments.\<close>

primrec cmd_ok :: "u8 list cmd \<Rightarrow> bool" where
  "cmd_ok (EXEC ws) = (length ws < MAXARGS \<and> (\<forall>w \<in> set ws. wordy w))"
| "cmd_ok (REDIR c f m fd) = (cmd_ok c \<and> wordy f \<and> redir_ok m fd)"
| "cmd_ok (PIPE l r) = (cmd_ok l \<and> cmd_ok r)"
| "cmd_ok (LIST l r) = (cmd_ok l \<and> cmd_ok r)"
| "cmd_ok (BACK c) = cmd_ok c"

definition unparse_redir :: "u8 list \<Rightarrow> u32 \<Rightarrow> nat \<Rightarrow> u8 list" where
  "unparse_redir f m fd = (if fd = 0 then [ch_lt] else if m = O_WRONLY OR O_CREATE then [ch_gt, ch_gt] else [ch_gt]) @ 32 # f @ [32]"

definition paren :: "bool \<Rightarrow> u8 list \<Rightarrow> u8 list" where
  "paren b t = (if b then [ch_open, 32] @ t @ [ch_close, 32] else t)"

text \<open>Level 0 prints what \<open>parseexec\<close> reads, 1 what \<open>parsepipe\<close> reads, 2 also background commands, 3 lines.\<close>

primrec unparse :: "u8 list cmd \<Rightarrow> nat \<Rightarrow> u8 list" where
  "unparse (EXEC ws) L = concat (map (\<lambda>w. w @ [32]) ws)"
| "unparse (REDIR c f m fd) L = unparse c 0 @ unparse_redir f m fd"
| "unparse (PIPE l r) L = paren (L < 1) (unparse l 0 @ [ch_bar, 32] @ unparse r 1)"
| "unparse (BACK c) L = paren (L < 2) (unparse c 2 @ [ch_amp, 32])"
| "unparse (LIST l r) L = paren (L < 3) (unparse l 2 @ [ch_semi, 32] @ unparse r 3)"

section \<open>Reading it back\<close>

definition starts :: "u8 list \<Rightarrow> ptr \<Rightarrow> bool" where
  "starts toks s \<longleftrightarrow> (case skip_ws s of [] \<Rightarrow> False | c # _ \<Rightarrow> c \<in> set toks)"

definition ends :: "u8 list \<Rightarrow> ptr \<Rightarrow> bool" where
  "ends toks s \<longleftrightarrow> skip_ws s = [] \<or> starts toks s"

lemma peek_starts: "peek s toks = (starts toks s, skip_ws s)"
  by (simp add: peek_def starts_def Let_def)

lemma starts_skip [simp]: "starts toks (skip_ws s) = starts toks s" "ends toks (skip_ws s) = ends toks s"
  by (simp_all add: starts_def ends_def)

lemma skip_ws_blank [simp]: "skip_ws (32 # s) = skip_ws s"
  by (simp add: skip_ws_def whitespace_def)

lemma skip_ws_sym [simp]: "c \<in> set symbols \<Longrightarrow> skip_ws (c # s) = c # s"
  by (auto simp: skip_ws_def whitespace_def symbols_def)

lemma skip_ws_word [simp]: "wordy w \<Longrightarrow> skip_ws (w @ s) = w @ s"
  by (cases w) (simp_all add: skip_ws_def wordy_def)

lemma gettoken_skip [simp]: "gettoken (skip_ws s) = gettoken s"
  by (simp add: gettoken_def)

lemma after_token_skip [simp]: "after_token (skip_ws s) = after_token s"
  by (simp add: after_token_def)

lemma gettoken_word:
  assumes "wordy w" shows "gettoken (w @ 32 # s) = (tok_word, w @ 32 # s, 32 # s, skip_ws s)"
proof -
  obtain c r where w: "w = c # r" using assms by (cases w) (simp_all add: wordy_def)
  have r: "\<forall>c \<in> set r. c \<notin> set whitespace \<and> c \<notin> set symbols" and c: "c \<notin> set symbols"
    using assms by (simp_all add: wordy_def w)
  have "skip_word (r @ 32 # s) = 32 # s" using r unfolding skip_word_def
    by (subst dropWhile_append2) (simp_all add: whitespace_def)
  then show ?thesis using gettoken_simps(5)[of "w @ 32 # s" c "r @ 32 # s"] skip_ws_word[OF assms] c by (simp add: w)
qed

lemma word_text_word: "word_text (w @ 32 # s, 32 # s) = w"
  by (simp add: word_text_def)

lemma after_sym: "c \<in> {ch_bar, ch_open, ch_close, ch_semi, ch_amp} \<Longrightarrow> after_token (c # 32 # s) = skip_ws s"
  using gettoken_simps(2)[of "c # 32 # s" c "32 # s"] by (auto simp: after_token_def symbols_def)

lemma parser_skip:
  "parseredirs c (skip_ws s) = parseredirs c s" "parse_args k c (skip_ws s) = parse_args k c s"
  "parse_backs c (skip_ws s) = parse_backs c s"
  by (simp_all add: parseredirs.simps[of c] parse_args.simps[of k c] parse_backs.simps[of c] peek_starts)

lemma parse_skip:
  "parseline n (skip_ws s) = parseline n s" "parsepipe n (skip_ws s) = parsepipe n s" "parseexec n (skip_ws s) = parseexec n s"
proof -
  have e: "parseexec n (skip_ws s) = parseexec n s" for n by (cases n) (simp_all add: peek_starts)
  have p: "parsepipe n (skip_ws s) = parsepipe n s" for n by (cases n) (simp_all add: e)
  show "parseline n (skip_ws s) = parseline n s" by (cases n) (simp_all add: p)
  show "parsepipe n (skip_ws s) = parsepipe n s" "parseexec n (skip_ws s) = parseexec n s" by (simp_all add: e p)
qed

definition yields :: "(nat \<Rightarrow> ptr \<Rightarrow> 'r res option) \<Rightarrow> ptr \<Rightarrow> 'r \<Rightarrow> bool" where
  "yields f s x \<longleftrightarrow> (\<exists>k. \<forall>n \<ge> k. f n s = Some (Ok x))"

lemma yieldsI: "(\<And>n. k \<le> n \<Longrightarrow> f (Suc n) s = Some (Ok x)) \<Longrightarrow> yields f s x"
  unfolding yields_def by (rule exI[of _ "Suc k"]) (metis Suc_le_D Suc_le_mono)

lemma yields_skip [simp]:
  "yields parseline (skip_ws s) x = yields parseline s x" "yields parsepipe (skip_ws s) x = yields parsepipe s x"
  "yields parseexec (skip_ws s) x = yields parseexec s x"
  by (simp_all add: yields_def parse_skip)

lemma yields_pipe_stop:
  assumes "yields parseexec s (c, s1)" "\<not> starts [ch_bar] s1" shows "yields parsepipe s (c, skip_ws s1)"
proof -
  obtain k where "\<forall>n \<ge> k. parseexec n s = Some (Ok (c, s1))" using assms(1) by (auto simp: yields_def)
  then show ?thesis using assms(2) by (intro yieldsI[of k]) (simp add: peek_starts)
qed

lemma yields_pipe_go:
  assumes "yields parseexec s (c, s1)" "starts [ch_bar] s1" "yields parsepipe (after_token s1) (r, s2)"
  shows "yields parsepipe s (PIPE c r, s2)"
proof -
  obtain k l where "\<forall>n \<ge> k. parseexec n s = Some (Ok (c, s1))" "\<forall>n \<ge> l. parsepipe n (after_token s1) = Some (Ok (r, s2))"
    using assms(1,3) by (auto simp: yields_def)
  then show ?thesis using assms(2) by (intro yieldsI[of "max k l"]) (simp add: peek_starts)
qed

lemma yields_line_stop:
  assumes "yields parsepipe s (c, s1)" "parse_backs c s1 = (c', s2)" "\<not> starts [ch_semi] s2"
  shows "yields parseline s (c', skip_ws s2)"
proof -
  obtain k where "\<forall>n \<ge> k. parsepipe n s = Some (Ok (c, s1))" using assms(1) by (auto simp: yields_def)
  then show ?thesis using assms(2,3) by (intro yieldsI[of k]) (simp add: peek_starts)
qed

lemma yields_line_go:
  assumes "yields parsepipe s (c, s1)" "parse_backs c s1 = (c', s2)" "starts [ch_semi] s2" "yields parseline (after_token s2) (r, s3)"
  shows "yields parseline s (LIST c' r, s3)"
proof -
  obtain k l where "\<forall>n \<ge> k. parsepipe n s = Some (Ok (c, s1))" "\<forall>n \<ge> l. parseline n (after_token s2) = Some (Ok (r, s3))"
    using assms(1,4) by (auto simp: yields_def)
  then show ?thesis using assms(2,3) by (intro yieldsI[of "max k l"]) (simp add: peek_starts)
qed

lemma yields_block:
  assumes "starts [ch_open] s" "yields parseline (after_token s) (c, s1)" "starts [ch_close] s1" "parseredirs c (after_token s1) = Ok x"
  shows "yields parseexec s x"
proof -
  obtain k where k: "\<forall>n \<ge> k. parseline n (after_token s) = Some (Ok (c, s1))" using assms(2) by (auto simp: yields_def)
  have "parseexec (Suc (Suc n)) s = Some (Ok x)" if "k \<le> n" for n using k that assms(1,3,4) by (simp add: peek_starts)
  then show ?thesis by (intro yieldsI[of "Suc k"]) (metis Suc_le_D Suc_le_mono)
qed

lemma yields_plain:
  assumes "\<not> starts [ch_open] s" "bind_res (parseredirs (EXEC []) s) (\<lambda>(c, s). parse_args 0 c s) = Ok x"
  shows "yields parseexec s x"
  using assms by (intro yieldsI[of 0]) (simp add: peek_starts parser_skip)

section \<open>Redirections and arguments\<close>

abbreviation strings :: "wptr cmd \<Rightarrow> u8 list cmd" where
  "strings \<equiv> map_cmd word_text"

type_synonym redir = "u8 list \<times> u32 \<times> nat"

fun wrap :: "redir list \<Rightarrow> u8 list cmd \<Rightarrow> u8 list cmd" where
  "wrap [] c = c"
| "wrap ((f, m, fd) # rs) c = wrap rs (REDIR c f m fd)"

definition show_redirs :: "redir list \<Rightarrow> u8 list" where
  "show_redirs rs = concat (map (\<lambda>(f, m, fd). unparse_redir f m fd) rs)"

definition redirs_ok :: "redir list \<Rightarrow> bool" where
  "redirs_ok rs \<longleftrightarrow> (\<forall>(f, m, fd) \<in> set rs. wordy f \<and> redir_ok m fd)"

lemma redir_token:
  assumes "redir_ok m fd" "wordy f"
  shows "\<exists>t q eq. gettoken (unparse_redir f m fd @ s) = (t, q, eq, f @ 32 # s) \<and> redir_of t c w = REDIR c w m fd
    \<and> starts [ch_lt, ch_gt] (unparse_redir f m fd @ s)"
proof -
  have sy: "ch_lt \<in> set symbols" "ch_gt \<in> set symbols" by (simp_all add: symbols_def)
  have f: "skip_ws (32 # f @ 32 # s) = f @ 32 # s" using skip_ws_word[OF assms(2)] by simp
  have m: "O_WRONLY OR O_CREATE OR O_TRUNC \<noteq> O_WRONLY OR O_CREATE" by (simp add: O_WRONLY_def O_CREATE_def O_TRUNC_def)
  consider "m = O_RDONLY" "fd = 0" | "m = O_WRONLY OR O_CREATE OR O_TRUNC" "fd = 1" | "m = O_WRONLY OR O_CREATE" "fd = 1"
    using assms(1) by (auto simp: redir_ok_def)
  then show ?thesis
  proof cases
    case 1
    then have u: "unparse_redir f m fd @ s = ch_lt # 32 # f @ 32 # s" by (simp add: unparse_redir_def)
    show ?thesis unfolding u using gettoken_simps(2)[of "ch_lt # 32 # f @ 32 # s" ch_lt "32 # f @ 32 # s"] sy f 1
      by (simp add: redir_of_def starts_def)
  next
    case 2
    then have u: "unparse_redir f m fd @ s = ch_gt # 32 # f @ 32 # s" using m by (simp add: unparse_redir_def)
    show ?thesis unfolding u using gettoken_simps(3)[of "ch_gt # 32 # f @ 32 # s" "32 # f @ 32 # s"] sy f 2
      by (simp add: redir_of_def starts_def)
  next
    case 3
    then have u: "unparse_redir f m fd @ s = ch_gt # ch_gt # 32 # f @ 32 # s" by (simp add: unparse_redir_def)
    show ?thesis unfolding u using gettoken_simps(4)[of "ch_gt # ch_gt # 32 # f @ 32 # s" "32 # f @ 32 # s"] sy f 3
      by (simp add: redir_of_def starts_def)
  qed
qed

lemma parseredirs_stop: "\<not> starts [ch_lt, ch_gt] s \<Longrightarrow> parseredirs c s = Ok (c, skip_ws s)"
  by (simp add: parseredirs.simps[of c s] peek_starts)

lemma parseredirs_show:
  assumes "redirs_ok rs" "\<not> starts [ch_lt, ch_gt] rest"
  shows "\<exists>c'. parseredirs c (show_redirs rs @ rest) = Ok (c', skip_ws rest) \<and> strings c' = wrap rs (strings c)"
  using assms(1)
proof (induction rs arbitrary: c)
  case Nil
  then show ?case using parseredirs_stop[OF assms(2), of c] by (simp add: show_redirs_def)
next
  case (Cons r rs)
  obtain f m fd where r: "r = (f, m, fd)" by (cases r)
  have ok: "redir_ok m fd" "wordy f" "redirs_ok rs" using Cons(2) by (auto simp: redirs_ok_def r)
  let ?s = "show_redirs rs @ rest"
  let ?w = "(f @ 32 # ?s, 32 # ?s)"
  obtain t q eq where t: "gettoken (unparse_redir f m fd @ ?s) = (t, q, eq, f @ 32 # ?s)" "redir_of t c ?w = REDIR c ?w m fd"
    "starts [ch_lt, ch_gt] (unparse_redir f m fd @ ?s)" using redir_token[OF ok(1,2)] by blast
  have "parseredirs c (unparse_redir f m fd @ ?s) = parseredirs (REDIR c ?w m fd) ?s"
    using t gettoken_word[OF ok(2), of ?s] by (subst parseredirs.simps) (simp add: peek_starts parser_skip)
  then show ?case using Cons(1)[OF ok(3), of "REDIR c ?w m fd"] by (simp add: show_redirs_def r word_text_word)
qed

lemma parse_args_stop:
  assumes "ends [ch_bar, ch_close, ch_amp, ch_semi] s" shows "parse_args k c s = Ok (c, skip_ws s)"
proof (cases "starts [ch_bar, ch_close, ch_amp, ch_semi] s")
  case False
  then have "skip_ws s = []" using assms by (simp add: ends_def)
  moreover have "gettoken [] = (0, [], [], [])" by (rule gettoken_simps(1)) (simp add: skip_ws_def)
  ultimately show ?thesis using False by (simp add: parse_args.simps[of k c s] peek_starts)
qed (simp add: parse_args.simps[of k c s] peek_starts)

lemma ends_no_redir: "ends [ch_bar, ch_close, ch_amp, ch_semi] s \<Longrightarrow> \<not> starts [ch_lt, ch_gt] s"
  by (auto simp: ends_def starts_def split: list.splits)

lemma word_starts: "wordy w \<Longrightarrow> set toks \<subseteq> set symbols \<Longrightarrow> \<not> starts toks (w @ s)"
  using skip_ws_word[of w s] by (cases w) (auto simp: starts_def wordy_def)

lemma parse_args_show:
  assumes "redirs_ok rs" "ends [ch_bar, ch_close, ch_amp, ch_semi] rest"
  shows "ws \<noteq> [] \<Longrightarrow> \<forall>w \<in> set ws. wordy w \<Longrightarrow> k + length ws < MAXARGS \<Longrightarrow>
    \<exists>c'. parse_args k (EXEC ps) (concat (map (\<lambda>w. w @ [32]) ws) @ show_redirs rs @ rest) = Ok (c', skip_ws rest)
      \<and> strings c' = wrap rs (EXEC (map word_text ps @ ws))"
proof (induction ws arbitrary: k ps)
  case (Cons w ws)
  let ?t = "concat (map (\<lambda>w. w @ [32]) ws) @ show_redirs rs @ rest"
  let ?p = "(w @ 32 # ?t, 32 # ?t)"
  have w: "wordy w" using Cons(3) by simp
  have step: "parse_args k (EXEC ps) (w @ 32 # ?t) = bind_res (parseredirs (EXEC (ps @ [?p])) ?t) (\<lambda>(c, s). parse_args (Suc k) c s)"
    using Cons(4) gettoken_word[OF w, of ?t] word_starts[OF w, of "[ch_bar, ch_close, ch_amp, ch_semi]" "32 # ?t"]
    by (subst parse_args.simps) (simp add: peek_starts parser_skip symbols_def)
  show ?case
  proof (cases ws)
    case Nil
    obtain c' where "parseredirs (EXEC (ps @ [?p])) (show_redirs rs @ rest) = Ok (c', skip_ws rest)"
      "strings c' = wrap rs (EXEC (map word_text ps @ [w]))"
      using parseredirs_show[OF assms(1) ends_no_redir[OF assms(2)], of "EXEC (ps @ [?p])"] by (auto simp: word_text_word)
    then show ?thesis using step Nil parse_args_stop[OF assms(2)] by (simp add: parser_skip)
  next
    case (Cons v vs)
    then have "wordy v" using Cons.prems(2) by simp
    then have "\<not> starts [ch_lt, ch_gt] ?t" using word_starts[of v "[ch_lt, ch_gt]"] Cons by (simp add: symbols_def)
    then have "parseredirs (EXEC (ps @ [?p])) ?t = Ok (EXEC (ps @ [?p]), skip_ws ?t)" by (rule parseredirs_stop)
    then have "parse_args k (EXEC ps) (w @ 32 # ?t) = parse_args (Suc k) (EXEC (ps @ [?p])) ?t" using step by (simp add: parser_skip)
    then show ?thesis using Cons.IH[of "Suc k" "ps @ [?p]"] Cons.prems Cons by (simp add: word_text_word)
  qed
qed simp

section \<open>Levels of the grammar\<close>

lemma starts_sym: "c \<in> set symbols \<Longrightarrow> starts toks (c # s) \<longleftrightarrow> c \<in> set toks"
  by (simp add: starts_def)

lemma ends_sub: "ends toks s \<Longrightarrow> set toks \<subseteq> set toks' \<Longrightarrow> ends toks' s"
  by (auto simp: ends_def starts_def split: list.splits)

lemma ends_not: "ends toks s \<Longrightarrow> c \<notin> set toks \<Longrightarrow> \<not> starts [c] s"
  by (auto simp: ends_def starts_def split: list.splits)

lemmas in_symbols = symbols_def

text \<open>What each level reads back, with redirections after a command of level 0.\<close>

definition reads0 :: "u8 list cmd \<Rightarrow> bool" where
  "reads0 c \<longleftrightarrow> (\<forall>rs rest. redirs_ok rs \<longrightarrow> ends [ch_bar, ch_close, ch_amp, ch_semi] rest \<longrightarrow>
     (\<exists>p. yields parseexec (unparse c 0 @ show_redirs rs @ rest) (p, skip_ws rest) \<and> strings p = wrap rs c))"

definition reads1 :: "u8 list cmd \<Rightarrow> bool" where
  "reads1 c \<longleftrightarrow> (\<forall>rest. ends [ch_close, ch_amp, ch_semi] rest \<longrightarrow>
     (\<exists>p. yields parsepipe (unparse c 1 @ rest) (p, skip_ws rest) \<and> strings p = c))"

definition reads2 :: "u8 list cmd \<Rightarrow> bool" where
  "reads2 c \<longleftrightarrow> (\<forall>rest. ends [ch_close, ch_amp, ch_semi] rest \<longrightarrow>
     (\<exists>p0 s0 p. yields parsepipe (unparse c 2 @ rest) (p0, s0) \<and> parse_backs p0 s0 = parse_backs p rest \<and> strings p = c))"

definition reads3 :: "u8 list cmd \<Rightarrow> bool" where
  "reads3 c \<longleftrightarrow> (\<forall>rest. ends [ch_close] rest \<longrightarrow>
     (\<exists>p. yields parseline (unparse c 3 @ rest) (p, skip_ws rest) \<and> strings p = c))"

lemma reads0D: "reads0 c \<Longrightarrow> redirs_ok rs \<Longrightarrow> ends [ch_bar, ch_close, ch_amp, ch_semi] rest \<Longrightarrow>
  \<exists>p. yields parseexec (unparse c 0 @ show_redirs rs @ rest) (p, skip_ws rest) \<and> strings p = wrap rs c"
  by (simp only: reads0_def)

lemma reads1D: "reads1 c \<Longrightarrow> ends [ch_close, ch_amp, ch_semi] rest \<Longrightarrow>
  \<exists>p. yields parsepipe (unparse c 1 @ rest) (p, skip_ws rest) \<and> strings p = c"
  by (simp only: reads1_def)

lemma reads2D: "reads2 c \<Longrightarrow> ends [ch_close, ch_amp, ch_semi] rest \<Longrightarrow>
  \<exists>p0 s0 p. yields parsepipe (unparse c 2 @ rest) (p0, s0) \<and> parse_backs p0 s0 = parse_backs p rest \<and> strings p = c"
  by (simp only: reads2_def)

lemma reads3D: "reads3 c \<Longrightarrow> ends [ch_close] rest \<Longrightarrow>
  \<exists>p. yields parseline (unparse c 3 @ rest) (p, skip_ws rest) \<and> strings p = c"
  by (simp only: reads3_def)

lemma no_redirs [simp]: "redirs_ok []" "show_redirs [] = []"
  by (simp_all add: redirs_ok_def show_redirs_def)

lemma reads0_1: "reads0 c \<Longrightarrow> unparse c 1 = unparse c 0 \<Longrightarrow> reads1 c"
  unfolding reads1_def
proof (intro allI impI)
  fix rest assume c: "reads0 c" "unparse c 1 = unparse c 0" and e: "ends [ch_close, ch_amp, ch_semi] rest"
  have "ends [ch_bar, ch_close, ch_amp, ch_semi] rest" by (rule ends_sub[OF e]) auto
  from reads0D[OF c(1) no_redirs(1) this] obtain p where p: "yields parseexec (unparse c 0 @ rest) (p, skip_ws rest)" "strings p = c" by auto
  then show "\<exists>p. yields parsepipe (unparse c 1 @ rest) (p, skip_ws rest) \<and> strings p = c"
    using yields_pipe_stop[OF p(1)] ends_not[OF e, of ch_bar] c(2) by auto
qed

lemma reads1_2: "reads1 c \<Longrightarrow> unparse c 2 = unparse c 1 \<Longrightarrow> reads2 c"
  unfolding reads2_def
proof (intro allI impI)
  fix rest assume c: "reads1 c" "unparse c 2 = unparse c 1" and e: "ends [ch_close, ch_amp, ch_semi] rest"
  obtain p where p: "yields parsepipe (unparse c 1 @ rest) (p, skip_ws rest)" "strings p = c" using reads1D[OF c(1) e] by blast
  have "parse_backs p (skip_ws rest) = parse_backs p rest" by (rule parser_skip)
  then show "\<exists>p0 s0 p. yields parsepipe (unparse c 2 @ rest) (p0, s0) \<and> parse_backs p0 s0 = parse_backs p rest \<and> strings p = c"
    using p c(2) by metis
qed

lemma parse_backs_stop: "\<not> starts [ch_amp] s \<Longrightarrow> parse_backs c s = (c, skip_ws s)"
  by (simp add: parse_backs.simps[of c s] peek_starts)

lemma parse_backs_go: "parse_backs c (ch_amp # 32 # s) = parse_backs (BACK c) s"
  using after_sym[of ch_amp s] by (simp add: parse_backs.simps[of c "ch_amp # 32 # s"] peek_starts starts_sym in_symbols parser_skip)

lemma reads2_3: "reads2 c \<Longrightarrow> unparse c 3 = unparse c 2 \<Longrightarrow> reads3 c"
  unfolding reads3_def
proof (intro allI impI)
  fix rest assume c: "reads2 c" "unparse c 3 = unparse c 2" and e: "ends [ch_close] rest"
  have "ends [ch_close, ch_amp, ch_semi] rest" by (rule ends_sub[OF e]) simp
  then obtain p0 s0 p where p: "yields parsepipe (unparse c 2 @ rest) (p0, s0)" "parse_backs p0 s0 = parse_backs p rest" "strings p = c"
    using reads2D[OF c(1)] by blast
  have "parse_backs p0 s0 = (p, skip_ws rest)" using p(2) parse_backs_stop[OF ends_not[OF e, of ch_amp]] by simp
  from yields_line_stop[OF p(1) this] show "\<exists>p. yields parseline (unparse c 3 @ rest) (p, skip_ws rest) \<and> strings p = c"
    using ends_not[OF e, of ch_semi] p(3) c(2) by auto
qed

lemma reads3_0:
  assumes c: "reads3 c" and u: "unparse c 0 = [ch_open, 32] @ unparse c 3 @ [ch_close, 32]"
  shows "reads0 c"
  unfolding reads0_def
proof (intro allI impI)
  fix rs rest assume r: "redirs_ok rs" "ends [ch_bar, ch_close, ch_amp, ch_semi] rest"
  let ?r = "show_redirs rs @ rest"
  have cl: "starts [ch_close] (ch_close # 32 # ?r)" "ends [ch_close] (ch_close # 32 # ?r)"
    by (simp_all add: ends_def starts_sym in_symbols)
  obtain p where p: "yields parseline (unparse c 3 @ ch_close # 32 # ?r) (p, ch_close # 32 # ?r)" "strings p = c"
    using reads3D[OF c cl(2)] by (auto simp: in_symbols)
  obtain p' where p': "parseredirs p ?r = Ok (p', skip_ws rest)" "strings p' = wrap rs c"
    using parseredirs_show[OF r(1) ends_no_redir[OF r(2)], of p] p(2) by auto
  have "yields parseexec (ch_open # 32 # unparse c 3 @ ch_close # 32 # ?r) (p', skip_ws rest)"
    by (rule yields_block[of _ p "ch_close # 32 # ?r"])
       (use p p' cl after_sym[of ch_open] after_sym[of ch_close] in \<open>simp_all add: starts_sym in_symbols parser_skip\<close>)
  then show "\<exists>p. yields parseexec (unparse c 0 @ ?r) (p, skip_ws rest) \<and> strings p = wrap rs c"
    using p'(2) u by auto
qed

lemma reads_exec:
  assumes "cmd_ok (EXEC ws)" shows "reads0 (EXEC ws)"
  unfolding reads0_def
proof (intro allI impI)
  fix rs rest assume r: "redirs_ok rs" "ends [ch_bar, ch_close, ch_amp, ch_semi] rest"
  let ?s = "unparse (EXEC ws) 0 @ show_redirs rs @ rest"
  have "\<not> starts [ch_open] ?s \<and> (\<exists>p. bind_res (parseredirs (EXEC []) ?s) (\<lambda>(c, s). parse_args 0 c s) = Ok (p, skip_ws rest) \<and> strings p = wrap rs (EXEC ws))"
  proof (cases ws)
    case Nil
    obtain c' where c: "parseredirs (EXEC []) (show_redirs rs @ rest) = Ok (c', skip_ws rest)" "strings c' = wrap rs (EXEC [])"
      using parseredirs_show[OF r(1) ends_no_redir[OF r(2)], of "EXEC []"] by auto
    have "\<not> starts [ch_open] (show_redirs rs @ rest)"
    proof (cases rs)
      case Nil then show ?thesis using ends_not[OF r(2), of ch_open] by simp
    next
      case (Cons x xs)
      then show ?thesis by (cases x) (auto simp: show_redirs_def unparse_redir_def starts_sym in_symbols)
    qed
    then show ?thesis using c Nil parse_args_stop[OF r(2)] by (simp add: parser_skip)
  next
    case (Cons w vs)
    then have w: "wordy w" and ok: "\<forall>w \<in> set ws. wordy w" "0 + length ws < MAXARGS" using assms by simp_all
    have "\<not> starts toks ?s" if "set toks \<subseteq> set symbols" for toks using word_starts[OF w that] Cons by simp
    then have n: "\<not> starts [ch_open] ?s" "parseredirs (EXEC []) ?s = Ok (EXEC [], skip_ws ?s)"
      by (simp_all add: parseredirs_stop in_symbols)
    show ?thesis using parse_args_show[OF r _ ok, of "[]"] n Cons by (simp add: parser_skip)
  qed
  then show "\<exists>p. yields parseexec ?s (p, skip_ws rest) \<and> strings p = wrap rs (EXEC ws)" using yields_plain by blast
qed

lemma reads_pipe:
  assumes "reads0 l" "reads1 r" shows "reads1 (PIPE l r)"
  unfolding reads1_def
proof (intro allI impI)
  fix rest assume e: "ends [ch_close, ch_amp, ch_semi] rest"
  let ?t = "unparse r 1 @ rest"
  have s: "starts [ch_bar] (ch_bar # 32 # ?t)" "ends [ch_bar, ch_close, ch_amp, ch_semi] (ch_bar # 32 # ?t)"
    by (simp_all add: ends_def starts_sym in_symbols)
  obtain p where p: "yields parseexec (unparse l 0 @ ch_bar # 32 # ?t) (p, ch_bar # 32 # ?t)" "strings p = l"
    using reads0D[OF assms(1) no_redirs(1) s(2)] by (auto simp: in_symbols)
  obtain q where q: "yields parsepipe ?t (q, skip_ws rest)" "strings q = r" using reads1D[OF assms(2) e] by blast
  have "yields parsepipe (unparse l 0 @ ch_bar # 32 # ?t) (PIPE p q, skip_ws rest)"
    using yields_pipe_go[OF p(1) s(1)] q(1) after_sym[of ch_bar ?t] by simp
  then show "\<exists>p. yields parsepipe (unparse (PIPE l r) 1 @ rest) (p, skip_ws rest) \<and> strings p = PIPE l r"
    using p(2) q(2) by (intro exI[of _ "PIPE p q"]) (simp add: paren_def)
qed

lemma reads_back:
  assumes "reads2 c" shows "reads2 (BACK c)"
  unfolding reads2_def
proof (intro allI impI)
  fix rest assume "ends [ch_close, ch_amp, ch_semi] rest"
  have "ends [ch_close, ch_amp, ch_semi] (ch_amp # 32 # rest)" by (simp add: ends_def starts_sym in_symbols)
  from reads2D[OF assms this] obtain p0 s0 p where p: "yields parsepipe (unparse c 2 @ ch_amp # 32 # rest) (p0, s0)"
    "parse_backs p0 s0 = parse_backs p (ch_amp # 32 # rest)" "strings p = c" by blast
  then show "\<exists>p0 s0 p. yields parsepipe (unparse (BACK c) 2 @ rest) (p0, s0) \<and> parse_backs p0 s0 = parse_backs p rest \<and> strings p = BACK c"
    by (intro exI[of _ p0] exI[of _ s0] exI[of _ "BACK p"]) (simp add: paren_def parse_backs_go)
qed

lemma reads_list:
  assumes "reads2 l" "reads3 r" shows "reads3 (LIST l r)"
  unfolding reads3_def
proof (intro allI impI)
  fix rest assume e: "ends [ch_close] rest"
  let ?t = "unparse r 3 @ rest"
  have s: "starts [ch_semi] (ch_semi # 32 # ?t)" "ends [ch_close, ch_amp, ch_semi] (ch_semi # 32 # ?t)" "\<not> starts [ch_amp] (ch_semi # 32 # ?t)"
    by (simp_all add: ends_def starts_sym in_symbols)
  obtain p0 s0 p where p: "yields parsepipe (unparse l 2 @ ch_semi # 32 # ?t) (p0, s0)"
    "parse_backs p0 s0 = parse_backs p (ch_semi # 32 # ?t)" "strings p = l" using reads2D[OF assms(1) s(2)] by blast
  have b: "parse_backs p0 s0 = (p, ch_semi # 32 # ?t)" using p(2) parse_backs_stop[OF s(3)] by (simp add: in_symbols)
  obtain q where q: "yields parseline ?t (q, skip_ws rest)" "strings q = r" using reads3D[OF assms(2) e] by blast
  have "yields parseline (unparse l 2 @ ch_semi # 32 # ?t) (LIST p q, skip_ws rest)"
    using yields_line_go[OF p(1) b s(1)] q(1) after_sym[of ch_semi ?t] by simp
  then show "\<exists>p. yields parseline (unparse (LIST l r) 3 @ rest) (p, skip_ws rest) \<and> strings p = LIST l r"
    using p(3) q(2) by (intro exI[of _ "LIST p q"]) (simp add: paren_def)
qed

lemma reads_redir:
  assumes "reads0 c" "wordy f" "redir_ok m fd" shows "reads0 (REDIR c f m fd)"
  unfolding reads0_def
proof (intro allI impI)
  fix rs rest assume r: "redirs_ok rs" "ends [ch_bar, ch_close, ch_amp, ch_semi] rest"
  then have "redirs_ok ((f, m, fd) # rs)" using assms by (simp add: redirs_ok_def)
  from reads0D[OF assms(1) this r(2)]
  show "\<exists>p. yields parseexec (unparse (REDIR c f m fd) 0 @ show_redirs rs @ rest) (p, skip_ws rest) \<and> strings p = wrap rs (REDIR c f m fd)"
    by (simp add: show_redirs_def)
qed

lemma reads_all: "cmd_ok c \<Longrightarrow> reads0 c \<and> reads1 c \<and> reads2 c \<and> reads3 c"
proof (induction c)
  case (EXEC ws)
  then show ?case using reads_exec[of ws] reads0_1[of "EXEC ws"] reads1_2[of "EXEC ws"] reads2_3[of "EXEC ws"] by simp
next
  case (REDIR c f m fd)
  then show ?case
    using reads_redir[of c f m fd] reads0_1[of "REDIR c f m fd"] reads1_2[of "REDIR c f m fd"] reads2_3[of "REDIR c f m fd"] by simp
next
  case (PIPE l r)
  then show ?case
    using reads_pipe[of l r] reads1_2[of "PIPE l r"] reads2_3[of "PIPE l r"] reads3_0[of "PIPE l r"] by (simp add: paren_def)
next
  case (LIST l r)
  then show ?case
    using reads_list[of l r] reads3_0[of "LIST l r"] reads0_1[of "LIST l r"] reads1_2[of "LIST l r"] by (simp add: paren_def)
next
  case (BACK c)
  then show ?case
    using reads_back[of c] reads2_3[of "BACK c"] reads3_0[of "BACK c"] reads0_1[of "BACK c"] by (simp add: paren_def)
qed

section \<open>More fuel does not change the result\<close>

lemma obind_mono:
  assumes "obind x f = Some r" "\<And>y. x = Some y \<Longrightarrow> x' = Some y" "\<And>z r. f z = Some r \<Longrightarrow> f' z = Some r"
  shows "obind x' f' = Some r"
  using assms by (cases x) (auto split: res.splits)

lemma parser_mono1:
  "(\<forall>s r. parseline n s = Some r \<longrightarrow> parseline (Suc n) s = Some r) \<and> (\<forall>s r. parsepipe n s = Some r \<longrightarrow> parsepipe (Suc n) s = Some r) \<and>
   (\<forall>s r. parseexec n s = Some r \<longrightarrow> parseexec (Suc n) s = Some r) \<and> (\<forall>s r. parseblock n s = Some r \<longrightarrow> parseblock (Suc n) s = Some r)"
proof (induction n)
  case (Suc n)
  note l = Suc[THEN conjunct1, rule_format] and p = Suc[THEN conjunct2, THEN conjunct1, rule_format]
    and e = Suc[THEN conjunct2, THEN conjunct2, THEN conjunct1, rule_format] and b = Suc[THEN conjunct2, THEN conjunct2, THEN conjunct2, rule_format]
  show ?case
  proof (intro conjI allI impI)
    fix s r
    show "parseline (Suc (Suc n)) s = Some r" if "parseline (Suc n) s = Some r"
      using that unfolding parseline.simps(2)[of "Suc n" s] parseline.simps(2)[of n s]
      by (rule obind_mono) (auto simp del: parser_simps intro: p split: prod.splits bool.splits elim!: obind_mono intro: l)
    show "parsepipe (Suc (Suc n)) s = Some r" if "parsepipe (Suc n) s = Some r"
      using that unfolding parsepipe.simps(2)[of "Suc n" s] parsepipe.simps(2)[of n s]
      by (rule obind_mono) (auto simp del: parser_simps intro: e split: prod.splits bool.splits elim!: obind_mono intro: p)
    show "parseexec (Suc (Suc n)) s = Some r" if "parseexec (Suc n) s = Some r"
      using that unfolding parseexec.simps(2)[of "Suc n" s] parseexec.simps(2)[of n s]
      by (auto simp del: parser_simps split: prod.splits bool.splits intro: b)
    show "parseblock (Suc (Suc n)) s = Some r" if "parseblock (Suc n) s = Some r"
      using that unfolding parseblock.simps(2)[of "Suc n" s] parseblock.simps(2)[of n s]
      by (auto simp del: parser_simps split: prod.splits bool.splits elim!: obind_mono intro: l)
  qed
qed simp

lemma parseline_mono: "n \<le> m \<Longrightarrow> parseline n s = Some r \<Longrightarrow> parseline m s = Some r"
  by (induction rule: dec_induct) (simp_all only: parser_mono1[THEN conjunct1, rule_format])

lemma parseline_enough:
  assumes "4 * length s + 4 \<le> n" shows "\<exists>r. parseline n s = Some r"
  using parser_good[THEN conjunct1, rule_format, OF assms] by (auto simp: good_def split: option.splits)

text \<open>A printed command, and blanks or the newline after it.\<close>

lemma parse_line:
  assumes "cmd_ok c" "skip_ws ws = []" shows "\<exists>p. parsecmd (unparse c 3 @ ws) = Some (Ok p) \<and> strings p = c"
proof -
  let ?t = "unparse c 3 @ ws"
  have "ends [ch_close] ws" using assms(2) by (simp add: ends_def)
  then obtain p where p: "yields parseline ?t (p, [])" "strings p = c"
    using reads3D[of c ws] reads_all[OF assms(1)] assms(2) by auto
  then obtain k where k: "\<forall>n \<ge> k. parseline n ?t = Some (Ok (p, []))" by (auto simp: yields_def)
  obtain r where r: "parseline (4 * length ?t + 4) ?t = Some r" using parseline_enough[of ?t] by blast
  have "parseline (max k (4 * length ?t + 4)) ?t = Some r" by (rule parseline_mono[OF _ r]) simp
  then have "r = Ok (p, [])" using k by simp
  then show ?thesis using r p(2) by (simp add: parsecmd_def peek_def skip_ws_def)
qed

section \<open>Properties\<close>

text \<open>C34: The parser returns, with a command or a syntax error, for every line: fuel of four times the length
  plus four is enough, and more fuel gives the same result.\<close>

theorem parser_terminates:
  "\<exists>r. (\<forall>n \<ge> 4 * length line + 4. parseline n line = Some r) \<and>
    parsecmd line = Some (bind_res r (\<lambda>(c, s). if skip_ws s \<noteq> [] then Panic ''syntax'' else Ok c))"
proof -
  obtain r where r: "parseline (4 * length line + 4) line = Some r" using parseline_enough[of line] by blast
  then have "parsecmd line = Some (bind_res r (\<lambda>(c, s). if skip_ws s \<noteq> [] then Panic ''syntax'' else Ok c))"
    by (cases r) (auto simp: parsecmd_def peek_starts)
  then show ?thesis using r parseline_mono[OF _ r] by blast
qed

theorem parser_terminates_witness:
  "\<exists>r. parseline 11 [97] = Some r \<and> parsecmd [97] \<noteq> None"
  using parser_terminates[of "[97]"] by auto

text \<open>C33: Parsing a printed command gives the command back, with its nesting, the order of its redirections
  and its words, for every command whose words contain no special characters.\<close>

theorem parse_unparse:
  assumes "cmd_ok c" shows "\<exists>p. parsecmd (unparse c 3) = Some (Ok p) \<and> map_cmd word_text p = c"
  using parse_line[OF assms, of "[]"] by (simp add: skip_ws_def)

theorem parse_unparse_witness:
  "\<exists>p. parsecmd [97, 32, 124, 32, 98, 32, 62, 32, 99, 32, 38, 32] = Some (Ok p) \<and>
     map_cmd word_text p = BACK (PIPE (EXEC [[97]]) (REDIR (EXEC [[98]]) [99] (O_WRONLY OR O_CREATE OR O_TRUNC) 1))"
proof -
  let ?c = "BACK (PIPE (EXEC [[97]]) (REDIR (EXEC [[98]]) [99] (O_WRONLY OR O_CREATE OR O_TRUNC) 1)) :: u8 list cmd"
  have "cmd_ok ?c" by (simp add: wordy_def whitespace_def symbols_def redir_ok_def MAXARGS_def)
  moreover have "unparse ?c 3 = [97, 32, 124, 32, 98, 32, 62, 32, 99, 32, 38, 32]"
    by (simp add: paren_def unparse_redir_def O_WRONLY_def O_CREATE_def O_TRUNC_def)
  ultimately show ?thesis using parse_unparse[of ?c] by simp
qed

end
