(* ===== verification/Shwords.thy ===== *)
theory Shwords
  imports Shparse "HOL-Library.Sublist"
begin

text \<open>
  The strings of a command: \<open>nulterminate\<close> puts a NUL behind every word and into none, so that each word is
  a C string in the buffer of the line.
\<close>

section \<open>Words of a parsed line\<close>

text \<open>A word starts somewhere in the line and ends at the next blank or symbol.\<close>

definition in_line :: "ptr \<Rightarrow> wptr \<Rightarrow> bool" where
  "in_line line w \<longleftrightarrow> suffix (fst w) line \<and> snd w = skip_word (fst w)"

definition parsed :: "ptr \<Rightarrow> wptr cmd \<Rightarrow> ptr \<Rightarrow> bool" where
  "parsed line c s \<longleftrightarrow> suffix s line \<and> (\<forall>w \<in> set_cmd c. in_line line w)"

lemma skip_suffix: "suffix (skip_ws s) s" "suffix (skip_word s) s"
  by (simp_all add: skip_ws_def skip_word_def suffix_dropWhile)

lemma suffix_skip: "suffix s line \<Longrightarrow> suffix (skip_ws s) line"
  using skip_suffix(1) suffix_order.trans by blast

lemma gettoken_suffix:
  assumes "gettoken s = (t, q, eq, s')" "suffix s line"
  shows "suffix s' line" "t = tok_word \<Longrightarrow> in_line line (q, eq)"
proof -
  have ws: "suffix (skip_ws s) line" by (rule suffix_skip[OF assms(2)])
  have "suffix s' line \<and> (t = tok_word \<longrightarrow> in_line line (q, eq))"
  proof (cases "skip_ws s")
    case Nil
    then show ?thesis using gettoken_simps(1)[OF Nil] assms(1) by simp
  next
    case (Cons c r)
    then have r: "suffix r line" using ws by (metis suffix_ConsI suffix_order.trans suffix_order.refl)
    consider "c \<in> {ch_bar, ch_open, ch_close, ch_semi, ch_amp, ch_lt}" | "c = ch_gt" "r = [] \<or> hd r \<noteq> ch_gt"
      | r' where "c = ch_gt" "r = ch_gt # r'" | "c \<notin> set symbols"
      by (cases r) (auto simp: symbols_def)
    then show ?thesis
    proof cases
      case 1 then show ?thesis using gettoken_simps(2)[OF Cons 1] assms(1) suffix_skip[OF r] by auto
    next
      case 2 then show ?thesis using gettoken_simps(3)[of s r] Cons assms(1) suffix_skip[OF r] by auto
    next
      case 3
      then have "suffix r' line" using r by (metis suffix_ConsI suffix_order.trans suffix_order.refl)
      then show ?thesis using gettoken_simps(4)[of s r'] Cons 3 assms(1) suffix_skip[of r' line] by auto
    next
      case 4
      have "skip_word (c # r) = skip_word r" using 4 skip_ws_head[OF Cons] by (simp add: skip_word_def)
      moreover have "suffix (skip_word r) line" using r skip_suffix(2) suffix_order.trans by blast
      ultimately show ?thesis using gettoken_simps(5)[OF Cons 4] assms(1) ws Cons suffix_skip by (auto simp: in_line_def)
    qed
  qed
  then show "suffix s' line" "t = tok_word \<Longrightarrow> in_line line (q, eq)" by simp_all
qed

lemma peek_suffix: "peek s toks = (b, s') \<Longrightarrow> suffix s line \<Longrightarrow> suffix s' line"
  by (auto simp: peek_starts suffix_skip)

lemma after_suffix: "suffix s line \<Longrightarrow> suffix (after_token s) line"
  using gettoken_suffix(1) unfolding after_token_def by (metis prod.collapse)

lemma redir_words: "set_cmd (redir_of t c w) \<subseteq> insert w (set_cmd c)"
  by (auto simp: redir_of_def)

lemma parsedI: "suffix s line \<Longrightarrow> (\<And>w. w \<in> set_cmd c \<Longrightarrow> in_line line w) \<Longrightarrow> parsed line c s"
  by (simp add: parsed_def)

lemma parsed_peek: "parsed line c s \<Longrightarrow> peek s toks = (b, s') \<Longrightarrow> parsed line c s'"
  using peek_suffix by (auto simp: parsed_def)

lemma parsed_redirs: "parsed line c s \<Longrightarrow> parseredirs c s = Ok (c', s') \<Longrightarrow> parsed line c' s'"
proof (induction c s rule: parseredirs.induct)
  case (1 c s)
  obtain b s1 where p: "peek s [ch_lt, ch_gt] = (b, s1)" by (cases "peek s [ch_lt, ch_gt]")
  note c1 = parsed_peek[OF 1(2) p]
  show ?case
  proof (cases b)
    case False
    then show ?thesis using 1(3) p c1 by (simp add: parseredirs.simps[of c s])
  next
    case True
    obtain t x1 x2 s2 where t: "gettoken s1 = (t, x1, x2, s2)" by (cases "gettoken s1")
    obtain a q eq s3 where a: "gettoken s2 = (a, q, eq, s3)" by (cases "gettoken s2")
    have w: "a = tok_word" and r: "parseredirs (redir_of t c (q, eq)) s3 = Ok (c', s')"
      using 1(3) p True t a by (simp_all add: parseredirs.simps[of c s] split: if_splits)
    have s2: "suffix s2 line" using gettoken_suffix(1)[OF t] c1 by (simp add: parsed_def)
    have "parsed line (redir_of t c (q, eq)) s3"
      using gettoken_suffix[OF a s2] w c1 redir_words[of t c "(q, eq)"] by (auto simp: parsed_def)
    then show ?thesis using 1(1)[OF p[symmetric] _ t[symmetric] refl refl a[symmetric] refl refl] True w r by simp
  qed
qed

lemma add_arg_words: "set_cmd (add_arg w c) \<subseteq> insert w (set_cmd c)"
  by (induction w c rule: add_arg.induct) auto

lemma parsed_args: "parsed line c s \<Longrightarrow> parse_args n c s = Ok (c', s') \<Longrightarrow> parsed line c' s'"
proof (induction n c s rule: parse_args.induct)
  case (1 n c s)
  obtain b s1 where p: "peek s [ch_bar, ch_close, ch_amp, ch_semi] = (b, s1)" by (cases "peek s [ch_bar, ch_close, ch_amp, ch_semi]")
  obtain t q eq s2 where t: "gettoken s1 = (t, q, eq, s2)" by (cases "gettoken s1")
  note c1 = parsed_peek[OF 1(2) p]
  then have g: "suffix s2 line" "t = tok_word \<Longrightarrow> in_line line (q, eq)" using gettoken_suffix[OF t] by (simp_all add: parsed_def)
  consider "c' = c" "s' = s1" | "c' = c" "s' = s2" | c3 s3 where "\<not> b" "t \<noteq> 0" "t = tok_word" "\<not> MAXARGS \<le> Suc n"
      "parseredirs (add_arg (q, eq) c) s2 = Ok (c3, s3)" "parse_args (Suc n) c3 s3 = Ok (c', s')"
    using 1(3) p t by (auto simp: parse_args.simps[of n c s] res_simps split: bool.splits if_splits)
  then show ?case
  proof cases
    case 1 then show ?thesis using c1 by simp
  next
    case 2 then show ?thesis using c1 g by (simp add: parsed_def)
  next
    case 3
    have "parsed line (add_arg (q, eq) c) s2" using add_arg_words[of "(q, eq)" c] g 3(3) c1 by (auto simp: parsed_def)
    then have "parsed line c3 s3" by (rule parsed_redirs[OF _ 3(5)])
    then show ?thesis using 1(1)[OF p[symmetric] _ t[symmetric] refl refl _ _ _ 3(5)] 3 by simp
  qed
qed

lemma parsed_backs: "parsed line c s \<Longrightarrow> parse_backs c s = (c', s') \<Longrightarrow> parsed line c' s'"
proof (induction c s rule: parse_backs.induct)
  case (1 c s)
  obtain b s1 where p: "peek s [ch_amp] = (b, s1)" by (cases "peek s [ch_amp]")
  note c1 = parsed_peek[OF 1(2) p]
  then have "parsed line (BACK c) (after_token s1)" by (simp add: parsed_def after_suffix)
  then show ?case using 1(1)[OF p[symmetric]] 1(3) c1 p by (cases b) (simp_all add: parse_backs.simps[of c s])
qed

lemma obind_Ok: "obind x f = Some (Ok z) \<longleftrightarrow> (\<exists>y. x = Some (Ok y) \<and> f y = Some (Ok z))"
  by (cases x) (auto split: res.splits)

lemma parsed_pair:
  assumes "parsed line l s" "obind (f (after_token s)) (\<lambda>(r, s). Some (Ok (g l r, s))) = Some (Ok (c, s'))"
    and "\<And>s r s'. suffix s line \<Longrightarrow> f s = Some (Ok (r, s')) \<Longrightarrow> parsed line r s'" and "\<And>r. set_cmd (g l r) = set_cmd l \<union> set_cmd r"
  shows "parsed line c s'"
proof -
  obtain r where r: "f (after_token s) = Some (Ok (r, s'))" "c = g l r" using assms(2) by (auto simp: obind_Ok)
  have "suffix (after_token s) line" using assms(1) by (simp add: parsed_def after_suffix)
  then have "parsed line r s'" using r(1) by (rule assms(3))
  then show ?thesis using r(2) assms(1,4) by (auto simp: parsed_def)
qed

lemma parser_words:
  "(\<forall>s c s'. suffix s line \<longrightarrow> parseline n s = Some (Ok (c, s')) \<longrightarrow> parsed line c s') \<and>
   (\<forall>s c s'. suffix s line \<longrightarrow> parsepipe n s = Some (Ok (c, s')) \<longrightarrow> parsed line c s') \<and>
   (\<forall>s c s'. suffix s line \<longrightarrow> parseexec n s = Some (Ok (c, s')) \<longrightarrow> parsed line c s') \<and>
   (\<forall>s c s'. suffix s line \<longrightarrow> parseblock n s = Some (Ok (c, s')) \<longrightarrow> parsed line c s')"
proof (induction n)
  case (Suc n)
  note IH = Suc[THEN conjunct1, rule_format] Suc[THEN conjunct2, THEN conjunct1, rule_format]
    Suc[THEN conjunct2, THEN conjunct2, THEN conjunct1, rule_format] Suc[THEN conjunct2, THEN conjunct2, THEN conjunct2, rule_format]
  show ?case
  proof (intro conjI allI impI)
    fix s c s' assume s: "suffix s line"
    show "parsed line c s'" if r: "parseline (Suc n) s = Some (Ok (c, s'))"
    proof -
      obtain c0 s0 where p: "parsepipe n s = Some (Ok (c0, s0))" using r unfolding parseline.simps(2) by (auto simp: obind_Ok simp del: parser_simps)
      obtain c1 s1 where b: "parse_backs c0 s0 = (c1, s1)" by (cases "parse_backs c0 s0")
      obtain x s2 where k: "peek s1 [ch_semi] = (x, s2)" by (cases "peek s1 [ch_semi]")
      have c2: "parsed line c1 s2" by (rule parsed_peek[OF parsed_backs[OF IH(2)[OF s p] b] k])
      have "parsed line c s'" if "obind (parseline n (after_token s2)) (\<lambda>(r, s). Some (Ok (LIST c1 r, s))) = Some (Ok (c, s'))"
        by (rule parsed_pair[where g = LIST and f = "parseline n", OF c2 that IH(1)]) simp_all
      then show ?thesis using r p b k c2 unfolding parseline.simps(2) by (cases x) (simp_all del: parser_simps)
    qed
    show "parsed line c s'" if r: "parsepipe (Suc n) s = Some (Ok (c, s'))"
    proof -
      obtain c1 s1 where p: "parseexec n s = Some (Ok (c1, s1))" using r unfolding parsepipe.simps(2) by (auto simp: obind_Ok simp del: parser_simps)
      obtain x s2 where k: "peek s1 [ch_bar] = (x, s2)" by (cases "peek s1 [ch_bar]")
      have c2: "parsed line c1 s2" by (rule parsed_peek[OF IH(3)[OF s p] k])
      have "parsed line c s'" if "obind (parsepipe n (after_token s2)) (\<lambda>(r, s). Some (Ok (PIPE c1 r, s))) = Some (Ok (c, s'))"
        by (rule parsed_pair[where g = PIPE and f = "parsepipe n", OF c2 that IH(2)]) simp_all
      then show ?thesis using r p k c2 unfolding parsepipe.simps(2) by (cases x) (simp_all del: parser_simps)
    qed
    obtain x s1 where k: "peek s [ch_open] = (x, s1)" by (cases "peek s [ch_open]")
    have s1: "suffix s1 line" by (rule peek_suffix[OF k s])
    then have e: "parsed line (EXEC []) s1" by (simp add: parsed_def)
    show "parsed line c s'" if r: "parseexec (Suc n) s = Some (Ok (c, s'))"
      using r k IH(4)[OF s1] parsed_args parsed_redirs[OF e] unfolding parseexec.simps(2) by (cases x) (auto simp: res_simps simp del: parser_simps)
    show "parsed line c s'" if r: "parseblock (Suc n) s = Some (Ok (c, s'))"
    proof -
      obtain c1 s2 where p: "parseline n (after_token s1) = Some (Ok (c1, s2))" "x"
        using r k unfolding parseblock.simps(2) by (cases x) (auto simp: obind_Ok simp del: parser_simps)
      obtain y s3 where l: "peek s2 [ch_close] = (y, s3)" by (cases "peek s2 [ch_close]")
      have "parsed line c1 s3" by (rule parsed_peek[OF IH(1)[OF after_suffix[OF s1] p(1)] l])
      then have "parsed line c1 (after_token s3)" by (simp add: parsed_def after_suffix)
      then show ?thesis using r k p l parsed_redirs unfolding parseblock.simps(2) by (cases y) (auto simp del: parser_simps)
    qed
  qed
qed simp

lemma parsecmd_words:
  assumes "parsecmd line = Some (Ok p)" "w \<in> set_cmd p" shows "in_line line w"
proof -
  obtain s where "parseline (4 * length line + 4) line = Some (Ok (p, s))"
    using assms(1) by (auto simp: parsecmd_def obind_Ok split: if_splits)
  then have "parsed line p s" using parser_words[of line] suffix_order.refl by blast
  then show ?thesis using assms(2) by (simp add: parsed_def)
qed

section \<open>NULs\<close>

definition nul_pos :: "nat \<Rightarrow> wptr cmd \<Rightarrow> nat set" where
  "nul_pos n p = (\<lambda>w. n - length (snd w)) ` set_cmd p"

definition nulled :: "nat set \<Rightarrow> u8 list \<Rightarrow> u8 list \<Rightarrow> bool" where
  "nulled P buf buf' \<longleftrightarrow> length buf' = length buf \<and> (\<forall>i < length buf. buf' ! i = (if i \<in> P then 0 else buf ! i))"

lemma nulled_trans: "nulled P a b \<Longrightarrow> nulled Q b c \<Longrightarrow> nulled (P \<union> Q) a c"
  by (auto simp: nulled_def)

lemma nulled_put: "nulled {length buf - 1 - length (snd w)} buf (put_nul w buf)"
  by (auto simp: nulled_def put_nul_def nth_list_update)

lemma nulled_puts: "nulled ((\<lambda>w. length buf - 1 - length (snd w)) ` set ws) buf (fold put_nul ws buf)"
proof (induction ws arbitrary: buf)
  case (Cons w ws)
  have "length (put_nul w buf) = length buf" by (simp add: put_nul_def)
  then show ?case using nulled_trans[OF nulled_put[of buf w] Cons[of "put_nul w buf"]] by simp
qed (simp add: nulled_def)

lemma nulterminate_nulled: "nulled (nul_pos (length buf - 1) p) buf (nulterminate p buf)"
proof (induction p arbitrary: buf)
  case (EXEC ws)
  then show ?case using nulled_puts[of buf ws] by (simp add: nul_pos_def)
next
  case (REDIR c f m fd)
  have l: "length (nulterminate c buf) = length buf" using REDIR[of buf] by (simp add: nulled_def)
  show ?case using nulled_trans[OF REDIR[of buf] nulled_put[of "nulterminate c buf" f]] l by (simp add: nul_pos_def Un_commute)
next
  case (PIPE l r)
  have "length (nulterminate l buf) = length buf" using PIPE(1)[of buf] by (simp add: nulled_def)
  then show ?case using nulled_trans[OF PIPE(1)[of buf] PIPE(2)[of "nulterminate l buf"]] by (simp add: nul_pos_def image_Un)
next
  case (LIST l r)
  have "length (nulterminate l buf) = length buf" using LIST(1)[of buf] by (simp add: nulled_def)
  then show ?case using nulled_trans[OF LIST(1)[of buf] LIST(2)[of "nulterminate l buf"]] by (simp add: nul_pos_def image_Un)
next
  case (BACK c)
  then show ?case by (simp add: nul_pos_def)
qed

definition word_char :: "u8 \<Rightarrow> bool" where
  "word_char c \<longleftrightarrow> c \<notin> set whitespace \<and> c \<notin> set symbols"

lemma skip_word_char: "skip_word s = dropWhile word_char s"
  by (simp add: skip_word_def word_char_def[abs_def])

lemma nul_not_in_word:
  assumes "in_line line w" "i = length line - length (snd w)" "i < length line" shows "\<not> word_char (line ! i)"
proof -
  have "suffix (snd w) line" using assms(1) skip_suffix(2) suffix_order.trans by (metis in_line_def)
  then obtain u where u: "line = u @ snd w" by (auto simp: suffix_def)
  then have "snd w \<noteq> []" "line ! i = hd (snd w)" using assms(2,3) by (auto simp: nth_append hd_conv_nth)
  then show ?thesis using assms(1) hd_dropWhile[of word_char "fst w"] by (simp add: in_line_def skip_word_char)
qed

lemma string_at_word:
  assumes "parsecmd line = Some (Ok p)" "0 \<notin> set line" "w \<in> set_cmd p"
  shows "string_at (nulterminate p (line @ [0])) w = word_text w"
proof -
  let ?n = "length line" and ?b = "nulterminate p (line @ [0])"
  have w: "in_line line w" by (rule parsecmd_words[OF assms(1,3)])
  then obtain u where u: "line = u @ fst w" by (auto simp: in_line_def suffix_def)
  let ?k = "length u" and ?L = "length (takeWhile word_char (fst w))"
  have e: "snd w = dropWhile word_char (fst w)" using w by (simp add: in_line_def skip_word_char)
  have L: "length (fst w) = ?L + length (snd w)" unfolding e by (metis length_append takeWhile_dropWhile_id)
  have nul: "nulled (nul_pos ?n p) (line @ [0]) ?b" using nulterminate_nulled[of "line @ [0]" p] by simp
  then have lb: "length ?b = Suc ?n" by (simp add: nulled_def)
  have bi: "?b ! i = (if i \<in> nul_pos ?n p then 0 else (line @ [0]) ! i)" if "i < Suc ?n" for i using nul that by (simp add: nulled_def)
  have kn: "?n = ?k + length (fst w)" using u by (metis length_append)
  have inside: "?b ! (?k + i) = fst w ! i" "fst w ! i \<noteq> 0" if "i < ?L" for i
  proof -
    have i: "i < length (fst w)" using that L by simp
    then have x: "line ! (?k + i) = fst w ! i" by (subst u) simp
    have "word_char (fst w ! i)" using that nth_mem[OF that] set_takeWhileD takeWhile_nth[OF that] by metis
    then have "?k + i \<notin> nul_pos ?n p" using x nul_not_in_word parsecmd_words[OF assms(1)] i kn unfolding nul_pos_def by (metis (no_types, lifting) imageE nat_add_left_cancel_less)
    then show "?b ! (?k + i) = fst w ! i" using bi[of "?k + i"] i kn x by (simp add: nth_append)
    show "fst w ! i \<noteq> 0" using assms(2) i u by (metis UnCI nth_mem set_append)
  qed
  have "?k + ?L = ?n - length (snd w)" using kn L by simp
  then have "?k + ?L \<in> nul_pos ?n p" using assms(3) by (auto simp: nul_pos_def)
  then have at_end: "?b ! (?k + ?L) = 0" using bi[of "?k + ?L"] kn L by simp
  have "takeWhile (\<lambda>c. c \<noteq> 0) (drop ?k ?b) = take ?L (drop ?k ?b)"
    using inside at_end kn L lb by (intro takeWhile_eq_take_P_nth) auto
  also have "\<dots> = take ?L (fst w)"
    using inside(1) kn L lb by (intro nth_equalityI) auto
  finally show ?thesis using kn L lb by (simp add: string_at_def word_text_def)
qed

lemma strings_of_line:
  assumes "parsecmd line = Some (Ok p)" "0 \<notin> set line"
  shows "map_cmd (string_at (nulterminate p (line @ [0]))) p = strings p"
  using string_at_word[OF assms] by (intro cmd.map_cong0) blast

lemma run_line_strings:
  assumes "parsecmd line = Some (Ok p)" "0 \<notin> set line" shows "run_line line = Some (runcmd (strings p))"
  using assms(1) strings_of_line[OF assms] by (simp add: run_line_def)

end
