(* ===== verification/Shrun.thy ===== *)
theory Shrun
  imports Shwords
begin

text \<open>
  What the system calls of \<open>runcmd\<close> amount to.  \<open>launch\<close> gives the programs that a shell process and
  its children start, with the descriptor table each of them gets; \<open>plumb\<close> says directly what is
  wanted: a redirection replaces one descriptor, a pipe the output of its left and the input of
  its right side.
\<close>

section \<open>Descriptor tables\<close>

datatype fobj = Tty | File "u8 list" u32 | ReadEnd nat | WriteEnd nat

type_synonym fdtable = "nat \<Rightarrow> fobj option"

definition NFD :: nat where "NFD = 16"

definition lowest_fd :: "fdtable \<Rightarrow> nat option" where
  "lowest_fd t = find (\<lambda>fd. t fd = None) [0..<NFD]"

text \<open>
  The programs started from a process with descriptors \<open>t\<close>, when \<open>exec\<close>, \<open>fork\<close>, \<open>chdir\<close> and, unless the
  table is full, \<open>open\<close>, \<open>dup\<close> and \<open>pipe\<close> succeed; \<open>k\<close> numbers the pipes.
\<close>

primrec launch :: "prog \<Rightarrow> fdtable \<Rightarrow> nat \<Rightarrow> (u8 list list \<times> fdtable) list \<times> nat" where
  "launch (Exit e) t k = ([], k)"
| "launch (Complain f x p) t k = launch p t k"
| "launch (Execute argv p) t k = ([(argv, t)], k)"
| "launch (Close fd p) t k = launch p (t(fd := None)) k"
| "launch (Open f m p q) t k = (case lowest_fd t of Some fd \<Rightarrow> launch (p fd) (t(fd \<mapsto> File f m)) k | None \<Rightarrow> launch q t k)"
| "launch (Dup fd p) t k = launch p (case lowest_fd t of Some n \<Rightarrow> t(n := t fd) | None \<Rightarrow> t) k"
| "launch (Fork c p e) t k = (let (a, k) = launch c t k; (b, k) = launch p t k in (a @ b, k))"
| "launch (Wait p) t k = launch p t k"
| "launch (Chdir d p q) t k = launch p t k"
| "launch (Pipe f q) t k =
     (case lowest_fd t of None \<Rightarrow> launch q t k
      | Some r \<Rightarrow> (case lowest_fd (t(r \<mapsto> ReadEnd k)) of None \<Rightarrow> launch q t k
          | Some w \<Rightarrow> launch (f r w) (t(r \<mapsto> ReadEnd k, w \<mapsto> WriteEnd k)) (Suc k)))"

primrec plumb :: "u8 list cmd \<Rightarrow> fdtable \<Rightarrow> nat \<Rightarrow> (u8 list list \<times> fdtable) list \<times> nat" where
  "plumb (EXEC argv) t k = (if argv = [] then [] else [(argv, t)], k)"
| "plumb (REDIR c f m fd) t k = plumb c (t(fd \<mapsto> File f m)) k"
| "plumb (PIPE l r) t k =
     (let (a, n) = plumb l (t(1 \<mapsto> WriteEnd k)) (Suc k); (b, n) = plumb r (t(0 \<mapsto> ReadEnd k)) n in (a @ b, n))"
| "plumb (LIST l r) t k = (let (a, n) = plumb l t k; (b, n) = plumb r t n in (a @ b, n))"
| "plumb (BACK c) t k = plumb c t k"

primrec std_redirs :: "'w cmd \<Rightarrow> bool" where
  "std_redirs (EXEC ws) = True"
| "std_redirs (REDIR c f m fd) = (std_redirs c \<and> fd < 3)"
| "std_redirs (PIPE l r) = (std_redirs l \<and> std_redirs r)"
| "std_redirs (LIST l r) = (std_redirs l \<and> std_redirs r)"
| "std_redirs (BACK c) = std_redirs c"

definition std_fds :: "fdtable \<Rightarrow> bool" where
  "std_fds t \<longleftrightarrow> dom t = {0, 1, 2}"

lemma fds_upt: "[0..<NFD] = [0, 1, 2, 3, 4] @ [5..<NFD]"
  by (simp add: NFD_def upt_rec)

lemma std_fds_iff: "std_fds t \<longleftrightarrow> (\<forall>fd. t fd = None \<longleftrightarrow> 2 < fd)"
proof -
  have m: "fd \<in> {0, 1, 2} \<longleftrightarrow> \<not> 2 < fd" for fd :: nat by auto
  have "std_fds t \<longleftrightarrow> (\<forall>fd. fd \<in> dom t \<longleftrightarrow> fd \<in> {0, 1, 2})" unfolding std_fds_def by blast
  then show ?thesis unfolding m domIff by metis
qed

lemma std_upd: "std_fds t \<Longrightarrow> fd < 3 \<Longrightarrow> std_fds (t(fd \<mapsto> x))"
  by (auto simp: std_fds_iff)

lemma lowest_closed:
  assumes "std_fds t" "fd < 3" shows "lowest_fd (t(fd := None)) = Some fd"
proof -
  have t: "t 0 \<noteq> None" "t 1 \<noteq> None" "t 2 \<noteq> None" using assms(1) by (simp_all add: std_fds_iff)
  consider "fd = 0" | "fd = 1" | "fd = 2" using assms(2) by linarith
  then show ?thesis using t by cases (simp_all add: lowest_fd_def fds_upt)
qed

lemma lowest_pipe:
  assumes "std_fds t"
  shows "lowest_fd t = Some 3" "lowest_fd (t(3 \<mapsto> x)) = Some 4"
    "lowest_fd (t(3 \<mapsto> x, 4 \<mapsto> y, 0 := None)) = Some 0" "lowest_fd (t(3 \<mapsto> x, 4 \<mapsto> y, 1 := None)) = Some 1"
proof -
  have "t 0 \<noteq> None" "t 1 \<noteq> None" "t 2 \<noteq> None" "t 3 = None" "t 4 = None" using assms by (simp_all add: std_fds_iff)
  then show "lowest_fd t = Some 3" "lowest_fd (t(3 \<mapsto> x)) = Some 4"
    "lowest_fd (t(3 \<mapsto> x, 4 \<mapsto> y, 0 := None)) = Some 0" "lowest_fd (t(3 \<mapsto> x, 4 \<mapsto> y, 1 := None)) = Some 1"
    by (simp_all add: lowest_fd_def fds_upt)
qed

lemma launch_runcmd: "std_redirs c \<Longrightarrow> std_fds t \<Longrightarrow> launch (runcmd c) t k = plumb c t k"
proof (induction c arbitrary: t k)
  case (REDIR c f m fd)
  then show ?case using lowest_closed[of t fd] std_upd[of t fd] by simp
next
  case (PIPE l r)
  have n: "t 3 = None" "t 4 = None" using PIPE(4) by (simp_all add: std_fds_iff)
  note lo = lowest_pipe[OF PIPE(4)]
  let ?T = "t(3 \<mapsto> ReadEnd k, 4 \<mapsto> WriteEnd k)"
  have "?T(1 := None, 1 \<mapsto> x, 3 := None, 4 := None) = t(1 \<mapsto> x)" "?T(0 := None, 0 \<mapsto> x, 3 := None, 4 := None) = t(0 \<mapsto> x)" for x
    using n by (auto simp: fun_eq_iff)
  then have ends: "launch (Close 1 (Dup 4 (Close 3 (Close 4 p)))) ?T m = launch p (t(1 \<mapsto> WriteEnd k)) m"
    "launch (Close 0 (Dup 3 (Close 3 (Close 4 p)))) ?T m = launch p (t(0 \<mapsto> ReadEnd k)) m" for p m
    using lo(3)[of "ReadEnd k" "WriteEnd k"] lo(4)[of "ReadEnd k" "WriteEnd k"] by simp_all
  have "launch (runcmd l) (t(1 \<mapsto> WriteEnd k)) m = plumb l (t(1 \<mapsto> WriteEnd k)) m"
    "launch (runcmd r) (t(0 \<mapsto> ReadEnd k)) m = plumb r (t(0 \<mapsto> ReadEnd k)) m" for m
    using PIPE std_upd by simp_all
  then have "launch (runcmd (PIPE l r)) t k = (let (a, n) = plumb l (t(1 \<mapsto> WriteEnd k)) (Suc k);
      (b, n) = (let (a, n) = plumb r (t(0 \<mapsto> ReadEnd k)) n; (b, n) = ([], n) in (a @ b, n)) in (a @ b, n))"
    using lo(1,2) by (simp only: runcmd.simps fork1_def launch.simps(10) option.case launch.simps(7) ends) (simp only: launch.simps)
  then show ?case by (simp add: Let_def split: prod.splits)
qed (auto simp: fork1_def Let_def split: prod.splits)

lemma plumb_std: "std_redirs c \<Longrightarrow> std_fds t \<Longrightarrow> \<forall>x \<in> set (fst (plumb c t k)). std_fds (snd x)"
proof (induction c arbitrary: t k)
  case (REDIR c f m fd)
  have "std_fds (t(fd \<mapsto> File f m))" using REDIR(2,3) by (simp add: std_upd)
  moreover have "std_redirs c" using REDIR(2) by simp
  ultimately show ?case unfolding plumb.simps by (rule REDIR(1)[rotated])
next
  case (PIPE l r)
  obtain a n where a: "plumb l (t(1 \<mapsto> WriteEnd k)) (Suc k) = (a, n)" by (cases "plumb l (t(1 \<mapsto> WriteEnd k)) (Suc k)")
  obtain b n' where b: "plumb r (t(0 \<mapsto> ReadEnd k)) n = (b, n')" by (cases "plumb r (t(0 \<mapsto> ReadEnd k)) n")
  have s: "std_redirs l" "std_redirs r" "std_fds (t(1 \<mapsto> WriteEnd k))" "std_fds (t(0 \<mapsto> ReadEnd k))" using PIPE(3,4) by (simp_all add: std_upd)
  have "\<forall>x \<in> set a. std_fds (snd x)" "\<forall>x \<in> set b. std_fds (snd x)"
    using PIPE(1)[OF s(1,3), of "Suc k"] PIPE(2)[OF s(2,4), of n] unfolding a b fst_conv .
  then show ?case using a b by auto
next
  case (LIST l r)
  obtain a n where a: "plumb l t k = (a, n)" by (cases "plumb l t k")
  obtain b n' where b: "plumb r t n = (b, n')" by (cases "plumb r t n")
  have "\<forall>x \<in> set a. std_fds (snd x)" "\<forall>x \<in> set b. std_fds (snd x)" using LIST(1)[of t k] LIST(2)[of t n] LIST(3,4) a b by simp_all
  then show ?case using a b by auto
qed simp_all

section \<open>A session\<close>

text \<open>A command as it is typed, and the commands that fit into the line buffer and are not the built-in \<open>cd\<close>.\<close>

definition typed :: "u8 list cmd \<Rightarrow> u8 list" where
  "typed c = unparse c 3 @ [10]"

definition line_ok :: "u8 list cmd \<Rightarrow> bool" where
  "line_ok c \<longleftrightarrow> cmd_ok c \<and> length (typed c) < CMDBUF \<and> \<not> is_cd (typed c)"

primrec plumbs :: "u8 list cmd list \<Rightarrow> fdtable \<Rightarrow> nat \<Rightarrow> (u8 list list \<times> fdtable) list \<times> nat" where
  "plumbs [] t k = ([], k)"
| "plumbs (c # cs) t k = (let (a, n) = plumb c t k; (b, n) = plumbs cs t n in (a @ b, n))"

definition with_console :: "fdtable \<Rightarrow> fdtable" where
  "with_console t = (\<lambda>fd. if fd < 3 \<and> t fd = None then Some (File console O_RDWR) else t fd)"

lemma cmd_ok_std: "cmd_ok c \<Longrightarrow> std_redirs c"
  by (induction c) (auto simp: redir_ok_def)

lemma wordy_chars: "wordy w \<Longrightarrow> x \<in> set w \<Longrightarrow> x \<notin> {0, 10, 13}"
  by (auto simp: wordy_def whitespace_def)

lemma unparse_chars: "cmd_ok c \<Longrightarrow> x \<in> set (unparse c L) \<Longrightarrow> x \<notin> {0, 10, 13}"
proof (induction c arbitrary: L)
  case (EXEC ws)
  then obtain w where "w \<in> set ws" "x = 32 \<or> x \<in> set w" by (cases ws) (auto split: if_splits)
  then show ?case using wordy_chars[of w x] EXEC(1) by auto
next
  case (REDIR c f m fd)
  then show ?case using wordy_chars[of f x] by (auto simp: unparse_redir_def split: if_splits)
qed (auto simp: paren_def split: if_splits)

lemma line_ok_next:
  assumes "line_ok c"
  shows "getcmd (typed c @ rest) = (Some (typed c), rest)" "run_line (typed c) = Some (runcmd c)"
proof -
  have ok: "cmd_ok c" and l: "Suc (length (unparse c 3)) < CMDBUF" using assms by (simp_all add: line_ok_def typed_def)
  have ch: "0 \<notin> set (unparse c 3)" "10 \<notin> set (unparse c 3)" "13 \<notin> set (unparse c 3)" using unparse_chars[OF ok] by blast+
  then have z: "takeWhile (\<lambda>c. c \<noteq> 0) (typed c) = typed c" by (auto simp: typed_def)
  show "getcmd (typed c @ rest) = (Some (typed c), rest)"
    using gets_line[OF ch(2,3) l, of rest] z by (simp add: getcmd_def typed_def)
  have "skip_ws [10] = []" by (simp add: skip_ws_def whitespace_def)
  then obtain p where p: "parsecmd (typed c) = Some (Ok p)" "strings p = c" using parse_line[OF ok] unfolding typed_def by blast
  then show "run_line (typed c) = Some (runcmd c)" using run_line_strings[OF p(1)] ch(1) by (simp add: typed_def)
qed

lemma session_loop:
  "\<forall>c \<in> set cs. line_ok c \<Longrightarrow> \<exists>p. sh_loop (concat (map typed cs)) = Some p \<and> (\<forall>t k. std_fds t \<longrightarrow> launch p t k = plumbs cs t k)"
proof (induction cs)
  case Nil
  have "getcmd [] = (None, [])" by (simp add: getcmd_def gets_def CMDBUF_def eval_nat_numeral)
  then show ?case by (simp add: sh_loop.simps[of "[]"])
next
  case (Cons c cs)
  obtain p where p: "sh_loop (concat (map typed cs)) = Some p" "\<forall>t k. std_fds t \<longrightarrow> launch p t k = plumbs cs t k" using Cons by auto
  have c: "line_ok c" using Cons(2) by simp
  then have i: "\<not> is_cd (typed c)" and s: "std_redirs c" by (simp_all add: line_ok_def cmd_ok_std)
  have "sh_loop (concat (map typed (c # cs))) = Some (fork1 (runcmd c) (Wait p))"
    using line_ok_next[OF c] i p(1) by (simp add: sh_loop.simps[of "typed c @ concat (map typed cs)"])
  moreover have "launch (fork1 (runcmd c) (Wait p)) t k = plumbs (c # cs) t k" if "std_fds t" for t k
    using launch_runcmd[OF s that, of k] p(2) that by (simp add: fork1_def split: prod.splits)
  ultimately show ?case by blast
qed

lemma plumbs_std: "\<forall>c \<in> set cs. std_redirs c \<Longrightarrow> std_fds t \<Longrightarrow> \<forall>x \<in> set (fst (plumbs cs t k)). std_fds (snd x)"
proof (induction cs arbitrary: k)
  case (Cons c cs)
  obtain a n where a: "plumb c t k = (a, n)" by (cases "plumb c t k")
  obtain b n' where b: "plumbs cs t n = (b, n')" by (cases "plumbs cs t n")
  have "\<forall>x \<in> set a. std_fds (snd x)" "\<forall>x \<in> set b. std_fds (snd x)" using plumb_std[of c t k] Cons(1)[of n] Cons(2,3) a b by simp_all
  then show ?case using a b by auto
qed simp

lemma with_console_std:
  assumes "dom t \<subseteq> {0, 1, 2}" shows "std_fds (with_console t)"
proof -
  have "t fd = None" if "2 < fd" for fd using assms that by (force simp: domIff)
  then show ?thesis unfolding std_fds_iff with_console_def by auto
qed

lemma open_console_launch:
  assumes "dom t \<subseteq> {0, 1, 2}" shows "launch (open_console 4 p) t k = launch p (with_console t) k"
proof -
  have t: "t fd = None" if "2 < fd" for fd using assms that by (force simp: domIff)
  have n: "t 3 = None" "t 4 = None" using t by simp_all
  show ?thesis
    by (insert n; cases "t 0"; cases "t 1"; cases "t 2"; simp add: numeral_eq_Suc lowest_fd_def fds_upt;
        rule arg_cong[where f = "\<lambda>t. launch p t k"]; auto simp: fun_eq_iff with_console_def less_Suc_eq numeral_eq_Suc)
qed

section \<open>Properties\<close>



end
