(* ===== verification/Umalloc.thy ===== *)
theory Umalloc
  imports Prelude
begin

text \<open>
  The memory allocator of user programs, \<^verbatim>\<open>user/umalloc.c\<close>.  An address is a natural number: user
  addresses are far below \<open>2 ^ 64\<close>.  A block starts with a header of 16 bytes; its size, an \<open>uint\<close>,
  counts units of 16 bytes and includes the header.  Only the header cells of the memory are
  modelled: the allocator reads and writes nothing else.
\<close>

section \<open>State\<close>

text \<open>
  \<open>hptr\<close> and \<open>hsize\<close> are the fields \<open>s.ptr\<close> and \<open>s.size\<close> of the header at an address, \<open>base\<close> the address of the
  static header, \<open>freep\<close> the static pointer, 0 before the first \<open>malloc\<close>, and \<open>brk\<close> the size of the process.
\<close>

record uheap =
  base :: nat
  freep :: nat
  hptr :: "nat \<Rightarrow> nat"
  hsize :: "nat \<Rightarrow> nat"
  brk :: nat

abbreviation set_ptr :: "nat \<Rightarrow> nat \<Rightarrow> uheap \<Rightarrow> uheap" where
  "set_ptr a v s \<equiv> s\<lparr>hptr := (hptr s)(a := v)\<rparr>"

abbreviation set_size :: "nat \<Rightarrow> nat \<Rightarrow> uheap \<Rightarrow> uheap" where
  "set_size a v s \<equiv> s\<lparr>hsize := (hsize s)(a := v mod 2 ^ 32)\<rparr>"

section \<open>The allocator\<close>

text \<open>The search of \<open>free\<close> for the place of \<open>bp\<close> in the circular list.\<close>

partial_function (option) free_find :: "uheap \<Rightarrow> nat \<Rightarrow> nat \<Rightarrow> nat option" where
  "free_find s bp p =
     (if bp > p \<and> bp < hptr s p then Some p
      else if p \<ge> hptr s p \<and> (bp > p \<or> bp < hptr s p) then Some p
      else free_find s bp (hptr s p))"

definition free :: "nat \<Rightarrow> uheap \<Rightarrow> uheap option" where
  "free ap s =
     (let bp = ap - 16 in
      map_option (\<lambda>p.
        let s = (if bp + 16 * hsize s bp = hptr s p
                 then set_ptr bp (hptr s (hptr s p)) (set_size bp (hsize s bp + hsize s (hptr s p)) s)
                 else set_ptr bp (hptr s p) s);
            s = (if p + 16 * hsize s p = bp
                 then set_ptr p (hptr s bp) (set_size p (hsize s p + hsize s bp) s)
                 else set_ptr p bp s)
        in s\<lparr>freep := p\<rparr>)
      (free_find s bp (freep s)))"

text \<open>
  The system call: \<open>grow b\<close> is whether the kernel has the memory to make the process \<open>b\<close> bytes long.  A
  negative argument shrinks the process, unless it is larger than the process.
\<close>

definition sbrk :: "(nat \<Rightarrow> bool) \<Rightarrow> int \<Rightarrow> uheap \<Rightarrow> nat option \<times> uheap" where
  "sbrk grow n s =
     (if n > 0 then if grow (brk s + nat n) then (Some (brk s), s\<lparr>brk := brk s + nat n\<rparr>) else (None, s)
      else (Some (brk s), if - n \<le> int (brk s) then s\<lparr>brk := nat (int (brk s) + n)\<rparr> else s))"

text \<open>The result is \<open>freep\<close>, 0 when there is no memory.  The argument of \<open>sbrk\<close> is an \<open>int\<close>.\<close>

definition morecore :: "(nat \<Rightarrow> bool) \<Rightarrow> nat \<Rightarrow> uheap \<Rightarrow> (nat \<times> uheap) option" where
  "morecore grow nu s =
     (let nu = (if nu < 4096 then 4096 else nu) in
      case sbrk grow (sint (of_nat (nu * 16) :: u32)) s of
        (None, s) \<Rightarrow> Some (0, s)
      | (Some hp, s) \<Rightarrow> map_option (\<lambda>s. (freep s, s)) (free (hp + 16) (set_size hp nu s)))"

text \<open>A block is taken from the end of the free block \<open>p\<close>, or is all of it.\<close>

definition take_block :: "nat \<Rightarrow> nat \<Rightarrow> nat \<Rightarrow> uheap \<Rightarrow> nat \<times> uheap" where
  "take_block nunits prevp p s =
     (if hsize s p = nunits then (p + 16, (set_ptr prevp (hptr s p) s)\<lparr>freep := prevp\<rparr>)
      else let s = set_size p (hsize s p - nunits) s;
               p = p + 16 * hsize s p
           in (p + 16, (set_size p nunits s)\<lparr>freep := prevp\<rparr>))"

partial_function (option) malloc_loop :: "(nat \<Rightarrow> bool) \<Rightarrow> nat \<Rightarrow> nat \<Rightarrow> nat \<Rightarrow> uheap \<Rightarrow> (nat \<times> uheap) option" where
  "malloc_loop grow nunits prevp p s =
     (if hsize s p \<ge> nunits then Some (take_block nunits prevp p s)
      else if p = freep s then
        Option.bind (morecore grow nunits s) (\<lambda>(q, s).
          if q = 0 then Some (0, s) else malloc_loop grow nunits q (hptr s q) s)
      else malloc_loop grow nunits p (hptr s p) s)"

definition units :: "u32 \<Rightarrow> nat" where
  "units nbytes = (unat nbytes + 16 - 1) div 16 + 1"

definition malloc :: "(nat \<Rightarrow> bool) \<Rightarrow> u32 \<Rightarrow> uheap \<Rightarrow> (nat \<times> uheap) option" where
  "malloc grow nbytes s =
     (let s = (if freep s = 0 then set_size (base s) 0 (set_ptr (base s) (base s) (s\<lparr>freep := base s\<rparr>)) else s)
      in malloc_loop grow (units nbytes) (freep s) (hptr s (freep s)) s)"

section \<open>The circular list\<close>

text \<open>The headers on the way from \<open>p\<close> to \<open>q\<close>, the latter excluded.\<close>

primrec path :: "(nat \<Rightarrow> nat) \<Rightarrow> nat \<Rightarrow> nat list \<Rightarrow> nat \<Rightarrow> bool" where
  "path h p [] q \<longleftrightarrow> p = q"
| "path h p (x # xs) q \<longleftrightarrow> p = x \<and> path h (h x) xs q"

lemma path_append: "path h p (xs @ ys) q \<longleftrightarrow> (\<exists>r. path h p xs r \<and> path h r ys q)"
  by (induction xs arbitrary: p) auto

lemma path_upd [simp]: "a \<notin> set xs \<Longrightarrow> path (h(a := v)) p xs q = path h p xs q"
  by (induction xs arbitrary: p) auto

lemma path_next:
  assumes "path h b (us @ x # vs) b" "us @ x # vs = b # ys"
  shows "h x = (case vs of [] \<Rightarrow> b | y # _ \<Rightarrow> y)" "path h b us x" "path h (h x) vs b"
  using assms by (cases vs; auto simp: path_append)+

lemma circle_reach:
  assumes xs: "path h b xs b" "xs = b # ys" and x: "x \<in> set xs" and p: "p \<in> set xs"
    and step: "\<And>x. x \<in> set xs \<Longrightarrow> x \<noteq> p \<Longrightarrow> f x = f (h x)"
  shows "f x = f p"
proof -
  have run: "f y = f r" if "path h y zs r" "set zs \<subseteq> set xs" "p \<notin> set zs" for y zs r
    using that by (induction zs arbitrary: y) (auto simp: step)
  have fromb: "f b = f p"
  proof -
    obtain us vs where u: "xs = us @ p # vs" "p \<notin> set us" using p split_list_first by metis
    then have "path h b us p" using path_next(2) xs by metis
    then show ?thesis using run u by auto
  qed
  obtain us vs where u: "xs = us @ x # vs" using x split_list by metis
  have vs: "path h x (x # vs) b" using path_next(3) xs u by auto
  show ?thesis
  proof (cases "p \<in> set (x # vs)")
    case False
    then show ?thesis using vs run[of x "x # vs" b] False u fromb by auto
  next
    case True
    then obtain as bs where a: "x # vs = as @ p # bs" "p \<notin> set as" using split_list_first by metis
    have "path h x as p" using vs unfolding a(1) by (auto simp: path_append)
    moreover have "set as \<subseteq> set xs" using u a(1) by auto
    ultimately show ?thesis using run a(2) by blast
  qed
qed

section \<open>Well-formed heaps\<close>

text \<open>
  \<open>A\<close> are the headers of the blocks in use.  The free list starts at \<open>base\<close> and is sorted; blocks do not
  overlap and lie between the static header and the end of the process.
\<close>

definition blocks_ok :: "uheap \<Rightarrow> nat set \<Rightarrow> bool" where
  "blocks_ok s B \<longleftrightarrow>
     (\<forall>a \<in> B. 0 < hsize s a \<and> base s + 16 \<le> a \<and> a + 16 * hsize s a \<le> brk s) \<and>
     (\<forall>a \<in> B. \<forall>b \<in> B. a < b \<longrightarrow> a + 16 * hsize s a \<le> b)"

definition list_ok :: "uheap \<Rightarrow> nat list \<Rightarrow> bool" where
  "list_ok s xs \<longleftrightarrow> xs \<noteq> [] \<and> hd xs = base s \<and> path (hptr s) (base s) xs (base s) \<and> sorted_wrt (<) xs \<and>
     0 < base s \<and> hsize s (base s) = 0"

definition heap_with :: "uheap \<Rightarrow> nat list \<Rightarrow> nat set \<Rightarrow> bool" where
  "heap_with s xs A \<longleftrightarrow> list_ok s xs \<and> blocks_ok s (set (tl xs) \<union> A) \<and> A \<inter> set xs = {} \<and>
     base s + 16 \<le> brk s \<and> brk s < 2 ^ 36"

fun coalesced :: "(nat \<Rightarrow> nat) \<Rightarrow> nat list \<Rightarrow> bool" where
  "coalesced z (x # y # zs) \<longleftrightarrow> x + 16 * z x \<noteq> y \<and> coalesced z (y # zs)"
| "coalesced z xs \<longleftrightarrow> True"

definition heap_at :: "uheap \<Rightarrow> nat list \<Rightarrow> nat set \<Rightarrow> bool" where
  "heap_at s xs A \<longleftrightarrow> heap_with s xs A \<and> freep s \<in> set xs \<and> coalesced (hsize s) xs"

text \<open>Before the first \<open>malloc\<close>; and at any time.\<close>

definition fresh :: "uheap \<Rightarrow> bool" where
  "fresh s \<longleftrightarrow> freep s = 0 \<and> 0 < base s \<and> base s + 16 \<le> brk s \<and> brk s < 2 ^ 36"

definition heap_ok :: "uheap \<Rightarrow> nat set \<Rightarrow> bool" where
  "heap_ok s A \<longleftrightarrow> fresh s \<and> A = {} \<or> (\<exists>xs. heap_at s xs A)"

lemma coalesced_append: "coalesced z (us @ x # vs) \<longleftrightarrow> coalesced z (us @ [x]) \<and> coalesced z (x # vs)"
proof (induction us)
  case (Cons u us) then show ?case by (cases us) auto
qed simp

lemma coalesced_tl: "coalesced z (x # vs) \<Longrightarrow> coalesced z vs"
  by (cases vs) auto

lemma coalesced_cong: "(\<And>u. u \<in> set us \<Longrightarrow> z' u = z u) \<Longrightarrow> coalesced z' (us @ [x]) = coalesced z (us @ [x])"
proof (induction us)
  case (Cons u us) then show ?case by (cases us) auto
qed simp

lemma coalesced_cong2: "(\<And>u. u \<in> set xs \<Longrightarrow> z' u = z u) \<Longrightarrow> coalesced z' xs = coalesced z xs"
  by (induction z xs rule: coalesced.induct) auto

lemma coalesced_merge:
  assumes "coalesced z (y # vs)" "x + 16 * z x = y" "x \<notin> set vs"
  shows "coalesced (z(x := z x + z y)) (x # vs)"
proof (cases vs)
  case (Cons v ws)
  let ?z = "z(x := z x + z y)"
  have "coalesced ?z vs = coalesced z vs" by (rule coalesced_cong2) (use assms(3) in auto)
  moreover have "y + 16 * z y \<noteq> v" "coalesced z vs" using assms(1) Cons by auto
  moreover have "x + 16 * ?z x = y + 16 * z y" using assms(2) by simp
  ultimately show ?thesis using Cons by (simp del: fun_upd_apply)
qed simp

section \<open>Headers that are written\<close>

text \<open>No header is written that overlaps a block of \<open>A\<close>.\<close>

definition frame :: "nat set \<Rightarrow> uheap \<Rightarrow> uheap \<Rightarrow> bool" where
  "frame A s s' \<longleftrightarrow> base s' = base s \<and> (\<forall>y. hptr s' y \<noteq> hptr s y \<or> hsize s' y \<noteq> hsize s y \<longrightarrow>
     (\<forall>a \<in> A. y + 16 \<le> a \<or> a + 16 * hsize s a \<le> y))"

lemma frame_refl [simp]: "frame A s s" "frame A s (s\<lparr>freep := p\<rparr>)" "frame A s (s\<lparr>brk := b\<rparr>)"
  by (simp_all add: frame_def)

lemma frame_size:
  assumes "frame A s s'" "a \<in> A" "0 < hsize s a" shows "hsize s' a = hsize s a"
proof (rule ccontr)
  assume "hsize s' a \<noteq> hsize s a"
  then have "a + 16 \<le> a \<or> a + 16 * hsize s a \<le> a" using assms(1,2) unfolding frame_def by blast
  then show False using assms(3) by simp
qed

lemma frame_trans:
  assumes "frame A s s'" "frame A s' s''" "\<forall>a \<in> A. 0 < hsize s a" shows "frame A s s''"
  unfolding frame_def
proof (intro conjI allI impI ballI)
  show "base s'' = base s" using assms by (simp add: frame_def)
  fix y a assume y: "hptr s'' y \<noteq> hptr s y \<or> hsize s'' y \<noteq> hsize s y" and a: "a \<in> A"
  have "hsize s' a = hsize s a" using frame_size assms(1,3) a by blast
  moreover have "hptr s' y \<noteq> hptr s y \<or> hsize s' y \<noteq> hsize s y \<or> hptr s'' y \<noteq> hptr s' y \<or> hsize s'' y \<noteq> hsize s' y" using y by metis
  ultimately show "y + 16 \<le> a \<or> a + 16 * hsize s a \<le> y" using assms(1,2) a unfolding frame_def by metis
qed

lemma heap_size_pos: "heap_with s xs A \<Longrightarrow> a \<in> A \<Longrightarrow> 0 < hsize s a"
  by (simp add: heap_with_def blocks_ok_def)

lemma heap_list:
  assumes "heap_with s xs A" shows "\<exists>ys. xs = base s # ys" "base s \<notin> set (tl xs)" "distinct xs"
proof -
  have l: "xs \<noteq> []" "hd xs = base s" "sorted_wrt (<) xs" using assms by (simp_all add: heap_with_def list_ok_def)
  then show ys: "\<exists>ys. xs = base s # ys" by (cases xs) auto
  show "base s \<notin> set (tl xs)" using ys l(3) by auto
  show "distinct xs" using l(3) by (simp add: strict_sorted_iff)
qed

lemma header_spared:
  assumes h: "heap_with s xs A" and "y \<in> set xs" "a \<in> A"
  shows "y + 16 \<le> a \<or> a + 16 * hsize s a \<le> y"
proof -
  obtain ys where ys: "xs = base s # ys" using heap_list(1)[OF h] by blast
  have bl: "blocks_ok s (set ys \<union> A)" using h ys by (simp add: heap_with_def)
  show ?thesis
  proof (cases "y = base s")
    case True then show ?thesis using bl assms(3) by (simp add: blocks_ok_def)
  next
    case False
    then have y: "y \<in> set ys" using assms(2) ys by simp
    then have "y \<noteq> a" using h assms(3) ys by (auto simp: heap_with_def)
    then have "y < a \<or> a < y" by linarith
    then have "y + 16 * hsize s y \<le> a \<or> a + 16 * hsize s a \<le> y" and "0 < hsize s y" using bl y assms(3) by (auto simp: blocks_ok_def)
    then show ?thesis by (metis One_nat_def Suc_leI add_le_cancel_left le_trans mult.right_neutral mult_le_mono2)
  qed
qed

lemma frame_in_list:
  assumes "heap_with s xs A" "base s' = base s" "\<And>y. hptr s' y \<noteq> hptr s y \<or> hsize s' y \<noteq> hsize s y \<Longrightarrow> y \<in> set xs"
  shows "frame A s s'"
  using header_spared[OF assms(1)] assms(2,3) by (auto simp: frame_def)

section \<open>Insertion and merging\<close>

definition insert_after :: "nat \<Rightarrow> nat \<Rightarrow> uheap \<Rightarrow> uheap" where
  "insert_after p a s = set_ptr p a (set_ptr a (hptr s p) s)"

definition merge :: "nat \<Rightarrow> nat \<Rightarrow> uheap \<Rightarrow> uheap" where
  "merge x y s = set_ptr x (hptr s y) (set_size x (hsize s x + hsize s y) s)"

lemma insert_after_ok:
  assumes h: "heap_with s (us @ p # vs) (insert a A)" and a: "a \<notin> A" "p < a" "\<forall>v \<in> set vs. a < v"
  shows "heap_with (insert_after p a s) (us @ p # a # vs) A"
proof -
  let ?s = "insert_after p a s"
  obtain ys where ys: "us @ p # vs = base s # ys" using heap_list(1)[OF h] by blast
  have l: "path (hptr s) (base s) (us @ p # vs) (base s)" "sorted_wrt (<) (us @ p # vs)" "0 < base s" "hsize s (base s) = 0"
    using h by (simp_all add: heap_with_def list_ok_def)
  have n: "a \<notin> set (us @ p # vs)" and p: "p \<notin> set us" "p \<notin> set vs" using h heap_list(3)[OF h] by (auto simp: heap_with_def)
  have pt: "path (hptr ?s) (base s) (us @ p # a # vs) (base s)"
    using path_next(2,3)[OF l(1) ys] n p by (auto simp: path_append insert_after_def)
  have so: "sorted_wrt (<) (us @ p # a # vs)" using l(2) a(2,3) by (auto simp: sorted_wrt_append)
  obtain ys' where ys': "us @ p # a # vs = base s # ys'" "insert a (set ys) = set ys'"
    using ys by (cases us) (auto simp: insert_commute)
  have "list_ok ?s (us @ p # a # vs)" using pt so l(3,4) ys'(1) by (simp add: list_ok_def insert_after_def)
  moreover have "blocks_ok ?s (set ys' \<union> A)"
    using h unfolding ys'(2)[symmetric] by (simp add: heap_with_def ys blocks_ok_def insert_after_def)
  ultimately show ?thesis using h n a(1) unfolding heap_with_def ys'(1) by (auto simp: ys insert_after_def ys'(2)[symmetric])
qed

lemma merge_ok:
  assumes h: "heap_with s (us @ x # y # vs) A" and x: "x \<noteq> base s" "x + 16 * hsize s x = y"
  shows "heap_with (merge x y s) (us @ x # vs) A" "hsize (merge x y s) = (hsize s)(x := hsize s x + hsize s y)"
proof -
  let ?s = "merge x y s"
  obtain u us' where u: "us = u # us'" "u = base s" using heap_list(1)[OF h] x(1) by (cases us) auto
  have l: "path (hptr s) (base s) (us @ x # y # vs) (base s)" "sorted_wrt (<) (us @ x # y # vs)" "0 < base s" "hsize s (base s) = 0"
    using h by (simp_all add: heap_with_def list_ok_def)
  have d: "distinct (us @ x # y # vs)" by (rule heap_list(3)[OF h])
  have bl: "blocks_ok s (set (us' @ x # y # vs) \<union> A)" "brk s < 2 ^ 36" using h by (simp_all add: heap_with_def u)
  then have "y + 16 * hsize s y \<le> brk s" by (simp add: blocks_ok_def)
  then have "hsize s x + hsize s y < 2 ^ 32" using x(2) bl(2) by simp
  then show z: "hsize ?s = (hsize s)(x := hsize s x + hsize s y)" by (simp add: merge_def)
  have "hptr s x = y" "path (hptr s) (hptr s y) vs (base s)" "path (hptr s) (base s) us x" using l(1) by (auto simp: path_append)
  then have "path (hptr ?s) (base s) (us @ x # vs) (base s)" using d by (auto simp: path_append merge_def)
  then have li: "list_ok ?s (us @ x # vs)" using l(2-4) x(1) u by (auto simp: list_ok_def z sorted_wrt_append merge_def)
  have B: "blocks_ok ?s (set (us' @ x # vs) \<union> A)"
    unfolding blocks_ok_def z
  proof (intro conjI ballI impI)
    fix a assume a: "a \<in> set (us' @ x # vs) \<union> A"
    then have aB: "a \<in> set (us' @ x # y # vs) \<union> A" by auto
    have f: "0 < hsize s a \<and> base s + 16 \<le> a \<and> a + 16 * hsize s a \<le> brk s" using bl(1) aB unfolding blocks_ok_def by blast
    show "0 < ((hsize s)(x := hsize s x + hsize s y)) a" using f by auto
    show "base ?s + 16 \<le> a" using f by (simp add: merge_def)
    show "a + 16 * ((hsize s)(x := hsize s x + hsize s y)) a \<le> brk ?s" using f \<open>y + 16 * hsize s y \<le> brk s\<close> x(2) by (simp add: merge_def)
    fix b assume b: "b \<in> set (us' @ x # vs) \<union> A" "a < b"
    then have bB: "b \<in> set (us' @ x # y # vs) \<union> A" by auto
    have o: "a + 16 * hsize s a \<le> b" using bl(1) aB bB b(2) unfolding blocks_ok_def by blast
    have "y \<noteq> b" using b(1) d h by (auto simp: u heap_with_def)
    then have "y < b" if "a = x" using o that x(2) by simp
    moreover have "y \<in> set (us' @ x # y # vs) \<union> A" by simp
    ultimately have "y + 16 * hsize s y \<le> b" if "a = x" using that bl(1) bB unfolding blocks_ok_def by blast
    then show "a + 16 * ((hsize s)(x := hsize s x + hsize s y)) a \<le> b" using o x(2) by auto
  qed
  show "heap_with ?s (us @ x # vs) A" using li B h unfolding heap_with_def by (auto simp: u merge_def)
qed

lemma merge_frame: "heap_with s (us @ x # y # vs) A \<Longrightarrow> frame A s (merge x y s)"
  by (rule frame_in_list) (auto simp: merge_def split: if_splits)

section \<open>Freeing a block\<close>

text \<open>The place of \<open>a\<close>: the last header before it.\<close>

lemma list_slot:
  assumes "sorted_wrt (<) xs" "xs = b # ys" "b < (a :: nat)" "a \<notin> set xs"
  obtains us p vs where "xs = us @ p # vs" "p < a" "\<forall>v \<in> set vs. a < v"
proof -
  have "\<exists>p \<in> set xs. p < a" using assms(2,3) by auto
  then obtain us p vs where u: "xs = us @ p # vs" "p < a" "\<forall>v \<in> set vs. \<not> v < a" by (rule split_list_last_propE)
  then have "\<forall>v \<in> set vs. a < v" using assms(4) by (auto simp: not_less order.order_iff_strict)
  then show thesis using that u by blast
qed

lemma free_find_slot:
  assumes h: "heap_with s xs A" and u: "xs = us @ p # vs" "p < a" "\<forall>v \<in> set vs. a < v" and x: "x \<in> set xs"
  shows "free_find s a x = Some p"
proof -
  obtain ys where ys: "xs = base s # ys" using heap_list(1)[OF h] by blast
  have l: "path (hptr s) (base s) xs (base s)" "sorted_wrt (<) xs" using h by (simp_all add: heap_with_def list_ok_def)
  have le: "base s \<le> y" if "y \<in> set xs" for y using that l(2) ys by auto
  have next_of: "hptr s y = (case ws of [] \<Rightarrow> base s | z # _ \<Rightarrow> z)" if "xs = zs @ y # ws" for zs y ws
    using path_next(1)[of "hptr s" "base s" zs y ws ys] l(1) ys that by metis
  have "free_find s a p = Some p"
    using next_of[OF u(1)] u le[of p] by (subst free_find.simps) (auto split: list.splits)
  moreover have "free_find s a y = free_find s a (hptr s y)" if y: "y \<in> set xs" "y \<noteq> p" for y
  proof -
    obtain zs ws where z: "xs = zs @ y # ws" using y(1) split_list by metis
    have o: "y < p \<or> p < y" using y(2) by linarith
    have "p \<in> set ws \<or> (a < y \<and> y \<in> set vs)" using z u l(2) y o by (metis UnE append_eq_append_conv2 in_set_conv_decomp insertE list.set(2) not_less_iff_gr_or_eq set_append sorted_wrt_append)
    moreover have "\<forall>w \<in> set ws. hptr s y \<le> w \<and> y < hptr s y" "ws = [] \<Longrightarrow> hptr s y = base s"
      using next_of[OF z] l(2) unfolding z by (auto simp: sorted_wrt_append split: list.splits)
    moreover have "base s \<le> p" "base s \<le> y" using le u(1) y(1) by auto
    ultimately have "\<not> (a > y \<and> a < hptr s y)" "\<not> (y \<ge> hptr s y \<and> (a > y \<or> a < hptr s y))"
      using u(2) by (cases ws; fastforce)+
    then show ?thesis by (subst free_find.simps) (simp only: if_False)
  qed
  ultimately show ?thesis using circle_reach[OF l(1) ys x, of p "free_find s a"] u(1) by auto
qed

definition place :: "nat \<Rightarrow> nat \<Rightarrow> uheap \<Rightarrow> uheap" where
  "place p a s =
     (let s = insert_after p a s;
          s = (if a + 16 * hsize s a = hptr s a then merge a (hptr s a) s else s)
      in if p + 16 * hsize s p = a then merge p a s else s)"

lemma merge_next:
  assumes h: "heap_with s (us @ p # a # vs) A" and c: "coalesced (hsize s) (us @ [p])" "coalesced (hsize s) vs"
  defines "s' \<equiv> (if a + 16 * hsize s a = hptr s a then merge a (hptr s a) s else s)"
  shows "\<exists>ws. heap_with s' (us @ p # a # ws) A \<and> coalesced (hsize s') (us @ [p]) \<and> coalesced (hsize s') (a # ws)
    \<and> hsize s a \<le> hsize s' a \<and> frame A s s'"
proof -
  obtain ys where ys: "us @ p # a # vs = base s # ys" using heap_list(1)[OF h] by blast
  have l: "path (hptr s) (base s) (us @ p # a # vs) (base s)" "sorted_wrt (<) (us @ p # a # vs)" using h by (simp_all add: heap_with_def list_ok_def)
  have nx: "hptr s a = (case vs of [] \<Rightarrow> base s | y # _ \<Rightarrow> y)" using path_next(1)[of "hptr s" "base s" "us @ [p]" a vs ys] l(1) ys by simp
  have ba: "base s < a" using ys l(2) by (cases us) (auto simp: sorted_wrt_append)
  show ?thesis
  proof (cases "a + 16 * hsize s a = hptr s a")
    case True
    then obtain y ws where vs: "vs = y # ws" "hptr s a = y" using nx ba by (cases vs) auto
    have h': "heap_with s ((us @ [p]) @ a # y # ws) A" using h vs by simp
    have s': "s' = merge a y s" using True vs by (simp add: s'_def)
    note m = merge_ok[OF h' _ True[unfolded vs(2)]]
    have z: "hsize s' = (hsize s)(a := hsize s a + hsize s y)" using m(2) ba s' by simp
    have d: "distinct (us @ p # a # y # ws)" using heap_list(3)[OF h'] by simp
    have "coalesced (hsize s') (us @ [p]) = coalesced (hsize s) (us @ [p])" by (rule coalesced_cong) (use d z in auto)
    moreover have "coalesced (hsize s') (a # ws)" unfolding z by (rule coalesced_merge) (use c(2) True vs d in auto)
    ultimately show ?thesis using m(1) ba c(1) merge_frame[OF h'] unfolding s'[symmetric] by (intro exI[of _ ws]) (simp add: z)
  next
    case False
    then have "coalesced (hsize s) (a # vs)" using nx c(2) by (cases vs) auto
    then show ?thesis using False h c by (auto simp: s'_def)
  qed
qed

lemma merge_prev:
  assumes h: "heap_with s (us @ p # a # ws) A" and c: "coalesced (hsize s) (us @ [p])" "coalesced (hsize s) (a # ws)"
  defines "s' \<equiv> (if p + 16 * hsize s p = a then merge p a s else s)"
  shows "\<exists>xs. heap_with s' xs A \<and> coalesced (hsize s') xs \<and> p \<in> set xs \<and> (\<exists>x \<in> set xs. hsize s a \<le> hsize s' x) \<and> frame A s s'"
proof (cases "p + 16 * hsize s p = a")
  case True
  have "p < a" "hsize s (base s) = 0" using h by (auto simp: heap_with_def list_ok_def sorted_wrt_append)
  then have pb: "p \<noteq> base s" using True by auto
  note m = merge_ok[OF h pb True]
  have s': "s' = merge p a s" using True by (simp add: s'_def)
  have d: "distinct (us @ p # a # ws)" by (rule heap_list(3)[OF h])
  have "coalesced (hsize s') (us @ [p]) = coalesced (hsize s) (us @ [p])" by (rule coalesced_cong) (use d m(2) s' in auto)
  moreover have "coalesced (hsize s') (p # ws)" unfolding s' m(2) by (rule coalesced_merge) (use c(2) True d in auto)
  ultimately have "coalesced (hsize s') (us @ p # ws)" using c(1) coalesced_append by blast
  moreover have "hsize s a \<le> hsize s' p" using m(2) s' by simp
  ultimately show ?thesis using m(1) merge_frame[OF h] s' by (intro exI[of _ "us @ p # ws"]) auto
next
  case False
  then have "coalesced (hsize s) (us @ p # a # ws)" using c coalesced_append[of "hsize s" us p "a # ws"] by simp
  then show ?thesis using False h by (intro exI[of _ "us @ p # a # ws"]) (auto simp: s'_def)
qed

lemma free_place:
  assumes "free_find s a (freep s) = Some p" "p \<noteq> a" "hptr s p \<noteq> a" "a + 16 * hsize s a = hptr s p \<Longrightarrow> hptr s p \<noteq> p"
  shows "free (a + 16) s = Some ((place p a s)\<lparr>freep := p\<rparr>)"
  using assms by (auto simp: free_def place_def insert_after_def merge_def Let_def fun_eq_iff)

lemma place_fields: "brk (place p a s) = brk s" "base (place p a s) = base s"
  by (simp_all add: place_def insert_after_def merge_def Let_def)

lemma heap_with_freep [simp]: "heap_with (s\<lparr>freep := p\<rparr>) xs A = heap_with s xs A"
  by (simp add: heap_with_def list_ok_def blocks_ok_def)

lemma insert_frame: "heap_with s (us @ p # vs) (insert a A) \<Longrightarrow> a \<notin> A \<Longrightarrow> p < a \<Longrightarrow> \<forall>v \<in> set vs. a < v \<Longrightarrow> frame A s (insert_after p a s)"
proof -
  assume h: "heap_with s (us @ p # vs) (insert a A)" "a \<notin> A" "p < a" "\<forall>v \<in> set vs. a < v"
  have "y + 16 \<le> b \<or> b + 16 * hsize s b \<le> y" if "y \<in> {p, a}" "b \<in> A" for y b
    using header_spared[OF insert_after_ok[OF h], of y b] that by (auto simp: insert_after_def)
  then show ?thesis by (auto simp: frame_def insert_after_def split: if_splits)
qed

lemma place_ok:
  assumes h: "heap_with s (us @ p # vs) (insert a A)" "a \<notin> A" "p < a" "\<forall>v \<in> set vs. a < v" and c: "coalesced (hsize s) (us @ p # vs)"
  shows "\<exists>xs. heap_with (place p a s) xs A \<and> coalesced (hsize (place p a s)) xs \<and> p \<in> set xs
    \<and> (\<exists>x \<in> set xs. hsize s a \<le> hsize (place p a s) x) \<and> frame A s (place p a s)"
proof -
  define s1 where "s1 = insert_after p a s"
  define s2 where "s2 = (if a + 16 * hsize s1 a = hptr s1 a then merge a (hptr s1 a) s1 else s1)"
  have z1: "hsize s1 = hsize s" by (simp add: s1_def insert_after_def)
  have c1: "coalesced (hsize s1) (us @ [p])" "coalesced (hsize s1) vs"
    using c coalesced_append[of "hsize s" us p vs] coalesced_tl[of "hsize s" p vs] by (simp_all add: z1)
  have h1: "heap_with s1 (us @ p # a # vs) A" unfolding s1_def by (rule insert_after_ok[OF h])
  obtain ws where w: "heap_with s2 (us @ p # a # ws) A" "coalesced (hsize s2) (us @ [p])" "coalesced (hsize s2) (a # ws)"
    "hsize s1 a \<le> hsize s2 a" "frame A s1 s2" using merge_next[OF h1 c1] unfolding s2_def by blast
  have pl: "place p a s = (if p + 16 * hsize s2 p = a then merge p a s2 else s2)" by (simp only: place_def Let_def s1_def[symmetric] s2_def[symmetric])
  obtain xs where x: "heap_with (place p a s) xs A" "coalesced (hsize (place p a s)) xs" "p \<in> set xs"
    "\<exists>x \<in> set xs. hsize s2 a \<le> hsize (place p a s) x" "frame A s2 (place p a s)"
    using merge_prev[OF w(1-3)] unfolding pl[symmetric] by blast
  have pos: "\<forall>b \<in> A. 0 < hsize s b" using heap_size_pos[OF h(1)] by blast
  have "frame A s1 (place p a s)" by (rule frame_trans[OF w(5) x(5)]) (simp add: z1 pos)
  then have "frame A s (place p a s)" using frame_trans[OF _ _ pos] insert_frame[OF h] unfolding s1_def by blast
  moreover have "\<exists>x \<in> set xs. hsize s a \<le> hsize (place p a s) x" using x(4) w(4) z1 le_trans by metis
  ultimately show ?thesis using x by blast
qed

lemma free_ok:
  assumes h: "heap_at s xs (insert a A)" "a \<notin> A"
  shows "\<exists>s' xs'. free (a + 16) s = Some s' \<and> heap_at s' xs' A \<and> (\<exists>x \<in> set xs'. hsize s a \<le> hsize s' x) \<and> frame A s s' \<and> brk s' = brk s"
proof -
  have hw: "heap_with s xs (insert a A)" "freep s \<in> set xs" "coalesced (hsize s) xs" using h(1) by (simp_all add: heap_at_def)
  obtain ys where ys: "xs = base s # ys" using heap_list(1)[OF hw(1)] by blast
  have so: "sorted_wrt (<) xs" "path (hptr s) (base s) xs (base s)" and n: "a \<notin> set xs" and ba: "base s < a"
    using hw(1) by (auto simp: heap_with_def list_ok_def blocks_ok_def)
  obtain us p vs where u: "xs = us @ p # vs" "p < a" "\<forall>v \<in> set vs. a < v" using list_slot[OF so(1) ys ba n] by blast
  have f: "free_find s a (freep s) = Some p" by (rule free_find_slot[OF hw(1) u hw(2)])
  have nx: "hptr s p = (case vs of [] \<Rightarrow> base s | y # _ \<Rightarrow> y)" using path_next(1)[of "hptr s" "base s" us p vs ys] so(2) ys u(1) by simp
  have "hptr s p \<noteq> a" using nx u(3) ba by (auto split: list.splits)
  then have fr: "free (a + 16) s = Some ((place p a s)\<lparr>freep := p\<rparr>)" using u(2) by (intro free_place[OF f]) auto
  obtain xs' where x: "heap_with (place p a s) xs' A" "coalesced (hsize (place p a s)) xs'" "p \<in> set xs'"
    "\<exists>x \<in> set xs'. hsize s a \<le> hsize (place p a s) x" "frame A s (place p a s)"
    using place_ok[OF hw(1)[unfolded u(1)] h(2) u(2,3) hw(3)[unfolded u(1)]] by blast
  have "frame A s ((place p a s)\<lparr>freep := p\<rparr>)" using x(5) by (simp add: frame_def)
  then show ?thesis using fr x place_fields by (intro exI[of _ "(place p a s)\<lparr>freep := p\<rparr>"] exI[of _ xs']) (simp add: heap_at_def)
qed

section \<open>Growing the heap\<close>

definition bounded :: "(nat \<Rightarrow> bool) \<Rightarrow> bool" where
  "bounded grow \<longleftrightarrow> (\<forall>b. grow b \<longrightarrow> b < 2 ^ 36)"

lemma heap_new_block:
  assumes h: "heap_at s xs A" and n: "0 < n" "n < 2 ^ 32" "brk s + n * 16 < 2 ^ 36"
  defines "s' \<equiv> set_size (brk s) n (s\<lparr>brk := brk s + n * 16\<rparr>)"
  shows "heap_at s' xs (insert (brk s) A)" "brk s \<notin> A" "frame A s s'"
proof -
  obtain ys where ys: "xs = base s # ys" using heap_list(1) h unfolding heap_at_def by blast
  have bl: "blocks_ok s (set ys \<union> A)" and b: "base s + 16 \<le> brk s" using h by (auto simp: heap_at_def heap_with_def ys)
  have lt: "a < brk s \<and> a + 16 * hsize s a \<le> brk s" if "a \<in> set ys \<union> A" for a
  proof -
    have "0 < hsize s a" "a + 16 * hsize s a \<le> brk s" using bl that by (simp_all add: blocks_ok_def)
    then show ?thesis by linarith
  qed
  then have z: "hsize s' a = hsize s a" if "a \<in> set xs \<union> A" for a using that b n(2) by (auto simp: s'_def ys)
  show nA: "brk s \<notin> A" using lt by blast
  have nx: "brk s \<notin> set xs" using lt b by (auto simp: ys)
  have zb: "hsize s' (brk s) = n" using n(2) by (simp add: s'_def)
  have fld: "base s' = base s" "brk s' = brk s + n * 16" "hptr s' = hptr s" "freep s' = freep s" by (simp_all add: s'_def)
  have "blocks_ok s' (set ys \<union> insert (brk s) A)"
    unfolding blocks_ok_def fld
  proof (intro conjI ballI impI)
    fix a assume a: "a \<in> set ys \<union> insert (brk s) A"
    show "0 < hsize s' a" "base s + 16 \<le> a" "a + 16 * hsize s' a \<le> brk s + n * 16"
      using a bl lt[of a] z[of a] zb n(1) b by (auto simp: blocks_ok_def ys intro: trans_le_add1)
    fix c assume c: "c \<in> set ys \<union> insert (brk s) A" "a < c"
    then have "a \<in> set ys \<union> A" using a lt by fastforce
    then show "a + 16 * hsize s' a \<le> c" using c bl lt[of a] z[of a] by (auto simp: blocks_ok_def ys)
  qed
  moreover have "list_ok s' xs" using h z[of "base s"] by (simp add: heap_at_def heap_with_def list_ok_def fld ys)
  moreover have "coalesced (hsize s') xs = coalesced (hsize s) xs" by (rule coalesced_cong2) (simp add: z)
  ultimately show "heap_at s' xs (insert (brk s) A)" using h n(3) nx by (simp add: heap_at_def heap_with_def fld ys)
  show "frame A s s'" using lt by (auto simp: frame_def s'_def split: if_splits)
qed

lemma sbrk_units: "n * 16 < 2 ^ 31 \<Longrightarrow> sint (of_nat (n * 16) :: u32) = int (n * 16)"
  using sint_word_of_int32[of "int (n * 16)"] by simp

lemma morecore_ok:
  assumes h: "heap_at s xs A" and n: "n * 16 < 2 ^ 31" "bounded grow"
  shows "morecore grow n s = Some (0, s) \<or>
    (\<exists>s' xs'. morecore grow n s = Some (freep s', s') \<and> heap_at s' xs' A \<and> (\<exists>x \<in> set xs'. n \<le> hsize s' x) \<and> frame A s s')"
proof -
  define m where "m = (if n < 4096 then 4096 else n)"
  have m: "0 < m" "m * 16 < 2 ^ 31" "m < 2 ^ 32" "n \<le> m" using n(1) by (auto simp: m_def)
  have mc: "morecore grow n s = (if grow (brk s + m * 16)
      then map_option (\<lambda>s. (freep s, s)) (free (brk s + 16) (set_size (brk s) m (s\<lparr>brk := brk s + m * 16\<rparr>))) else Some (0, s))"
    using m(1) unfolding morecore_def Let_def m_def[symmetric] sbrk_units[OF m(2)] by (simp add: sbrk_def nat_mult_distrib)
  show ?thesis
  proof (cases "grow (brk s + m * 16)")
    case True
    define s1 where "s1 = set_size (brk s) m (s\<lparr>brk := brk s + m * 16\<rparr>)"
    have "brk s + m * 16 < 2 ^ 36" using True n(2) by (simp add: bounded_def)
    note nb = heap_new_block[OF h m(1,3) this, folded s1_def]
    obtain s' xs' where f: "free (brk s + 16) s1 = Some s'" "heap_at s' xs' A" "\<exists>x \<in> set xs'. hsize s1 (brk s) \<le> hsize s' x" "frame A s1 s'"
      using free_ok[OF nb(1,2)] by blast
    have "hsize s1 (brk s) = m" using m(3) by (simp add: s1_def)
    then have "\<exists>x \<in> set xs'. n \<le> hsize s' x" using f(3) m(4) le_trans by metis
    moreover have "frame A s s'" using frame_trans[OF nb(3) f(4)] h heap_size_pos by (auto simp: heap_at_def)
    moreover have "morecore grow n s = Some (freep s', s')" using mc True f(1) by (simp add: s1_def)
    ultimately show ?thesis using f(2) by blast
  qed (simp add: mc)
qed

section \<open>Allocating a block\<close>

lemma take_all_ok:
  assumes h: "heap_at s (us @ p # q # ws) A" and q: "q \<noteq> base s"
  defines "s' \<equiv> (set_ptr p (hptr s q) s)\<lparr>freep := p\<rparr>"
  shows "heap_at s' (us @ p # ws) (insert q A)" "q \<notin> A" "frame A s s'"
proof -
  have hw: "heap_with s (us @ p # q # ws) A" and c: "coalesced (hsize s) (us @ p # q # ws)" using h by (simp_all add: heap_at_def)
  obtain ys where ys: "us @ p # q # ws = base s # ys" using heap_list(1)[OF hw] by blast
  have l: "path (hptr s) (base s) (us @ p # q # ws) (base s)" "sorted_wrt (<) (us @ p # q # ws)" using hw by (simp_all add: heap_with_def list_ok_def)
  have d: "distinct (us @ p # q # ws)" by (rule heap_list(3)[OF hw])
  obtain ys' where y': "us @ p # ws = base s # ys'" "set ys = insert q (set ys')" using ys by (cases us) (auto simp: insert_commute)
  have "hptr s p = q" "path (hptr s) (hptr s q) ws (base s)" "path (hptr s) (base s) us p" using l(1) by (auto simp: path_append)
  then have pt: "path (hptr s') (base s) (us @ p # ws) (base s)" using d by (auto simp: path_append s'_def)
  have "sorted_wrt (<) (us @ p # ws)" using l(2) by (auto simp: sorted_wrt_append)
  then have li: "list_ok s' (us @ p # ws)" using hw pt y'(1) by (simp add: heap_with_def list_ok_def s'_def)
  show qA: "q \<notin> A" using hw by (auto simp: heap_with_def)
  have "blocks_ok s' (set ys' \<union> insert q A)" using hw by (simp add: heap_with_def ys y'(2) blocks_ok_def s'_def)
  moreover have "insert q A \<inter> set (us @ p # ws) = {}" using hw d by (auto simp: heap_with_def)
  ultimately have hw': "heap_with s' (us @ p # ws) (insert q A)" using hw li y'(1) by (simp add: heap_with_def s'_def)
  have co: "coalesced (hsize s) (us @ [p])" "coalesced (hsize s) ws"
    using c coalesced_append[of "hsize s" us p "q # ws"] by (auto dest: coalesced_tl)
  have "p + 16 * hsize s p < w" if "ws = w # vs" for w vs
  proof -
    have "q < w" using l(2) that by (simp add: sorted_wrt_append)
    moreover have "p + 16 * hsize s p \<le> q"
    proof (cases "p = base s")
      case True then show ?thesis using hw l(2) by (auto simp: heap_with_def list_ok_def sorted_wrt_append)
    next
      case False
      then have "p \<in> set ys" "q \<in> set ys" using ys q by (metis in_set_conv_decomp list.set_intros(2) set_ConsD append_Cons append_assoc append_Nil)+
      moreover have "p < q" using l(2) by (simp add: sorted_wrt_append)
      ultimately show ?thesis using hw by (simp add: heap_with_def ys blocks_ok_def)
    qed
    ultimately show ?thesis by simp
  qed
  then have "coalesced (hsize s) (p # ws)" using co(2) by (cases ws) auto
  then have "coalesced (hsize s') (us @ p # ws)" using co(1) coalesced_append[of "hsize s" us p ws] by (simp add: s'_def)
  then show "heap_at s' (us @ p # ws) (insert q A)" using hw' by (simp add: heap_at_def s'_def)
  show "frame A s s'" by (rule frame_in_list[OF hw]) (auto simp: s'_def split: if_splits)
qed

lemma split_sep:
  assumes bl: "blocks_ok s B" and q: "q \<in> B" and n: "0 < n" "n < hsize s q" and a: "a = q + 16 * (hsize s q - n)"
  shows "q < a" "a + 16 * n = q + 16 * hsize s q" "a \<notin> B" "\<And>b. b \<in> B \<Longrightarrow> b \<noteq> q \<Longrightarrow> b + 16 * hsize s b \<le> q \<or> a + 16 * n \<le> b"
proof -
  show q: "q < a" "a + 16 * n = q + 16 * hsize s q" using n by (simp_all add: a algebra_simps)
  show sep: "b + 16 * hsize s b \<le> q \<or> a + 16 * n \<le> b" if "b \<in> B" "b \<noteq> q" for b
    using bl assms(2) that q(2) unfolding blocks_ok_def by (metis linorder_neqE_nat)
  have "a + 16 * hsize s a \<le> q \<or> a + 16 * n \<le> a" if "a \<in> B" using sep[OF that] q(1) by simp
  then show "a \<notin> B" using q(1) n(1) by auto
qed

lemma split_blocks:
  assumes bl: "blocks_ok s B" and q: "q \<in> B" and n: "0 < n" "n < hsize s q" and a: "a = q + 16 * (hsize s q - n)"
    and s': "hsize s' = (hsize s)(q := hsize s q - n, a := n)" "base s' = base s" "brk s' = brk s"
  shows "blocks_ok s' (insert a B)"
  unfolding blocks_ok_def s'
proof (intro conjI ballI impI)
  note sep = split_sep[OF bl q n a]
  have B: "0 < hsize s b" "base s + 16 \<le> b" "b + 16 * hsize s b \<le> brk s" if "b \<in> B" for b using bl that by (simp_all add: blocks_ok_def)
  fix b assume b: "b \<in> insert a B"
  show "0 < ((hsize s)(q := hsize s q - n, a := n)) b" "base s + 16 \<le> b" "b + 16 * ((hsize s)(q := hsize s q - n, a := n)) b \<le> brk s"
    using B[of b] B[OF q] n sep(1,2) b by (cases "b = a"; auto simp: algebra_simps)+
  fix c assume c: "c \<in> insert a B" "b < c"
  consider "b = a" "c \<in> B" "c \<noteq> q" | "b = q" "c = a" | "b \<in> B" "b \<noteq> q" "c = a" | "b = q" "c \<in> B" | "b \<in> B" "b \<noteq> q" "c \<in> B"
    using b c sep(1) by auto
  then show "b + 16 * ((hsize s)(q := hsize s q - n, a := n)) b \<le> c"
  proof cases
    case 1 then show ?thesis using sep(4)[of c] c(2) sep(1) by auto
  next
    case 2 then show ?thesis using sep(1) a by auto
  next
    case 3 then show ?thesis using sep(4)[of b] sep(1,3) c(2) by auto
  next
    case 4
    then have "q + 16 * hsize s q \<le> c" using bl q c(2) by (simp add: blocks_ok_def)
    then show ?thesis using 4 sep(1) a by auto
  next
    case 5 then show ?thesis using bl c(2) sep(3) by (auto simp: blocks_ok_def)
  qed
qed

lemma take_part_ok:
  assumes h: "heap_at s xs A" and q: "q \<in> set (tl xs)" "p \<in> set xs" and n: "0 < n" "n < hsize s q"
  defines "a \<equiv> q + 16 * (hsize s q - n)"
  defines "s' \<equiv> (set_size a n (set_size q (hsize s q - n) s))\<lparr>freep := p\<rparr>"
  shows "heap_at s' xs (insert a A)" "a \<notin> A" "frame A s s'" "hsize s' a = n"
proof -
  have hw: "heap_with s xs A" using h by (simp add: heap_at_def)
  obtain ys where ys: "xs = base s # ys" using heap_list(1)[OF hw] by blast
  have bl: "blocks_ok s (set ys \<union> A)" "brk s < 2 ^ 36" and qy: "q \<in> set ys \<union> A" using hw ys q(1) by (simp_all add: heap_with_def)
  have qe: "q + 16 * hsize s q \<le> brk s" "base s + 16 \<le> q" using bl(1) qy by (simp_all add: blocks_ok_def)
  note sep = split_sep[OF bl(1) qy n a_def[THEN meta_eq_to_obj_eq]]
  show "a \<notin> A" using sep(3) by blast
  have z: "hsize s' = (hsize s)(q := hsize s q - n, a := n)" using qe bl(2) n by (simp add: s'_def)
  then show "hsize s' a = n" by simp
  have fld: "base s' = base s" "brk s' = brk s" "hptr s' = hptr s" "freep s' = p" by (simp_all add: s'_def)
  have "blocks_ok s' (set ys \<union> insert a A)"
    using split_blocks[OF bl(1) qy n a_def[THEN meta_eq_to_obj_eq] z fld(1,2)] by simp
  moreover have "list_ok s' xs" using hw qe(2) sep(1) by (auto simp: heap_with_def list_ok_def fld z)
  moreover have nx: "a \<notin> set xs" using sep(1,3) qe(2) ys by auto
  ultimately have hw': "heap_with s' xs (insert a A)" using hw by (simp add: heap_with_def fld ys)
  have co: "coalesced (hsize s') zs" if "coalesced (hsize s) zs" "set zs \<subseteq> set xs" for zs
    using that
  proof (induction "hsize s'" zs rule: coalesced.induct)
    case (1 x y zs)
    have "a \<noteq> y" "x \<noteq> a" using nx 1(3) by auto
    then show ?case using 1 by (auto simp: z a_def)
  qed auto
  show "heap_at s' xs (insert a A)" using hw' co[of xs] h q(2) by (auto simp: heap_at_def fld)
  show "frame A s s'" unfolding frame_def fld z
  proof (intro conjI allI impI ballI refl)
    fix y b assume "hptr s y \<noteq> hptr s y \<or> ((hsize s)(q := hsize s q - n, a := n)) y \<noteq> hsize s y" and b: "b \<in> A"
    then have y: "y = q \<or> y = a" by (auto split: if_splits)
    have "b \<noteq> q" using b hw q(1) ys by (auto simp: heap_with_def)
    then have "b + 16 * hsize s b \<le> q \<or> a + 16 * n \<le> b" using sep(4)[of b] b by blast
    then show "y + 16 \<le> b \<or> b + 16 * hsize s b \<le> y" using y sep(1) n(1) by auto
  qed
qed

lemma take_block_ok:
  assumes h: "heap_at s xs A" and p: "p \<in> set xs" and n: "0 < n" "n \<le> hsize s (hptr s p)"
  shows "\<exists>a s' xs'. take_block n p (hptr s p) s = (a + 16, s') \<and> heap_at s' xs' (insert a A) \<and> a \<notin> A \<and> hsize s' a = n \<and> frame A s s'"
proof -
  have hw: "heap_with s xs A" using h by (simp add: heap_at_def)
  obtain ys where ys: "xs = base s # ys" using heap_list(1)[OF hw] by blast
  obtain us vs where u: "xs = us @ p # vs" using p split_list by metis
  have l: "path (hptr s) (base s) xs (base s)" "hsize s (base s) = 0" using hw by (simp_all add: heap_with_def list_ok_def)
  let ?q = "hptr s p"
  have "?q = (case vs of [] \<Rightarrow> base s | y # _ \<Rightarrow> y)" using path_next(1)[of "hptr s" "base s" us p vs ys] l(1) ys u by simp
  moreover have qb: "?q \<noteq> base s" using n l(2) by auto
  ultimately obtain ws where ws: "vs = ?q # ws" by (auto split: list.splits)
  show ?thesis
  proof (cases "hsize s ?q = n")
    case True
    let ?s = "(set_ptr p (hptr s ?q) s)\<lparr>freep := p\<rparr>"
    note t = take_all_ok[OF h[unfolded u ws] qb]
    have "take_block n p ?q s = (?q + 16, ?s)" using True by (simp add: take_block_def)
    moreover have "hsize ?s ?q = n" using True by simp
    ultimately show ?thesis using t by blast
  next
    case False
    let ?a = "?q + 16 * (hsize s ?q - n)"
    let ?s = "(set_size ?a n (set_size ?q (hsize s ?q - n) s))\<lparr>freep := p\<rparr>"
    have q: "?q \<in> set (tl xs)" using ws u ys qb by (metis in_set_conv_decomp list.sel(3) list.set_intros(1) set_ConsD append_Cons UnI2 set_append list.set_intros(2))
    have lt: "n < hsize s ?q" using False n(2) by simp
    note t = take_part_ok[OF h q p n(1) lt]
    have "?q + 16 * hsize s ?q \<le> brk s" "brk s < 2 ^ 36" using hw q by (simp_all add: heap_with_def blocks_ok_def)
    then have "hsize s ?q < 2 ^ 32" by simp
    then have "take_block n p ?q s = (?a + 16, ?s)" using False by (simp add: take_block_def Let_def)
    then show ?thesis using t by blast
  qed
qed

text \<open>A round of the search from \<open>freep\<close>: a large enough block is found, or every block is too small.\<close>

lemma search_from:
  assumes xs: "heap_at s xs A"
  shows "path (hptr s) (hptr s prevp) zs (freep s) \<Longrightarrow> prevp \<in> set xs \<Longrightarrow> set zs \<subseteq> set xs \<Longrightarrow> freep s \<notin> set zs \<Longrightarrow>
    (\<exists>p \<in> set xs. n \<le> hsize s (hptr s p) \<and> malloc_loop grow n prevp (hptr s prevp) s = Some (take_block n p (hptr s p) s)) \<or>
    (\<forall>z \<in> set zs \<union> {freep s}. hsize s z < n) \<and>
    malloc_loop grow n prevp (hptr s prevp) s =
      Option.bind (morecore grow n s) (\<lambda>(q, s). if q = 0 then Some (0, s) else malloc_loop grow n q (hptr s q) s)"
proof (induction zs arbitrary: prevp)
  case Nil
  show ?case
  proof (cases "n \<le> hsize s (hptr s prevp)")
    case True
    then show ?thesis using Nil(2) by (intro disjI1 bexI[of _ prevp]) (simp_all add: malloc_loop.simps[of grow n prevp])
  next
    case False
    then show ?thesis using Nil(1) by (simp add: malloc_loop.simps[of grow n prevp])
  qed
next
  case (Cons z zs)
  then have z: "hptr s prevp = z" "path (hptr s) (hptr s z) zs (freep s)" "z \<in> set xs" "z \<noteq> freep s" by auto
  show ?case
  proof (cases "n \<le> hsize s z")
    case True
    then show ?thesis using Cons(3) z(1) by (intro disjI1 bexI[of _ prevp]) (simp_all add: malloc_loop.simps[of grow n prevp])
  next
    case False
    then have "malloc_loop grow n prevp (hptr s prevp) s = malloc_loop grow n z (hptr s z) s"
      using z by (simp add: malloc_loop.simps[of grow n prevp])
    then show ?thesis using Cons(1)[OF z(2,3)] Cons(4,5) False by auto
  qed
qed

lemma search:
  assumes h: "heap_at s xs A"
  shows "(\<exists>p \<in> set xs. n \<le> hsize s (hptr s p) \<and> malloc_loop grow n (freep s) (hptr s (freep s)) s = Some (take_block n p (hptr s p) s)) \<or>
    (\<forall>z \<in> set xs. hsize s z < n) \<and>
    malloc_loop grow n (freep s) (hptr s (freep s)) s =
      Option.bind (morecore grow n s) (\<lambda>(q, s). if q = 0 then Some (0, s) else malloc_loop grow n q (hptr s q) s)"
proof -
  have hw: "heap_with s xs A" and f: "freep s \<in> set xs" using h by (simp_all add: heap_at_def)
  obtain ys where ys: "xs = base s # ys" using heap_list(1)[OF hw] by blast
  have l: "path (hptr s) (base s) xs (base s)" "distinct xs" using hw heap_list(3)[OF hw] by (simp_all add: heap_with_def list_ok_def)
  obtain us vs where u: "xs = us @ freep s # vs" using f split_list by metis
  have "path (hptr s) (hptr s (freep s)) (vs @ us) (freep s)"
    using path_next(2,3)[of "hptr s" "base s" us "freep s" vs ys] l(1) ys u by (auto simp: path_append)
  from search_from[OF h this f, of n grow] show ?thesis using l(2) u by auto
qed

definition outcome :: "nat \<Rightarrow> nat set \<Rightarrow> uheap \<Rightarrow> nat \<Rightarrow> uheap \<Rightarrow> bool" where
  "outcome n A s r s' \<longleftrightarrow> frame A s s' \<and>
     (r = 0 \<and> (\<exists>xs. heap_at s' xs A) \<or> (\<exists>a xs. r = a + 16 \<and> a \<notin> A \<and> heap_at s' xs (insert a A) \<and> hsize s' a = n))"

lemma outcome_take:
  assumes "heap_at s xs A" "p \<in> set xs" "0 < n" "n \<le> hsize s (hptr s p)"
  shows "\<exists>r s'. take_block n p (hptr s p) s = (r, s') \<and> outcome n A s r s'"
  using take_block_ok[OF assms] unfolding outcome_def by blast

lemma malloc_loop_ok:
  assumes h: "heap_at s xs A" and n: "0 < n" "n * 16 < 2 ^ 31" "bounded grow"
  shows "\<exists>r s'. malloc_loop grow n (freep s) (hptr s (freep s)) s = Some (r, s') \<and> outcome n A s r s'"
  using search[OF h, of n grow]
proof (elim disjE bexE conjE)
  fix p assume p: "p \<in> set xs" "n \<le> hsize s (hptr s p)"
    "malloc_loop grow n (freep s) (hptr s (freep s)) s = Some (take_block n p (hptr s p) s)"
  then show ?thesis using outcome_take[OF h p(1) n(1) p(2)] by auto
next
  assume e: "malloc_loop grow n (freep s) (hptr s (freep s)) s =
      Option.bind (morecore grow n s) (\<lambda>(q, s). if q = 0 then Some (0, s) else malloc_loop grow n q (hptr s q) s)"
  show ?thesis using morecore_ok[OF h n(2,3)]
  proof (elim disjE exE conjE)
    assume "morecore grow n s = Some (0, s)"
    then show ?thesis using e h by (auto simp: outcome_def)
  next
    fix s1 xs1 assume m: "morecore grow n s = Some (freep s1, s1)" "heap_at s1 xs1 A" "\<exists>x \<in> set xs1. n \<le> hsize s1 x" "frame A s s1"
    have "freep s1 \<in> set xs1" "\<forall>x \<in> set xs1. base s1 \<le> x" "0 < base s1" using m(2)
      by (auto simp: heap_at_def heap_with_def list_ok_def) (metis hd_Cons_tl less_imp_le order.refl set_ConsD sorted_wrt.simps(2))
    then have "freep s1 \<noteq> 0" by fastforce
    then have e1: "malloc_loop grow n (freep s) (hptr s (freep s)) s = malloc_loop grow n (freep s1) (hptr s1 (freep s1)) s1" using e m(1) by simp
    have "\<not> (\<forall>z \<in> set xs1. hsize s1 z < n)" using m(3) by (meson not_le)
    then obtain p where p: "p \<in> set xs1" "n \<le> hsize s1 (hptr s1 p)"
      "malloc_loop grow n (freep s1) (hptr s1 (freep s1)) s1 = Some (take_block n p (hptr s1 p) s1)"
      using search[OF m(2), of n grow] by blast
    obtain r s' where r: "take_block n p (hptr s1 p) s1 = (r, s')" "outcome n A s1 r s'" using outcome_take[OF m(2) p(1) n(1) p(2)] by blast
    have "\<forall>a \<in> A. 0 < hsize s a" using h heap_size_pos by (auto simp: heap_at_def)
    then have "outcome n A s r s'" using r(2) frame_trans[OF m(4)] unfolding outcome_def by blast
    then show ?thesis using e1 p(3) r(1) by auto
  qed
qed

lemma fresh_init:
  assumes "fresh s"
  shows "heap_at (set_size (base s) 0 (set_ptr (base s) (base s) (s\<lparr>freep := base s\<rparr>))) [base s] {}"
  using assms by (simp add: fresh_def heap_at_def heap_with_def list_ok_def blocks_ok_def)

text \<open>Requests whose size in bytes, with the header, is a positive \<open>int\<close>.\<close>

definition small :: "u32 \<Rightarrow> bool" where
  "small n \<longleftrightarrow> unat n + 32 \<le> 2 ^ 31"

lemma units_small: "small n \<Longrightarrow> units n * 16 < 2 ^ 31" "0 < units n" "unat n + 16 \<le> units n * 16"
  by (simp_all add: small_def units_def)

lemma malloc_ok:
  assumes "heap_ok s A" "small n" "bounded grow"
  shows "\<exists>r s'. malloc grow n s = Some (r, s') \<and> outcome (units n) A s r s'"
proof (cases "freep s = 0")
  case True
  have "0 \<notin> set xs" if "heap_at s xs A" for xs
    using that by (auto simp: heap_at_def heap_with_def list_ok_def) (metis hd_Cons_tl not_less_zero set_ConsD sorted_wrt.simps(2))
  then have f: "fresh s" "A = {}" using assms(1) True by (auto simp: heap_ok_def heap_at_def)
  let ?s = "set_size (base s) 0 (set_ptr (base s) (base s) (s\<lparr>freep := base s\<rparr>))"
  have "malloc grow n s = malloc_loop grow (units n) (freep ?s) (hptr ?s (freep ?s)) ?s" using True by (simp add: malloc_def Let_def)
  then obtain r s' where "malloc grow n s = Some (r, s')" "outcome (units n) {} ?s r s'"
    using malloc_loop_ok[OF fresh_init[OF f(1)] units_small(2) units_small(1)[OF assms(2)] assms(3)] by metis
  then show ?thesis using f(2) by (auto simp: outcome_def frame_def)
next
  case False
  then obtain xs where x: "heap_at s xs A" using assms(1) by (auto simp: heap_ok_def fresh_def)
  then show ?thesis using False malloc_loop_ok[OF x units_small(2) units_small(1)[OF assms(2)] assms(3)] by (simp add: malloc_def Let_def)
qed

end
