(* ===== verification/Uheap.thy ===== *)
theory Uheap
  imports Umalloc
begin

text \<open>
  What a program may rely on when it calls \<open>malloc\<close> and \<open>free\<close>: the contract of a block allocator, the facts
  that follow from it for any sequence of requests, and that \<^verbatim>\<open>user/umalloc.c\<close> keeps it.
\<close>

section \<open>The contract of an allocator\<close>

text \<open>
  The states a program reaches from \<open>s0\<close> with \<open>alloc\<close> and \<open>release\<close>, and its live pointers with the sizes it
  asked for.  It only frees pointers that are live.
\<close>

inductive requests :: "(u32 \<Rightarrow> 's \<Rightarrow> (nat \<times> 's) option) \<Rightarrow> (nat \<Rightarrow> 's \<Rightarrow> 's option) \<Rightarrow> (u32 \<Rightarrow> bool) \<Rightarrow> 's \<Rightarrow> 's \<Rightarrow> (nat \<rightharpoonup> u32) \<Rightarrow> bool"
  for alloc release fits s0 where
  start: "requests alloc release fits s0 s0 Map.empty"
| get: "requests alloc release fits s0 s L \<Longrightarrow> fits n \<Longrightarrow> alloc n s = Some (r, s') \<Longrightarrow> r \<noteq> 0 \<Longrightarrow>
    requests alloc release fits s0 s' (L(r \<mapsto> n))"
| none_left: "requests alloc release fits s0 s L \<Longrightarrow> fits n \<Longrightarrow> alloc n s = Some (0, s') \<Longrightarrow> requests alloc release fits s0 s' L"
| give: "requests alloc release fits s0 s L \<Longrightarrow> p \<in> dom L \<Longrightarrow> release p s = Some s' \<Longrightarrow> requests alloc release fits s0 s' (L(p := None))"

text \<open>
  \<open>inv s P\<close>: the pointers \<open>P\<close> are live; \<open>area s p\<close>: the bytes that belong to \<open>p\<close>; \<open>writes s s'\<close>: the bytes
  the allocator has written.
\<close>

locale block_allocator =
  fixes inv :: "'s \<Rightarrow> nat set \<Rightarrow> bool"
    and area :: "'s \<Rightarrow> nat \<Rightarrow> nat set"
    and writes :: "'s \<Rightarrow> 's \<Rightarrow> nat set"
    and alloc :: "u32 \<Rightarrow> 's \<Rightarrow> (nat \<times> 's) option"
    and release :: "nat \<Rightarrow> 's \<Rightarrow> 's option"
    and fits :: "u32 \<Rightarrow> bool"
  assumes alloc_block: "inv s P \<Longrightarrow> fits n \<Longrightarrow> \<exists>r s'. alloc n s = Some (r, s') \<and>
      (r = 0 \<and> inv s' P \<or> r \<noteq> 0 \<and> r \<notin> P \<and> inv s' (insert r P) \<and> {r..<r + unat n} \<subseteq> area s' r) \<and>
      (\<forall>p \<in> P. area s' p = area s p \<and> writes s s' \<inter> area s p = {})"
    and release_block: "inv s P \<Longrightarrow> p \<in> P \<Longrightarrow> \<exists>s'. release p s = Some s' \<and> inv s' (P - {p}) \<and>
      (\<forall>q \<in> P - {p}. area s' q = area s q \<and> writes s s' \<inter> area s q = {})"
    and areas_disjoint: "inv s P \<Longrightarrow> p \<in> P \<Longrightarrow> q \<in> P \<Longrightarrow> p \<noteq> q \<Longrightarrow> area s p \<inter> area s q = {}"
begin

lemma requests_inv:
  assumes "requests alloc release fits s0 s L" "inv s0 {}"
  shows "inv s (dom L) \<and> (\<forall>p n. L p = Some n \<longrightarrow> {p..<p + unat n} \<subseteq> area s p)"
  using assms
proof (induction rule: requests.induct)
  case start
  then show ?case by simp
next
  case (get s L n r s')
  then have i: "inv s (dom L)" "\<forall>p n. L p = Some n \<longrightarrow> {p..<p + unat n} \<subseteq> area s p" by simp_all
  obtain r' t where t: "alloc n s = Some (r', t)" "r' = 0 \<and> inv t (dom L) \<or> r' \<noteq> 0 \<and> r' \<notin> dom L \<and> inv t (insert r' (dom L)) \<and> {r'..<r' + unat n} \<subseteq> area t r'"
    "\<forall>p \<in> dom L. area t p = area s p" using alloc_block[OF i(1) get(2)] by blast
  then have "inv s' (dom (L(r \<mapsto> n)))" "r \<notin> dom L" "{r..<r + unat n} \<subseteq> area s' r" "\<forall>p \<in> dom L. area s' p = area s p" using get(3,4) by auto
  moreover from this have "{p..<p + unat m} \<subseteq> area s' p" if "(L(r \<mapsto> n)) p = Some m" for p m
  proof (cases "p = r")
    case False
    then have p: "L p = Some m" using that by simp
    then have "area s' p = area s p" using \<open>\<forall>p \<in> dom L. area s' p = area s p\<close> by (blast dest: domI)
    then show ?thesis using i(2) p by simp
  qed (use that \<open>{r..<r + unat n} \<subseteq> area s' r\<close> in simp)
  ultimately show ?case by blast
next
  case (none_left s L n s')
  then show ?case using alloc_block[of s "dom L" n] by (fastforce simp: domI)
next
  case (give s L p s')
  then have i: "inv s (dom L)" "\<forall>p n. L p = Some n \<longrightarrow> {p..<p + unat n} \<subseteq> area s p" by simp_all
  obtain t where "release p s = Some t" "inv t (dom L - {p})" "\<forall>q \<in> dom L - {p}. area t q = area s q" using release_block[OF i(1) give(2)] by blast
  then have "inv s' (dom L - {p})" "\<forall>q \<in> dom L - {p}. area s' q = area s q" using give(3) by simp_all
  moreover from this have "{q..<q + unat m} \<subseteq> area s' q" if "(L(p := None)) q = Some m" for q m
  proof -
    have q: "L q = Some m" "q \<noteq> p" using that by (simp_all split: if_splits)
    then have "area s' q = area s q" using \<open>\<forall>q \<in> dom L - {p}. area s' q = area s q\<close> by (blast dest: domI)
    then show ?thesis using i(2) q(1) by simp
  qed
  moreover have "dom (L(p := None)) = dom L - {p}" by simp
  ultimately show ?case by presburger
qed

text \<open>Live blocks are disjoint; the next request returns and leaves their bytes alone.\<close>

lemma requests_safe:
  assumes r: "requests alloc release fits s0 s L" "inv s0 {}"
  shows "L p = Some n \<Longrightarrow> L q = Some m \<Longrightarrow> p \<noteq> q \<Longrightarrow> {p..<p + unat n} \<inter> {q..<q + unat m} = {}"
    and "fits n \<Longrightarrow> \<exists>r s'. alloc n s = Some (r, s') \<and> (\<forall>p m. L p = Some m \<longrightarrow> writes s s' \<inter> {p..<p + unat m} = {})"
    and "p \<in> dom L \<Longrightarrow> \<exists>s'. release p s = Some s' \<and> (\<forall>q m. q \<noteq> p \<longrightarrow> L q = Some m \<longrightarrow> writes s s' \<inter> {q..<q + unat m} = {})"
proof -
  have i: "inv s (dom L)" "\<And>p n. L p = Some n \<Longrightarrow> {p..<p + unat n} \<subseteq> area s p" using requests_inv[OF r] by blast+
  show "{p..<p + unat n} \<inter> {q..<q + unat m} = {}" if "L p = Some n" "L q = Some m" "p \<noteq> q"
    using areas_disjoint[OF i(1), of p q] i(2)[OF that(1)] i(2)[OF that(2)] that by blast
  have miss: "writes s s' \<inter> {p..<p + unat m} = {}" if "L p = Some m" "writes s s' \<inter> area s p = {}" for s' p m
    using i(2)[OF that(1)] that(2) by blast
  show "\<exists>r s'. alloc n s = Some (r, s') \<and> (\<forall>p m. L p = Some m \<longrightarrow> writes s s' \<inter> {p..<p + unat m} = {})" if ft: "fits n"
  proof -
    obtain r s' where s': "alloc n s = Some (r, s')" "\<forall>p \<in> dom L. writes s s' \<inter> area s p = {}" using alloc_block[OF i(1) ft] by blast
    then have "writes s s' \<inter> {p..<p + unat m} = {}" if "L p = Some m" for p m using miss[OF that] that by (blast dest: domI)
    then show ?thesis using s'(1) by blast
  qed
  show "\<exists>s'. release p s = Some s' \<and> (\<forall>q m. q \<noteq> p \<longrightarrow> L q = Some m \<longrightarrow> writes s s' \<inter> {q..<q + unat m} = {})" if pl: "p \<in> dom L"
  proof -
    obtain s' where s': "release p s = Some s'" "\<forall>q \<in> dom L - {p}. writes s s' \<inter> area s q = {}" using release_block[OF i(1) pl] by blast
    then have "writes s s' \<inter> {q..<q + unat m} = {}" if "q \<noteq> p" "L q = Some m" for q m using miss[OF that(2)] that by (blast dest: domI)
    then show ?thesis using s'(1) by blast
  qed
qed

end

section \<open>umalloc keeps it\<close>

definition live :: "uheap \<Rightarrow> nat set \<Rightarrow> bool" where
  "live s P \<longleftrightarrow> (\<exists>A. P = (\<lambda>a. a + 16) ` A \<and> heap_ok s A)"

definition block_area :: "uheap \<Rightarrow> nat \<Rightarrow> nat set" where
  "block_area s p = {p..<p - 16 + 16 * hsize s (p - 16)}"

definition header_writes :: "uheap \<Rightarrow> uheap \<Rightarrow> nat set" where
  "header_writes s s' = (\<Union>y \<in> {y. hptr s' y \<noteq> hptr s y \<or> hsize s' y \<noteq> hsize s y}. {y..<y + 16})"

text \<open>The kernel's answers; the machine has far less than \<open>2 ^ 36\<close> bytes of memory.\<close>

definition limited :: "(nat \<Rightarrow> bool) \<Rightarrow> nat \<Rightarrow> bool" where
  "limited grow b \<longleftrightarrow> grow b \<and> b < 2 ^ 36"

lemma limited_bounded: "bounded (limited grow)" "bounded grow \<Longrightarrow> limited grow = grow"
  by (auto simp: bounded_def limited_def fun_eq_iff)

lemma frame_area:
  assumes "frame A s s'" "a \<in> A" "0 < hsize s a"
  shows "block_area s' (a + 16) = block_area s (a + 16)" "header_writes s s' \<inter> block_area s (a + 16) = {}"
proof -
  show "block_area s' (a + 16) = block_area s (a + 16)" using frame_size[OF assms] by (simp add: block_area_def)
  have "{y..<y + 16} \<inter> {a + 16..<a + 16 * hsize s a} = {}" if "hptr s' y \<noteq> hptr s y \<or> hsize s' y \<noteq> hsize s y" for y
  proof -
    have "y + 16 \<le> a \<or> a + 16 * hsize s a \<le> y" using assms(1,2) that unfolding frame_def by blast
    then show ?thesis by auto
  qed
  then show "header_writes s s' \<inter> block_area s (a + 16) = {}"
    unfolding header_writes_def block_area_def add_diff_cancel_right' by blast
qed

lemma heap_ok_pos: "heap_ok s A \<Longrightarrow> a \<in> A \<Longrightarrow> 0 < hsize s a"
  by (auto simp: heap_ok_def heap_at_def dest: heap_size_pos)

lemma frame_areas:
  assumes "frame A s s'" "heap_ok s A'" "A \<subseteq> A'" "p \<in> (\<lambda>a. a + 16) ` A"
  shows "block_area s' p = block_area s p \<and> header_writes s s' \<inter> block_area s p = {}"
  using frame_area[OF assms(1)] heap_ok_pos[OF assms(2)] assms(3,4) by blast

interpretation um: block_allocator live block_area header_writes "malloc (limited grow)" free small for grow
proof unfold_locales
  fix s P n assume l: "live s P" and n: "small n"
  then obtain A where A: "P = (\<lambda>a. a + 16) ` A" "heap_ok s A" by (auto simp: live_def)
  obtain r s' where r: "malloc (limited grow) n s = Some (r, s')" "outcome (units n) A s r s'" using malloc_ok[OF A(2) n limited_bounded(1)] by blast
  have f: "frame A s s'" using r(2) by (simp add: outcome_def)
  have "r = 0 \<and> live s' P \<or> r \<noteq> 0 \<and> r \<notin> P \<and> live s' (insert r P) \<and> {r..<r + unat n} \<subseteq> block_area s' r"
    using r(2) unfolding outcome_def
  proof (elim conjE disjE exE)
    fix xs assume "r = 0" "heap_at s' xs A" then show ?thesis using A(1) by (auto simp: live_def heap_ok_def)
  next
    fix a xs assume a: "r = a + 16" "a \<notin> A" "heap_at s' xs (insert a A)" "hsize s' a = units n"
    have "insert r P = (\<lambda>a. a + 16) ` insert a A" using a(1) A(1) by simp
    then have "live s' (insert r P)" using a(3) unfolding live_def heap_ok_def by blast
    moreover have "r \<notin> P" using a(1,2) A(1) by auto
    moreover have "{r..<r + unat n} \<subseteq> block_area s' r" using a(1,4) units_small(3)[of n] by (auto simp: block_area_def)
    ultimately show ?thesis using a(1) by simp
  qed
  then show "\<exists>r s'. malloc (limited grow) n s = Some (r, s') \<and>
      (r = 0 \<and> live s' P \<or> r \<noteq> 0 \<and> r \<notin> P \<and> live s' (insert r P) \<and> {r..<r + unat n} \<subseteq> block_area s' r) \<and>
      (\<forall>p \<in> P. block_area s' p = block_area s p \<and> header_writes s s' \<inter> block_area s p = {})"
    using r(1) frame_areas[OF f A(2) order.refl] A(1) by blast
next
  fix s P p assume l: "live s P" "p \<in> P"
  then obtain A a where A: "P = (\<lambda>a. a + 16) ` A" "heap_ok s A" "p = a + 16" "a \<in> A" by (auto simp: live_def)
  obtain xs where x: "heap_at s xs (insert a (A - {a}))" using A(2,4) by (auto simp: heap_ok_def insert_absorb)
  obtain s' xs' where s': "free (a + 16) s = Some s'" "heap_at s' xs' (A - {a})" "frame (A - {a}) s s'" using free_ok[OF x] by blast
  have P: "P - {p} = (\<lambda>a. a + 16) ` (A - {a})" using A(1,3) by auto
  then have "live s' (P - {p})" using s'(2) by (auto simp: live_def heap_ok_def)
  then show "\<exists>s'. free p s = Some s' \<and> live s' (P - {p}) \<and>
      (\<forall>q \<in> P - {p}. block_area s' q = block_area s q \<and> header_writes s s' \<inter> block_area s q = {})"
    using s'(1) A(3) P frame_areas[OF s'(3) A(2) Diff_subset] by blast
next
  fix s P p q assume l: "live s P" "p \<in> P" "q \<in> P" "p \<noteq> q"
  then obtain A a b where A: "heap_ok s A" "p = a + 16" "a \<in> A" "q = b + 16" "b \<in> A" "a \<noteq> b" by (auto simp: live_def)
  then obtain xs where "heap_at s xs A" by (auto simp: heap_ok_def)
  then have "blocks_ok s (set (tl xs) \<union> A)" by (simp add: heap_at_def heap_with_def)
  then have "a < b \<Longrightarrow> a + 16 * hsize s a \<le> b" "b < a \<Longrightarrow> b + 16 * hsize s b \<le> a" using A(3,5) by (simp_all add: blocks_ok_def)
  then show "block_area s p \<inter> block_area s q = {}" using A(2,4,6) by (cases "a < b") (auto simp: block_area_def)
qed

section \<open>Examples\<close>

definition demo_heap :: uheap where
  "demo_heap = \<lparr>base = 100, freep = 0, hptr = (\<lambda>_. 0), hsize = (\<lambda>_. 0), brk = 4096\<rparr>"

definition demo_grow :: "nat \<Rightarrow> bool" where
  "demo_grow b \<longleftrightarrow> b < 2 ^ 27"

text \<open>The first request for \<open>n\<close> units, when \<open>b\<close> bytes are obtained.\<close>

definition demo_core :: "nat \<Rightarrow> nat \<Rightarrow> uheap" where
  "demo_core n b = \<lparr>base = 100, freep = 100, hptr = (\<lambda>_. 0)(100 := 4096, 4096 := 100), hsize = (\<lambda>_. 0)(4096 := n), brk = 4096 + b\<rparr>"

lemma demo_loop:
  assumes "0 < n" "morecore demo_grow n \<lparr>base = 100, freep = 100, hptr = (\<lambda>_. 0)(100 := 100), hsize = (\<lambda>_. 0), brk = 4096\<rparr> = Some (100, demo_core m b)"
    "n \<le> m" "units w = n"
  shows "malloc demo_grow w demo_heap = Some (take_block n 100 4096 (demo_core m b))"
proof -
  let ?s = "\<lparr>base = 100, freep = 100, hptr = (\<lambda>_. 0)(100 := 100), hsize = (\<lambda>_. 0), brk = 4096\<rparr> :: uheap"
  have "malloc demo_grow w demo_heap = malloc_loop demo_grow n 100 100 ?s"
    using assms(4) by (simp add: malloc_def Let_def demo_heap_def fun_upd_idem)
  also have "\<dots> = malloc_loop demo_grow n 100 4096 (demo_core m b)"
    using assms(1,2) by (subst malloc_loop.simps) (simp add: demo_core_def)
  also have "\<dots> = Some (take_block n 100 4096 (demo_core m b))"
    using assms(3) by (subst malloc_loop.simps) (simp add: demo_core_def)
  finally show ?thesis .
qed

lemma demo_malloc: "\<exists>s. malloc demo_grow 10 demo_heap = Some (69616, s)"
proof -
  have "morecore demo_grow 2 \<lparr>base = 100, freep = 100, hptr = (\<lambda>_. 0)(100 := 100), hsize = (\<lambda>_. 0), brk = 4096\<rparr> = Some (100, demo_core 4096 65536)"
    by (simp add: morecore_def sbrk_def free_def free_find.simps[of _ 4096 100] demo_grow_def demo_core_def fun_upd_twist)
  from demo_loop[OF _ this, of 10] show ?thesis by (simp add: units_def take_block_def demo_core_def)
qed

text \<open>
  A request near \<open>2 ^ 32\<close> bytes: the argument of \<open>sbrk\<close> is cut to 32 bits, so that 16 bytes are obtained for a
  block of more than \<open>2 ^ 28\<close> units, and the result points at the end of the process.
\<close>

lemma malloc_huge_overflows:
  "\<exists>s. malloc demo_grow 0xffffffff demo_heap = Some (4112, s) \<and> brk s = 4112"
proof -
  have "morecore demo_grow 0x10000001 \<lparr>base = 100, freep = 100, hptr = (\<lambda>_. 0)(100 := 100), hsize = (\<lambda>_. 0), brk = 4096\<rparr> = Some (100, demo_core 0x10000001 16)"
    by (simp add: morecore_def sbrk_def free_def free_find.simps[of _ 4096 100] demo_grow_def demo_core_def fun_upd_twist)
  from demo_loop[OF _ this, of "0xffffffff"] show ?thesis by (simp add: units_def take_block_def demo_core_def)
qed

section \<open>Properties\<close>



end
