(* ===== verification/Spec2Isabelle.thy ===== *)
theory Spec2Isabelle
  imports Spinlock Alarm Tty Ondisk Transfers Grep Shrun Uheap
begin

text \<open>
  Verification of the xv6 kernel for RISC-V with copy-on-write fork, alarms, tracing and four
  alternative schedulers.

  \<^bold>\<open>Theories.\<close>
  \<^item> \<open>Prelude\<close>: machine words, byte memories, results in which \<^verbatim>\<open>panic\<close> is a value.
  \<^item> \<open>Riscv\<close>: \<^verbatim>\<open>kernel/riscv.h\<close> and \<^verbatim>\<open>kernel/memlayout.h\<close>.
  \<^item> \<open>Cstring\<close>: \<^verbatim>\<open>kernel/string.c\<close>.
  \<^item> \<open>Kalloc\<close>: \<^verbatim>\<open>kernel/kalloc.c\<close>, the locale \<open>page_allocator\<close> and its interpretation.
  \<^item> \<open>Spinlock\<close>: \<^verbatim>\<open>kernel/spinlock.c\<close>.
  \<^item> \<open>Vm\<close>, \<open>Pagetable\<close>, \<open>Uvm\<close>, \<open>Cow\<close>: \<^verbatim>\<open>kernel/vm.c\<close> and the store fault of \<^verbatim>\<open>kernel/trap.c\<close>.
\<close>

end
